(* ===== verification/PT_Prelude.thy ===== *)
theory PT_Prelude
  imports Main "HOL-Library.Word" "HOL-Library.Multiset" "HOL-Library.Monad_Syntax"
begin

text \<open>
  The prelude of the development: the machine types, the byte and bit level
  view of memory the Bloom filter code relies on, the part of the Apache Arrow
  library the sources call (Arrow is not part of the repository, so it is a
  parameter of the model), and the generic lemmas on lists, options and words
  shared by the component theories.

  Conventions.
  \<^item> \<open>uint64_t\<close>, \<open>uint16_t\<close> and \<open>uint8_t\<close> values that are hashed, shifted, masked
    or counted modulo their width are words. Sizes, row numbers and loop
    counters (\<open>idx_t\<close>, \<open>int64_t\<close>, \<open>int\<close>) are \<open>nat\<close>, or \<open>int\<close> where the code
    lets them become negative: none of them comes near the end of its range.
  \<^item> An array in memory is a list. A write through \<open>SelectionVector::set_index\<close>
    is partial: it gives \<open>None\<close> when it would leave the array, so a theorem
    that a routine returns \<open>Some\<close> also says that it stays in bounds.
  \<^item> \<open>bf_bits\<close> collects the bit level facts, \<open>bf_defs\<close> the definitions that
    proofs about the Bloom filter unfold together.
\<close>

unbundle bit_operations_syntax

type_synonym u8 = "8 word"
type_synonym u16 = "16 word"
type_synonym u32 = "32 word"
type_synonym u64 = "64 word"

named_theorems bf_bits "bit level facts about the words of the Bloom filter"
named_theorems bf_defs "definitions unfolded together in the Bloom filter proofs"

section \<open>Bytes and bits in memory\<close>

text \<open>Bit \<open>i\<close> of a byte array, in least significant bit order.\<close>

definition bytes_bit :: "u8 list \<Rightarrow> nat \<Rightarrow> bool" where
  "bytes_bit bs i = bit (bs ! (i div 8)) (i mod 8)"

text \<open>
  \<open>SafeLoadAs<uint64_t>\<close>: an unaligned little-endian load of eight bytes.
\<close>

definition SafeLoadAs_uint64 :: "u8 list \<Rightarrow> nat \<Rightarrow> u64" where
  "SafeLoadAs_uint64 bs off =
     foldr (\<lambda>b acc. ucast b OR push_bit 8 acc) (take 8 (drop off bs)) 0"

lemma bit_foldr_bytes:
  "bit (foldr (\<lambda>b acc. ucast b OR push_bit 8 acc) bs (0::u64)) n \<longleftrightarrow>
     n < 64 \<and> n div 8 < length bs \<and> bit (bs ! (n div 8)) (n mod 8)"
  for bs :: "u8 list"
proof (induction bs arbitrary: n)
  case Nil
  then show ?case by simp
next
  case (Cons b bs)
  show ?case
  proof (cases "n < 8")
    case True
    then show ?thesis
      using Cons.IH [of "n - 8"] by (auto simp: bit_simps)
  next
    case False
    then have "n div 8 = Suc ((n - 8) div 8)" and "(n - 8) mod 8 = n mod 8"
      by (simp_all add: le_div_geq le_mod_geq)
    moreover have "\<not> bit (ucast b :: u64) n"
      using False by (auto simp: bit_simps dest: bit_imp_le_length)
    ultimately show ?thesis
      using False Cons.IH [of "n - 8"] by (auto simp: bit_simps)
  qed
qed

lemma bit_SafeLoadAs_uint64 [bf_bits]:
  assumes "off + 8 \<le> length bs"
  shows "bit (SafeLoadAs_uint64 bs off) n \<longleftrightarrow> n < 64 \<and> bytes_bit bs (8 * off + n)"
proof -
  have "n div 8 < 8 \<longleftrightarrow> n < 64" by auto
  moreover have "n < 64 \<Longrightarrow> take 8 (drop off bs) ! (n div 8) = bs ! (off + n div 8)"
    using assms by (subst nth_take) auto
  moreover have "(8 * off + n) div 8 = off + n div 8" and "(8 * off + n) mod 8 = n mod 8"
    by simp_all
  ultimately show ?thesis
    unfolding SafeLoadAs_uint64_def bit_foldr_bytes bytes_bit_def using assms by auto
qed

text \<open>The number of set bits of a word.\<close>

definition popcount :: "u64 \<Rightarrow> nat" where
  "popcount w = card {n. n < 64 \<and> bit w n}"

section \<open>The Arrow library\<close>

text \<open>
  What the sources use of Apache Arrow (a dependency outside the repository):
  \<open>bit_util::Log2\<close> (the ceiling of the base two logarithm), \<open>bit_util::GetBit\<close>
  and \<open>SetBit\<close> (least significant bit numbering), \<open>internal::CountSetBits\<close>,
  the macro \<open>ROTL64\<close>, \<open>AllocateBuffer\<close> (which may fail) and the feature flag
  \<open>CpuInfo::AVX2\<close>. Every definition that calls one of them takes the library as
  its argument.
\<close>

record arrow_lib =
  Log2 :: "nat \<Rightarrow> nat"
  GetBit :: "u8 list \<Rightarrow> nat \<Rightarrow> bool"
  SetBit :: "u8 list \<Rightarrow> nat \<Rightarrow> u8 list"
  CountSetBits :: "u8 list \<Rightarrow> nat \<Rightarrow> nat \<Rightarrow> nat"
  ROTL64 :: "u64 \<Rightarrow> nat \<Rightarrow> u64"
  AllocateBuffer :: "nat \<Rightarrow> u8 list option"
  CpuInfo_AVX2 :: u64

text \<open>The status values the sources distinguish.\<close>

datatype arrow_status = Status_OK | Status_OutOfMemory

text \<open>The documented behaviour of these functions, one predicate per family.\<close>

definition arrow_log2_ok :: "'a arrow_lib_scheme \<Rightarrow> bool" where
  "arrow_log2_ok A \<longleftrightarrow>
     (\<forall>x > 0. x \<le> 2 ^ Log2 A x \<and> (\<forall>n. x \<le> 2 ^ n \<longrightarrow> Log2 A x \<le> n))"

definition arrow_bits_ok :: "'a arrow_lib_scheme \<Rightarrow> bool" where
  "arrow_bits_ok A \<longleftrightarrow>
     (\<forall>bs i. i < 8 * length bs \<longrightarrow> GetBit A bs i = bytes_bit bs i) \<and>
     (\<forall>bs i. i < 8 * length bs \<longrightarrow>
        SetBit A bs i = bs[i div 8 := set_bit (i mod 8) (bs ! (i div 8))])"

definition arrow_count_ok :: "'a arrow_lib_scheme \<Rightarrow> bool" where
  "arrow_count_ok A \<longleftrightarrow>
     (\<forall>bs off len. off + len \<le> 8 * length bs \<longrightarrow>
        CountSetBits A bs off len = card {i. off \<le> i \<and> i < off + len \<and> bytes_bit bs i})"

definition arrow_rotl_ok :: "'a arrow_lib_scheme \<Rightarrow> bool" where
  "arrow_rotl_ok A \<longleftrightarrow> (\<forall>x r. r < 64 \<longrightarrow> ROTL64 A x r = word_rotl r x)"

definition arrow_alloc_ok :: "'a arrow_lib_scheme \<Rightarrow> bool" where
  "arrow_alloc_ok A \<longleftrightarrow> (\<forall>n buf. AllocateBuffer A n = Some buf \<longrightarrow> length buf = n)"

text \<open>
  An executable library with the documented behaviour, for evaluating the model
  on concrete inputs.
\<close>

fun log2_from :: "nat \<Rightarrow> nat \<Rightarrow> nat \<Rightarrow> nat" where
  "log2_from 0 n x = n"
| "log2_from (Suc fuel) n x = (if x \<le> 2 ^ n then n else log2_from fuel (Suc n) x)"

definition arrow_ref :: arrow_lib where
  "arrow_ref =
     \<lparr> Log2 = (\<lambda>x. log2_from x 0 x),
       GetBit = bytes_bit,
       SetBit = (\<lambda>bs i. bs[i div 8 := set_bit (i mod 8) (bs ! (i div 8))]),
       CountSetBits = (\<lambda>bs off len. length (filter (bytes_bit bs) [off..<off + len])),
       ROTL64 = (\<lambda>x r. word_rotl r x),
       AllocateBuffer = (\<lambda>n. Some (replicate n 0)),
       CpuInfo_AVX2 = 1 \<rparr>"

lemma log2_from_ge:
  "x \<le> 2 ^ (n + fuel) \<Longrightarrow> x \<le> 2 ^ log2_from fuel n x"
  by (induction fuel arbitrary: n) auto

lemma log2_from_least:
  "\<lbrakk>n \<le> m; x \<le> 2 ^ m\<rbrakk> \<Longrightarrow> log2_from fuel n x \<le> m"
proof (induction fuel arbitrary: n)
  case 0
  then show ?case by simp
next
  case (Suc fuel)
  then show ?case by (cases "n = m") auto
qed

lemma arrow_ref_ok [simp]:
  "arrow_log2_ok arrow_ref" "arrow_bits_ok arrow_ref" "arrow_count_ok arrow_ref"
  "arrow_rotl_ok arrow_ref" "arrow_alloc_ok arrow_ref"
proof -
  have "x \<le> 2 ^ log2_from x 0 x" for x
    using log2_from_ge [of x 0 x] less_imp_le [OF less_exp [of x]] by simp
  then show "arrow_log2_ok arrow_ref"
    by (auto simp: arrow_log2_ok_def arrow_ref_def intro: log2_from_least)
  have "length (filter P [off..<off + len]) = card {i. off \<le> i \<and> i < off + len \<and> P i}"
    for P :: "nat \<Rightarrow> bool" and off len
  proof -
    have "length (filter P [off..<off + len]) = card (set (filter P [off..<off + len]))"
      by (simp only: distinct_card distinct_filter distinct_upt)
    then show ?thesis by (simp add: conj_ac conj_commute)
  qed
  then show "arrow_count_ok arrow_ref"
    by (simp add: arrow_count_ok_def arrow_ref_def)
qed (simp_all add: arrow_bits_ok_def arrow_rotl_ok_def arrow_alloc_ok_def arrow_ref_def)

section \<open>Column bindings\<close>

record ColumnBinding =
  table_index :: nat
  column_index :: nat

section \<open>Arrays and selection vectors\<close>

text \<open>A write to an array; \<open>None\<close> when it would leave the array.\<close>

definition buf_set :: "'a list \<Rightarrow> nat \<Rightarrow> 'a \<Rightarrow> 'a list option" where
  "buf_set buf i v = (if i < length buf then Some (buf[i := v]) else None)"

lemma buf_set_Some [simp]: "i < length buf \<Longrightarrow> buf_set buf i v = Some (buf[i := v])"
  by (simp add: buf_set_def)

text \<open>
  \<open>SelectionVector::set_index(idx, loc)\<close>: the entries have the type \<open>sel_t\<close>, an
  unsigned 32 bit integer, so a larger position would be truncated.
\<close>

definition sel_set :: "nat list \<Rightarrow> nat \<Rightarrow> nat \<Rightarrow> nat list option" where
  "sel_set sel idx loc = buf_set sel idx (loc mod 2 ^ 32)"

lemma sel_set_Some [simp]:
  "\<lbrakk>i < length sel; v < 2 ^ 32\<rbrakk> \<Longrightarrow> sel_set sel i v = Some (sel[i := v])"
  by (simp add: sel_set_def)

text \<open>
  A selection vector with its count is extended by \<open>xs\<close>: the entries below the
  old count are kept, those up to the new count are \<open>xs\<close>.
\<close>

definition sel_extends :: "nat list \<times> nat \<Rightarrow> nat list \<Rightarrow> nat list \<times> nat \<Rightarrow> bool" where
  "sel_extends s xs s' \<longleftrightarrow> snd s' = snd s + length xs \<and> length (fst s') = length (fst s) \<and>
     take (snd s') (fst s') = take (snd s) (fst s) @ xs"

lemma sel_extends_Nil: "sel_extends s [] s"
  by (simp add: sel_extends_def)

lemma sel_extends_trans [trans]:
  "\<lbrakk>sel_extends s xs s'; sel_extends s' ys s''\<rbrakk> \<Longrightarrow> sel_extends s (xs @ ys) s''"
  by (auto simp: sel_extends_def)

lemma sel_extends_overwrite:
  "sel_extends (sel[rc := v], rc) xs s' \<Longrightarrow> sel_extends (sel, rc) xs s'"
  by (auto simp: sel_extends_def)

lemma sel_extends_push:
  "\<lbrakk>rc < length sel; sel_extends (sel[rc := v], Suc rc) xs s'\<rbrakk> \<Longrightarrow> sel_extends (sel, rc) (v # xs) s'"
  by (auto simp: sel_extends_def take_Suc_conv_app_nth)

section \<open>Loops that can fail\<close>

text \<open>A \<open>for\<close> loop over a list whose body may fail.\<close>

fun for_opt :: "('a \<Rightarrow> 's \<Rightarrow> 's option) \<Rightarrow> 'a list \<Rightarrow> 's \<Rightarrow> 's option" where
  "for_opt body [] s = Some s"
| "for_opt body (x # xs) s = (case body x s of None \<Rightarrow> None | Some s' \<Rightarrow> for_opt body xs s')"

lemma for_opt_append [simp]:
  "for_opt body (xs @ ys) s =
     (case for_opt body xs s of None \<Rightarrow> None | Some s' \<Rightarrow> for_opt body ys s')"
  by (induction xs arbitrary: s) (auto split: option.splits)

text \<open>The same loop where an iteration may throw: the left summand is the exception.\<close>

fun for_res :: "('x \<Rightarrow> 's \<Rightarrow> 'e + 's) \<Rightarrow> 'x list \<Rightarrow> 's \<Rightarrow> 'e + 's" where
  "for_res body [] s = Inr s"
| "for_res body (x # xs) s = (case body x s of Inl e \<Rightarrow> Inl e | Inr s' \<Rightarrow> for_res body xs s')"

lemma for_res_append [simp]:
  "for_res body (xs @ ys) s = (case for_res body xs s of Inl e \<Rightarrow> Inl e | Inr s' \<Rightarrow> for_res body ys s')"
  by (induction xs arbitrary: s) (auto split: sum.splits)

lemma for_opt_buf_set:
  "m \<le> length bv \<Longrightarrow>
   for_opt (\<lambda>i bv. buf_set bv i (g i)) [0..<m] bv = Some (map g [0..<m] @ drop m bv)"
proof (induction m)
  case (Suc m)
  then have "drop m bv = bv ! m # drop (Suc m) bv" by (simp add: Cons_nth_drop_Suc)
  then show ?case using Suc by (simp add: list_update_append)
qed simp

lemma fold_chunks:
  "fold (\<lambda>i. fold g (take k (drop (k * i) xs))) [0..<m] s = fold g (take (k * m) xs) s"
proof (induction m)
  case (Suc m)
  have "take (k * Suc m) xs = take (k * m) xs @ take k (drop (k * m) xs)"
    by (metis mult_Suc_right add.commute take_add)
  then show ?case using Suc by simp
qed simp

section \<open>Words and lists\<close>

lemma popcount_word_rotl:
  assumes "r < 64"
  shows "popcount (word_rotl r w) = popcount w"
proof -
  let ?S = "{n. n < 64 \<and> bit (word_rotl r w) n}" and ?T = "{n. n < 64 \<and> bit w n}"
  have to_fro: "((n + s) mod 64 + t) mod 64 = n" if "s + t = 64" and "n < 64" for n s t :: nat
    using that by (simp add: mod_add_left_eq add.assoc)
  have "bij_betw (\<lambda>n. (n + (64 - r)) mod 64) ?S ?T"
  proof (rule bij_betw_byWitness [where f' = "\<lambda>n. (n + r) mod 64"])
    show "\<forall>n\<in>?S. ((n + (64 - r)) mod 64 + r) mod 64 = n"
      and "\<forall>n\<in>?T. ((n + r) mod 64 + (64 - r)) mod 64 = n"
      using to_fro [of "64 - r" r] to_fro [of r "64 - r"] assms by simp_all
    show "(\<lambda>n. (n + (64 - r)) mod 64) ` ?S \<subseteq> ?T"
      using assms by (auto simp: bit_word_rotl_iff)
    show "(\<lambda>n. (n + r) mod 64) ` ?T \<subseteq> ?S"
      using to_fro [of r "64 - r"] assms by (auto simp: bit_word_rotl_iff)
  qed
  then show ?thesis by (simp add: popcount_def bij_betw_same_card)
qed

text \<open>A word test \<open>b AND m = m\<close> says that \<open>b\<close> has every bit of \<open>m\<close>.\<close>

lemma and_eq_iff_bits: "b AND m = m \<longleftrightarrow> (\<forall>n. bit m n \<longrightarrow> bit b n)"
  for b m :: "'a::len word"
  by (metis bit_and_iff bit_eq_iff)

lemma map_nth_take: "n \<le> length xs \<Longrightarrow> map ((!) xs) [0..<n] = take n xs"
  by (rule nth_equalityI) simp_all

lemma card_shift: "card {p. a \<le> p \<and> p < a + b \<and> P p} = card {p. p < b \<and> P (a + p)}" for a b :: nat
proof -
  have "bij_betw ((+) a) {p. p < b \<and> P (a + p)} {p. a \<le> p \<and> p < a + b \<and> P p}"
    by (rule bij_betw_byWitness [where f' = "\<lambda>p. p - a"]) auto
  from bij_betw_same_card [OF this] show ?thesis by simp
qed

end
