(* ===== verification/Bloom_Masks.thy ===== *)
theory Bloom_Masks
  imports PT_Prelude
begin

text \<open>
  \<open>struct BloomFilterMasks\<close> (bloom_filter.hpp, bloom_filter.cpp): the table of
  1024 overlapping 57 bit masks, its construction from the pseudo random source
  and the lookup of one mask.

  The random source (\<open>std::mt19937\<close> behind \<open>std::uniform_int_distribution\<close>, whose
  algorithm the C++ standard leaves open) is the sequence \<open>rs\<close> of the 64 bit
  values it delivers; the constructor reads it from position 0 on. The search
  for a free bit position repeats until the source names one, so it is a
  \<open>partial_function\<close>: \<open>None\<close> is the loop that never ends.
\<close>

section \<open>The table\<close>

definition kBitsPerMask :: nat where "kBitsPerMask = 57"
definition kFullMask :: u64 where "kFullMask = push_bit kBitsPerMask 1 - 1"
definition kMinBitsSet :: nat where "kMinBitsSet = 4"
definition kMaxBitsSet :: nat where "kMaxBitsSet = 5"
definition kLogNumMasks :: nat where "kLogNumMasks = 10"
definition kNumMasks :: nat where "kNumMasks = 2 ^ kLogNumMasks"
definition kTotalBytes :: nat where "kTotalBytes = (kNumMasks + 64) div 8"

lemmas mask_consts = kBitsPerMask_def kMinBitsSet_def kMaxBitsSet_def
  kLogNumMasks_def kNumMasks_def kTotalBytes_def

text \<open>\<open>BloomFilterMasks::mask(bit_offset)\<close> on the bytes of the table.\<close>

definition BloomFilterMasks_mask :: "u8 list \<Rightarrow> nat \<Rightarrow> u64" where
  "BloomFilterMasks_mask masks bit_offset =
     drop_bit (bit_offset mod 8) (SafeLoadAs_uint64 masks (bit_offset div 8)) AND kFullMask"

text \<open>The lambda \<open>random(min_value, max_value)\<close>: the value and the next position of the source.\<close>

definition random :: "(nat \<Rightarrow> u64) \<Rightarrow> nat \<Rightarrow> nat \<Rightarrow> nat \<Rightarrow> nat \<times> nat" where
  "random rs k min_value max_value =
     (min_value + unat (rs k) mod (max_value - min_value + 1), Suc k)"

text \<open>The inner \<open>for (;;)\<close> of the first mask: draw positions until one is free, and set it.\<close>

partial_function (option) set_free_bit ::
    "'a arrow_lib_scheme \<Rightarrow> (nat \<Rightarrow> u64) \<Rightarrow> nat \<Rightarrow> u8 list \<Rightarrow> (u8 list \<times> nat) option" where
  "set_free_bit A rs k masks =
     (let (bit_pos, k') = random rs k 0 (kBitsPerMask - 1)
      in if \<not> GetBit A masks bit_pos then Some (SetBit A masks bit_pos, k')
         else set_free_bit A rs k' masks)"

fun first_mask :: "'a arrow_lib_scheme \<Rightarrow> (nat \<Rightarrow> u64) \<Rightarrow> nat \<Rightarrow> nat \<Rightarrow> u8 list \<Rightarrow>
    (u8 list \<times> nat) option" where
  "first_mask A rs 0 k masks = Some (masks, k)"
| "first_mask A rs (Suc num_bits) k masks =
     (case set_free_bit A rs k masks of None \<Rightarrow> None
      | Some (masks', k') \<Rightarrow> first_mask A rs num_bits k' masks')"

text \<open>One iteration of the second loop, over the state (masks, source position, num_bits_set).\<close>

definition mask_step :: "'a arrow_lib_scheme \<Rightarrow> (nat \<Rightarrow> u64) \<Rightarrow> nat \<Rightarrow>
    u8 list \<times> nat \<times> nat \<Rightarrow> u8 list \<times> nat \<times> nat" where
  "mask_step A rs i s =
     (case s of (masks, k, num_bits_set) \<Rightarrow>
        let bit_leaving = GetBit A masks (i - kBitsPerMask)
        in if bit_leaving \<and> num_bits_set = kMinBitsSet
           then (SetBit A masks i, k, num_bits_set)
           else if \<not> bit_leaving \<and> num_bits_set = kMaxBitsSet
           then (masks, k, num_bits_set)
           else let (r, k') = random rs k 0 (kBitsPerMask * 2 - 1)
                in if r < kMinBitsSet + kMaxBitsSet
                   then (SetBit A masks i, k',
                         if \<not> bit_leaving then Suc num_bits_set else num_bits_set)
                   else (masks, k',
                         if bit_leaving then num_bits_set - 1 else num_bits_set))"

text \<open>The constructor \<open>BloomFilterMasks()\<close>; the result is the byte array \<open>masks_\<close>.\<close>

definition BloomFilterMasks :: "'a arrow_lib_scheme \<Rightarrow> (nat \<Rightarrow> u64) \<Rightarrow> u8 list option" where
  "BloomFilterMasks A rs =
     (let masks = replicate kTotalBytes 0;
          (num_bits_set, k) = random rs 0 kMinBitsSet kMaxBitsSet
      in case first_mask A rs num_bits_set k masks of None \<Rightarrow> None
         | Some (masks', k') \<Rightarrow>
             let num_bits_total = kNumMasks + kBitsPerMask - 1
             in Some (fst (fold (mask_step A rs) [kBitsPerMask..<num_bits_total]
                             (masks', k', num_bits_set))))"

section \<open>Mask lookup\<close>

lemma bit_kFullMask [bf_bits]: "bit kFullMask n \<longleftrightarrow> n < 57"
proof -
  have eq: "kFullMask = mask 57"
    by (simp add: kFullMask_def kBitsPerMask_def mask_eq_exp_minus_1 push_bit_eq_mult)
  show ?thesis unfolding eq by (auto simp: bit_mask_iff)
qed

text \<open>
  The single unaligned 64 bit load is enough: for every mask number the eight
  bytes lie inside the table, and the 57 bits are the bits from the offset on.
\<close>

lemma mask_load_in_bounds: "bit_offset < kNumMasks \<Longrightarrow> bit_offset div 8 + 8 \<le> kTotalBytes"
  by (simp add: mask_consts)

lemma bit_BloomFilterMasks_mask [bf_bits]:
  assumes "bit_offset < kNumMasks" and "length masks = kTotalBytes"
  shows "bit (BloomFilterMasks_mask masks bit_offset) n \<longleftrightarrow>
     n < 57 \<and> bytes_bit masks (bit_offset + n)"
proof -
  have "bit_offset div 8 + 8 \<le> length masks"
    using mask_load_in_bounds assms by simp
  moreover have "8 * (bit_offset div 8) + (bit_offset mod 8 + n) = bit_offset + n"
    by simp
  moreover have "n < 57 \<Longrightarrow> bit_offset mod 8 + n < 64"
    using mod_less_divisor [of 8 bit_offset] by linarith
  ultimately show ?thesis
    by (auto simp: BloomFilterMasks_mask_def bit_and_iff bit_kFullMask bit_drop_bit_eq
        bit_SafeLoadAs_uint64)
qed

section \<open>The window invariant of the construction\<close>

text \<open>The number of bits set in the mask at an offset.\<close>

definition window :: "u8 list \<Rightarrow> nat \<Rightarrow> nat" where
  "window masks i = card {j. i \<le> j \<and> j < i + kBitsPerMask \<and> bytes_bit masks j}"

definition window_ok :: "u8 list \<Rightarrow> nat \<Rightarrow> bool" where
  "window_ok masks i \<longleftrightarrow> kMinBitsSet \<le> window masks i \<and> window masks i \<le> kMaxBitsSet"

lemma GetBit_ok:
  "\<lbrakk>arrow_bits_ok A; i < 8 * length bs\<rbrakk> \<Longrightarrow> GetBit A bs i = bytes_bit bs i"
  by (simp add: arrow_bits_ok_def)

lemma length_SetBit:
  "\<lbrakk>arrow_bits_ok A; i < 8 * length bs\<rbrakk> \<Longrightarrow> length (SetBit A bs i) = length bs"
  by (simp add: arrow_bits_ok_def)

lemma bytes_bit_SetBit:
  assumes "arrow_bits_ok A" and "i < 8 * length bs"
  shows "bytes_bit (SetBit A bs i) j \<longleftrightarrow> bytes_bit bs j \<or> j = i"
proof -
  have i: "i div 8 < length bs" using assms(2) by auto
  have eq: "SetBit A bs i = bs[i div 8 := set_bit (i mod 8) (bs ! (i div 8))]"
    using assms by (simp add: arrow_bits_ok_def)
  have "i = j" if "i div 8 = j div 8" and "i mod 8 = j mod 8"
    using that by (metis div_mult_mod_eq)
  then show ?thesis
    using i by (auto simp: eq bytes_bit_def nth_list_update bit_set_bit_iff)
qed

lemmas bits_simps = GetBit_ok length_SetBit bytes_bit_SetBit

lemma bytes_bit_replicate: "i < 8 * n \<Longrightarrow> \<not> bytes_bit (replicate n 0) i"
  by (auto simp: bytes_bit_def)

lemma finite_window [simp]: "finite {j. i \<le> j \<and> j < i + n \<and> P j}" for i n :: nat
  by (rule finite_subset [of _ "{..<i + n}"]) auto

text \<open>Moving the window by one drops the bit that leaves and adds the bit that enters.\<close>

lemma window_Suc:
  "window masks (Suc i) + of_bool (bytes_bit masks i) =
   window masks i + of_bool (bytes_bit masks (i + kBitsPerMask))"
proof -
  let ?I = "{j. Suc i \<le> j \<and> j < i + kBitsPerMask \<and> bytes_bit masks j}"
  have k: "0 < kBitsPerMask" by (simp add: kBitsPerMask_def)
  have fin: "finite ?I" by (rule finite_subset [of _ "{..<i + kBitsPerMask}"]) auto
  have "{j. i \<le> j \<and> j < i + kBitsPerMask \<and> bytes_bit masks j} =
      (if bytes_bit masks i then insert i ?I else ?I)"
    by (auto simp: kBitsPerMask_def not_less_eq_eq le_Suc_eq dest: le_neq_implies_less)
  then have l: "window masks i = card ?I + of_bool (bytes_bit masks i)"
    using fin by (simp add: window_def)
  have "{j. Suc i \<le> j \<and> j < Suc i + kBitsPerMask \<and> bytes_bit masks j} =
      (if bytes_bit masks (i + kBitsPerMask) then insert (i + kBitsPerMask) ?I else ?I)"
    using k by (auto simp: less_Suc_eq)
  then have "window masks (Suc i) = card ?I + of_bool (bytes_bit masks (i + kBitsPerMask))"
    using fin by (simp add: window_def)
  with l show ?thesis by simp
qed

text \<open>Setting a bit past a window leaves the window alone.\<close>

lemma window_SetBit_beyond:
  assumes "arrow_bits_ok A" and "j < 8 * length masks" and "i + kBitsPerMask \<le> j"
  shows "window (SetBit A masks j) i = window masks i"
  unfolding window_def
  by (rule arg_cong [where f = card]) (use assms in \<open>auto simp: bits_simps\<close>)

text \<open>
  The state of the second loop before bit \<open>i\<close> is decided: \<open>num_bits_set\<close> counts the
  last complete mask, every complete mask is within the bounds, and no later bit is set.
\<close>

definition mask_inv :: "nat \<Rightarrow> u8 list \<times> nat \<times> nat \<Rightarrow> bool" where
  "mask_inv i s \<longleftrightarrow>
     (case s of (masks, k, num_bits_set) \<Rightarrow>
        length masks = kTotalBytes \<and> kBitsPerMask \<le> i \<and>
        num_bits_set = window masks (i - kBitsPerMask) \<and>
        (\<forall>j \<le> i - kBitsPerMask. window_ok masks j) \<and>
        (\<forall>j \<ge> i. j < 8 * kTotalBytes \<longrightarrow> \<not> bytes_bit masks j))"

lemma mask_step_inv:
  assumes A: "arrow_bits_ok A" and i: "i < kNumMasks + kBitsPerMask - 1"
    and inv: "mask_inv i s"
  shows "mask_inv (Suc i) (mask_step A rs i s)"
proof -
  obtain masks k n where s: "s = (masks, k, n)" by (cases s)
  let ?p = "i - kBitsPerMask"
  have len: "length masks = kTotalBytes" and ge: "kBitsPerMask \<le> i" and n: "n = window masks ?p"
    and ok: "\<And>j. j \<le> ?p \<Longrightarrow> window_ok masks j"
    and clear: "\<And>j. \<lbrakk>i \<le> j; j < 8 * kTotalBytes\<rbrakk> \<Longrightarrow> \<not> bytes_bit masks j"
    using inv by (auto simp: mask_inv_def s)
  have i8: "i < 8 * length masks" using i len by (simp add: mask_consts)
  have ne: "?p \<noteq> i" using ge by (simp add: kBitsPerMask_def)
  have p: "Suc ?p = Suc i - kBitsPerMask" "?p + kBitsPerMask = i" using ge by simp_all
  let ?set = "SetBit A masks i"
  have leave: "GetBit A masks ?p = bytes_bit masks ?p"
    using A i8 by (simp add: GetBit_ok)
  have set_inv: "mask_inv (Suc i) (?set, k', window ?set (Suc ?p))"
    if "window_ok ?set (Suc ?p)" for k'
  proof -
    have "window_ok ?set j" if "j \<le> Suc ?p" for j
    proof (cases "j = Suc ?p")
      case False
      with that have "j \<le> ?p" by simp
      moreover from this have "window ?set j = window masks j"
        using A i8 ge by (intro window_SetBit_beyond) simp_all
      ultimately show ?thesis using ok by (simp add: window_ok_def)
    qed (use \<open>window_ok ?set (Suc ?p)\<close> in simp)
    then show ?thesis
      using A len ge clear i8 by (auto simp: mask_inv_def bits_simps p(1) [symmetric])
  qed
  have skip_inv: "mask_inv (Suc i) (masks, k', window masks (Suc ?p))"
    if "window_ok masks (Suc ?p)" for k'
  proof -
    have "window_ok masks j" if "j \<le> Suc ?p" for j
      using ok that \<open>window_ok masks (Suc ?p)\<close> by (cases "j = Suc ?p") simp_all
    then show ?thesis
      using len ge clear by (simp add: mask_inv_def p(1) [symmetric])
  qed
  have w_set: "window ?set (Suc ?p) + of_bool (bytes_bit masks ?p) = Suc n"
    using window_Suc [of ?set ?p] window_SetBit_beyond [OF A i8, of ?p] A i8 ge
    by (simp add: bits_simps p n ne)
  have w_skip: "window masks (Suc ?p) + of_bool (bytes_bit masks ?p) = n"
    using window_Suc [of masks ?p] clear [of i] i8 len by (simp add: p n)
  have bounds: "kMinBitsSet \<le> n" "n \<le> kMaxBitsSet"
    using ok [of ?p] by (simp_all add: window_ok_def n)
  have S1: "mask_inv (Suc i) (?set, k', n)" if "bytes_bit masks ?p" for k'
    using set_inv [of k'] w_set bounds that by (simp add: window_ok_def)
  have S0: "mask_inv (Suc i) (?set, k', Suc n)" if "\<not> bytes_bit masks ?p" "n \<noteq> kMaxBitsSet" for k'
    using set_inv [of k'] w_set bounds that by (simp add: window_ok_def)
  have K1: "mask_inv (Suc i) (masks, k', n - 1)" if "bytes_bit masks ?p" "n \<noteq> kMinBitsSet" for k'
  proof -
    have w: "window masks (Suc ?p) = n - 1" using w_skip that by simp
    have "window_ok masks (Suc ?p)" unfolding window_ok_def w using bounds that by linarith
    from skip_inv [OF this, of k'] show ?thesis unfolding w .
  qed
  have K0: "mask_inv (Suc i) (masks, k', n)" if "\<not> bytes_bit masks ?p" for k'
    using skip_inv [of k'] w_skip bounds that by (simp add: window_ok_def)
  show ?thesis
    using S1 S0 K1 K0 unfolding mask_step_def s random_def Let_def by (auto simp: leave)
qed

section \<open>The constructor\<close>

text \<open>The state of the first loop: \<open>c\<close> of the first 57 bits are set, and no other.\<close>

definition first_inv :: "nat \<Rightarrow> u8 list \<Rightarrow> bool" where
  "first_inv c masks \<longleftrightarrow> length masks = kTotalBytes \<and> window masks 0 = c \<and>
     (\<forall>j \<ge> kBitsPerMask. j < 8 * kTotalBytes \<longrightarrow> \<not> bytes_bit masks j)"

text \<open>
  A source that names every bit position again and again; every sequence with
  this property lets the rejection loop end.
\<close>

definition source_fair :: "(nat \<Rightarrow> u64) \<Rightarrow> bool" where
  "source_fair rs \<longleftrightarrow> (\<forall>k b. b < kBitsPerMask \<longrightarrow> (\<exists>m \<ge> k. unat (rs m) mod kBitsPerMask = b))"

lemma first_inv_SetBit:
  assumes A: "arrow_bits_ok A" and inv: "first_inv c masks"
    and b: "b < kBitsPerMask" "\<not> bytes_bit masks b"
  shows "first_inv (Suc c) (SetBit A masks b)"
proof -
  have b8: "b < 8 * length masks" using b inv by (simp add: first_inv_def mask_consts)
  have "{j. j < kBitsPerMask \<and> bytes_bit (SetBit A masks b) j} =
      insert b {j. j < kBitsPerMask \<and> bytes_bit masks j}"
    using A b b8 by (auto simp: bits_simps)
  then have "window (SetBit A masks b) 0 = Suc (window masks 0)"
    using b finite_window [of 0 kBitsPerMask] by (simp add: window_def)
  then show ?thesis
    using A b b8 inv by (auto simp: first_inv_def bits_simps)
qed

text \<open>The rejection loop stops at the first draw that names a free position.\<close>

lemma set_free_bit_at:
  assumes "k \<le> m" and "\<not> GetBit A masks (unat (rs m) mod kBitsPerMask)"
    and "\<And>j. \<lbrakk>k \<le> j; j < m\<rbrakk> \<Longrightarrow> GetBit A masks (unat (rs j) mod kBitsPerMask)"
  shows "set_free_bit A rs k masks = Some (SetBit A masks (unat (rs m) mod kBitsPerMask), Suc m)"
  using assms
proof (induction k rule: inc_induct)
  case base
  then show ?case
    by (subst set_free_bit.simps) (simp add: random_def kBitsPerMask_def)
next
  case (step k)
  then have "GetBit A masks (unat (rs k) mod kBitsPerMask)" by simp
  moreover have "set_free_bit A rs (Suc k) masks =
      Some (SetBit A masks (unat (rs m) mod kBitsPerMask), Suc m)"
    using step by simp
  ultimately show ?case
    by (subst set_free_bit.simps) (simp add: random_def kBitsPerMask_def)
qed

lemma set_free_bit_total:
  assumes A: "arrow_bits_ok A" and rs: "source_fair rs"
    and inv: "first_inv c masks" and c: "c < kBitsPerMask"
  obtains masks' k' where "set_free_bit A rs k masks = Some (masks', k')"
    and "first_inv (Suc c) masks'"
proof -
  let ?pos = "\<lambda>m. unat (rs m) mod kBitsPerMask"
  have len: "length masks = kTotalBytes" using inv by (simp add: first_inv_def)
  have in_range: "b < 8 * length masks" if "b < kBitsPerMask" for b
    using that len by (simp add: mask_consts)
  have "\<exists>b < kBitsPerMask. \<not> bytes_bit masks b"
  proof (rule ccontr)
    assume "\<not> ?thesis"
    then have "{j. 0 \<le> j \<and> j < 0 + kBitsPerMask \<and> bytes_bit masks j} = {..<kBitsPerMask}" by auto
    then have "window masks 0 = kBitsPerMask" by (simp add: window_def)
    with inv c show False by (simp add: first_inv_def)
  qed
  then obtain b where "b < kBitsPerMask" "\<not> bytes_bit masks b" by blast
  with rs obtain m where "k \<le> m \<and> \<not> bytes_bit masks (?pos m)"
    by (force simp: source_fair_def)
  then have ex: "\<exists>m. k \<le> m \<and> \<not> bytes_bit masks (?pos m)" ..
  define m where "m = (LEAST m. k \<le> m \<and> \<not> bytes_bit masks (?pos m))"
  have m: "k \<le> m" "\<not> bytes_bit masks (?pos m)"
    using LeastI_ex [OF ex] by (simp_all add: m_def)
  have least: "bytes_bit masks (?pos j)" if "k \<le> j" "j < m" for j
    using not_less_Least [of j "\<lambda>m. k \<le> m \<and> \<not> bytes_bit masks (?pos m)"] that
    by (simp add: m_def)
  have pos: "?pos j < kBitsPerMask" for j by (simp add: kBitsPerMask_def)
  show thesis
  proof (rule that)
    show "set_free_bit A rs k masks = Some (SetBit A masks (?pos m), Suc m)"
      using m least by (intro set_free_bit_at) (simp_all add: GetBit_ok A in_range pos)
    show "first_inv (Suc c) (SetBit A masks (?pos m))"
      using A inv m pos by (intro first_inv_SetBit)
  qed
qed

lemma first_mask_total:
  assumes "arrow_bits_ok A" and "source_fair rs"
    and "first_inv c masks" and "c + n \<le> kBitsPerMask"
  shows "\<exists>masks' k'. first_mask A rs n k masks = Some (masks', k') \<and> first_inv (c + n) masks'"
  using assms(3,4)
proof (induction n arbitrary: c k masks)
  case 0
  then show ?case by simp
next
  case (Suc n)
  then have "c < kBitsPerMask" by simp
  with assms(1,2) Suc.prems(1) obtain masks' k' where
    "set_free_bit A rs k masks = Some (masks', k')" and "first_inv (Suc c) masks'"
    by (rule set_free_bit_total)
  then show ?case using Suc.IH [of "Suc c" masks' k'] Suc.prems(2) by simp
qed

lemma mask_loop_inv:
  assumes "arrow_bits_ok A" and "mask_inv kBitsPerMask s"
    and "n \<le> kNumMasks + kBitsPerMask - 1" and "kBitsPerMask \<le> n"
  shows "mask_inv n (fold (mask_step A rs) [kBitsPerMask..<n] s)"
  using assms(4,3)
proof (induction n rule: dec_induct)
  case base
  then show ?case using assms(2) by simp
next
  case (step n)
  then show ?case using mask_step_inv [OF assms(1)] by simp
qed

lemma popcount_mask_eq_window:
  assumes "i < kNumMasks" and "length masks = kTotalBytes"
  shows "popcount (BloomFilterMasks_mask masks i) = window masks i"
proof -
  have "bij_betw ((+) i) {n. n < 64 \<and> bit (BloomFilterMasks_mask masks i) n}
      {j. i \<le> j \<and> j < i + kBitsPerMask \<and> bytes_bit masks j}"
    by (rule bij_betw_byWitness [where f' = "\<lambda>j. j - i"])
      (auto simp: bit_BloomFilterMasks_mask assms kBitsPerMask_def)
  from bij_betw_same_card [OF this] show ?thesis
    unfolding popcount_def window_def .
qed

text \<open>
  C14. The constructor of the mask table returns, whatever the random source
  delivers, as long as it keeps naming every position; the table has
  \<open>kTotalBytes\<close> bytes, and each of its 1024 masks has between \<open>kMinBitsSet\<close> and
  \<open>kMaxBitsSet\<close> bits set, as the class comment promises.
\<close>

theorem BloomFilterMasks_bits_set:
  assumes "arrow_bits_ok A" and "source_fair rs"
  shows "\<exists>masks. BloomFilterMasks A rs = Some masks \<and> length masks = kTotalBytes \<and>
     (\<forall>i < kNumMasks. kMinBitsSet \<le> popcount (BloomFilterMasks_mask masks i) \<and>
        popcount (BloomFilterMasks_mask masks i) \<le> kMaxBitsSet)"
proof -
  define n where "n = fst (random rs 0 kMinBitsSet kMaxBitsSet)"
  have n: "kMinBitsSet \<le> n" "n \<le> kMaxBitsSet"
    by (simp_all add: n_def random_def mask_consts)
  have "first_inv 0 (replicate kTotalBytes 0)"
    by (auto simp: first_inv_def window_def bytes_bit_replicate mask_consts)
  with assms n obtain masks k where
    first: "first_mask A rs n 1 (replicate kTotalBytes 0) = Some (masks, k)" "first_inv n masks"
    using first_mask_total [of A rs 0 "replicate kTotalBytes 0" n 1]
    by (auto simp: mask_consts)
  have "mask_inv kBitsPerMask (masks, k, n)"
    using first(2) n by (auto simp: mask_inv_def first_inv_def window_ok_def)
  moreover have "kBitsPerMask \<le> kNumMasks + kBitsPerMask - 1" by (simp add: mask_consts)
  ultimately have "mask_inv (kNumMasks + kBitsPerMask - 1)
      (fold (mask_step A rs) [kBitsPerMask..<kNumMasks + kBitsPerMask - 1] (masks, k, n))"
    by (rule mask_loop_inv [OF assms(1) _ order.refl])
  moreover obtain masks' k' n' where loop:
    "fold (mask_step A rs) [kBitsPerMask..<kNumMasks + kBitsPerMask - 1] (masks, k, n) = (masks', k', n')"
    by (rule prod_cases3)
  ultimately have inv: "mask_inv (kNumMasks + kBitsPerMask - 1) (masks', k', n')" by (simp only:)
  have "BloomFilterMasks A rs = Some masks'"
    using first(1) loop by (simp add: BloomFilterMasks_def n_def random_def)
  moreover have "\<forall>i < kNumMasks. window_ok masks' i" and "length masks' = kTotalBytes"
    using inv by (auto simp: mask_inv_def mask_consts)
  ultimately show ?thesis
    by (auto simp: popcount_mask_eq_window window_ok_def)
qed

lemma source_fair_of_nat: "source_fair of_nat"
  unfolding source_fair_def
proof (intro allI impI)
  fix k b assume "b < kBitsPerMask"
  moreover from this have "unat (of_nat (2 ^ 64 * k + b) :: u64) = b"
    by (subst unat_of_nat) (simp add: kBitsPerMask_def)
  ultimately have "unat (of_nat (2 ^ 64 * k + b) :: u64) mod kBitsPerMask = b"
    by simp
  moreover have "k \<le> 2 ^ 64 * k + b" by simp
  ultimately show "\<exists>m\<ge>k. unat (of_nat m :: u64) mod kBitsPerMask = b" by blast
qed

theorem BloomFilterMasks_bits_set_witness:
  "arrow_bits_ok arrow_ref \<and> source_fair of_nat \<and>
   (\<exists>masks. BloomFilterMasks arrow_ref of_nat = Some masks \<and> length masks = kTotalBytes \<and>
     popcount (BloomFilterMasks_mask masks 1023) \<le> kMaxBitsSet)"
  using BloomFilterMasks_bits_set [of arrow_ref of_nat] source_fair_of_nat
  by (auto simp: kNumMasks_def kLogNumMasks_def)

end
