(* ===== verification/Bloom_Filter.thy ===== *)
theory Bloom_Filter
  imports Bloom_Masks
begin

text \<open>
  \<open>class BlockedBloomFilter\<close> (bloom_filter.hpp, bloom_filter.cpp): the state of a
  filter, the choice of mask and block for a hash, insertion and lookup of one
  hash, the scalar loops, creation, folding and the small accessors. The table
  of masks is a static member of the class, so it is an argument (\<open>masks\<close>) of the
  operations that read it.

  The array of blocks is a list of 64 bit words; the null pointer before
  \<open>CreateEmpty\<close> is the empty list (\<open>CreateEmpty\<close> never allocates an empty array).
  \<open>fetch_or\<close> on a block is the list update with the disjunction; the
  interleaving of concurrent updates is the subject of the builder theory.
\<close>

section \<open>State\<close>

record BlockedBloomFilter =
  log_num_blocks :: nat
  num_blocks :: nat
  use_64bit_hashes :: bool
  blocks :: "u64 list"
  Used :: bool
  column_bindings_applied :: "ColumnBinding list"
  column_bindings_built :: "ColumnBinding list"
  BoundColsApplied :: "nat list"
  BoundColsBuilt :: "nat list"

text \<open>The default constructor.\<close>

definition BlockedBloomFilter_new :: BlockedBloomFilter where
  "BlockedBloomFilter_new =
     \<lparr> log_num_blocks = 0, num_blocks = 0, use_64bit_hashes = True, blocks = [], Used = False,
       column_bindings_applied = [], column_bindings_built = [],
       BoundColsApplied = [], BoundColsBuilt = [] \<rparr>"

definition AddColumnBindingApplied :: "ColumnBinding \<Rightarrow> BlockedBloomFilter \<Rightarrow> BlockedBloomFilter" where
  "AddColumnBindingApplied c f = f\<lparr>column_bindings_applied := column_bindings_applied f @ [c]\<rparr>"

definition AddColumnBindingBuilt :: "ColumnBinding \<Rightarrow> BlockedBloomFilter \<Rightarrow> BlockedBloomFilter" where
  "AddColumnBindingBuilt c f = f\<lparr>column_bindings_built := column_bindings_built f @ [c]\<rparr>"

definition isEmpty :: "BlockedBloomFilter \<Rightarrow> bool" where
  "isEmpty f \<longleftrightarrow> blocks f = []"

definition setUsed :: "BlockedBloomFilter \<Rightarrow> BlockedBloomFilter" where
  "setUsed f = f\<lparr>Used := True\<rparr>"

section \<open>One hash\<close>

definition bloom_mask :: "'a arrow_lib_scheme \<Rightarrow> u8 list \<Rightarrow> u64 \<Rightarrow> u64" where
  "bloom_mask A masks hash =
     (let mask_id = unat (hash AND (of_nat kNumMasks - 1));
          result = BloomFilterMasks_mask masks mask_id;
          rotation = unat (drop_bit kLogNumMasks hash AND 63)
      in ROTL64 A result rotation)"

definition block_id :: "BlockedBloomFilter \<Rightarrow> u64 \<Rightarrow> nat" where
  "block_id f hash = unat (drop_bit (kLogNumMasks + 6) hash AND (of_nat (num_blocks f) - 1))"

definition Find1 :: "'a arrow_lib_scheme \<Rightarrow> u8 list \<Rightarrow> BlockedBloomFilter \<Rightarrow> u64 \<Rightarrow> bool" where
  "Find1 A masks f hash =
     (let m = bloom_mask A masks hash; b = blocks f ! block_id f hash in b AND m = m)"

definition Insert1 :: "'a arrow_lib_scheme \<Rightarrow> u8 list \<Rightarrow> u64 \<Rightarrow> BlockedBloomFilter \<Rightarrow> BlockedBloomFilter" where
  "Insert1 A masks hash f =
     (let m = bloom_mask A masks hash; i = block_id f hash
      in f\<lparr>blocks := (blocks f)[i := blocks f ! i OR m]\<rparr>)"

section \<open>Batches, the scalar loops\<close>

definition InsertImp :: "'a arrow_lib_scheme \<Rightarrow> u8 list \<Rightarrow> nat \<Rightarrow> u64 list \<Rightarrow> BlockedBloomFilter \<Rightarrow>
    BlockedBloomFilter" where
  "InsertImp A masks num_rows hashes f =
     fold (\<lambda>i. Insert1 A masks (hashes ! i)) [0..<num_rows] f"

definition kPrefetchLimitBytes :: nat where "kPrefetchLimitBytes = 256 * 1024"

definition UsePrefetch :: "BlockedBloomFilter \<Rightarrow> bool" where
  "UsePrefetch f \<longleftrightarrow> num_blocks f * 8 > kPrefetchLimitBytes"

text \<open>
  One iteration of the lookup loops: the position is always written, and kept
  when \<open>result_count\<close> moves past it.
\<close>

definition find_step :: "'a arrow_lib_scheme \<Rightarrow> u8 list \<Rightarrow> BlockedBloomFilter \<Rightarrow> u64 list \<Rightarrow> nat \<Rightarrow>
    nat \<Rightarrow> nat list \<times> nat \<Rightarrow> (nat list \<times> nat) option" where
  "find_step A masks f hashes offset i s =
     (case s of (sel, result_count) \<Rightarrow>
        let result = Find1 A masks f (hashes ! i)
        in map_option (\<lambda>sel'. (sel', result_count + of_bool result))
             (sel_set sel result_count (i + offset)))"

definition FindImp :: "'a arrow_lib_scheme \<Rightarrow> u8 list \<Rightarrow> BlockedBloomFilter \<Rightarrow> nat \<Rightarrow> nat \<Rightarrow> u64 list \<Rightarrow>
    nat list \<times> nat \<Rightarrow> bool \<Rightarrow> (nat list \<times> nat) option" where
  "FindImp A masks f num_rows num_preprocessed hashes s enable_prefetch =
     (let prefetch = enable_prefetch \<and> UsePrefetch f;
          kPrefetchIterations = 16;
          s1 = (if prefetch
                then for_opt (find_step A masks f hashes 0)
                       [0..<nat (int num_rows - kPrefetchIterations)] s
                else Some s);
          num_processed = (if prefetch then int num_rows - kPrefetchIterations else 0);
          num_processed' = (if num_processed < 0 then 0 else num_processed)
      in case s1 of None \<Rightarrow> None
         | Some s' \<Rightarrow> for_opt (find_step A masks f hashes num_preprocessed)
                       [nat num_processed'..<num_rows] s')"

section \<open>Creation\<close>

definition CreateEmpty :: "'a arrow_lib_scheme \<Rightarrow> nat \<Rightarrow> BlockedBloomFilter \<Rightarrow>
    arrow_status \<times> BlockedBloomFilter" where
  "CreateEmpty A num_rows_to_insert f =
     (let min_num_bits_per_key = 8;
          min_num_bits = 512;
          desired_num_bits = max min_num_bits (num_rows_to_insert * min_num_bits_per_key);
          log_num_bits = Log2 A desired_num_bits;
          f1 = f\<lparr>log_num_blocks := log_num_bits - 6, num_blocks := 2 ^ (log_num_bits - 6)\<rparr>;
          buffer_size = num_blocks f1 * 8
      in case AllocateBuffer A buffer_size of
           None \<Rightarrow> (Status_OutOfMemory, f1)
         | Some buf \<Rightarrow> (Status_OK, f1\<lparr>blocks := replicate (length buf div 8) 0\<rparr>))"

section \<open>Folding\<close>

definition SingleFold :: "nat \<Rightarrow> BlockedBloomFilter \<Rightarrow> BlockedBloomFilter" where
  "SingleFold num_folds f =
     (let num_slices = 2 ^ num_folds;
          num_slice_blocks = num_blocks f div 2 ^ num_folds;
          blocks' = fold (\<lambda>slice bs.
                       fold (\<lambda>i bs. bs[i := bs ! i OR bs ! (slice * num_slice_blocks + i)])
                         [0..<num_slice_blocks] bs)
                     [1..<num_slices] (blocks f)
      in f\<lparr>blocks := blocks', log_num_blocks := log_num_blocks f - num_folds,
          num_blocks := 2 ^ (log_num_blocks f - num_folds)\<rparr>)"

text \<open>The array of blocks seen as bytes (little endian).\<close>

definition word_bytes :: "u64 \<Rightarrow> u8 list" where
  "word_bytes w = map (\<lambda>k. ucast (drop_bit (8 * k) w)) [0..<8]"

definition blocks_bytes :: "u64 list \<Rightarrow> u8 list" where
  "blocks_bytes ws = concat (map word_bytes ws)"

text \<open>The loop that counts the set bits in batches of 65536.\<close>

function count_batches :: "'a arrow_lib_scheme \<Rightarrow> u8 list \<Rightarrow> nat \<Rightarrow> nat \<Rightarrow> nat \<Rightarrow> nat" where
  "count_batches A bytes num_bits i num_bits_set =
     (if i < num_bits
      then let batch_size = min (num_bits - i) 65536
           in count_batches A bytes num_bits (i + 65536)
                (num_bits_set + CountSetBits A (drop (i div 8) bytes) 0 batch_size)
      else num_bits_set)"
  by pat_completeness auto
termination
  by (relation "measure (\<lambda>(A, bytes, num_bits, i, s). num_bits - i)") auto

declare count_batches.simps [simp del]

definition log_num_blocks_min :: nat where "log_num_blocks_min = 4"

text \<open>How many times to fold at once.\<close>

function choose_num_folds :: "nat \<Rightarrow> nat \<Rightarrow> nat \<Rightarrow> nat \<Rightarrow> nat" where
  "choose_num_folds log num_bits num_bits_set num_folds =
     (if log - num_folds > log_num_blocks_min \<and> 4 * num_bits_set < num_bits div 2 ^ num_folds
      then choose_num_folds log num_bits num_bits_set (Suc num_folds)
      else num_folds)"
  by pat_completeness auto
termination
  by (relation "measure (\<lambda>(log, nb, s, k). log - k)") (auto simp: log_num_blocks_min_def)

declare choose_num_folds.simps [simp del]

lemma choose_num_folds_ge: "num_folds \<le> choose_num_folds log nb s num_folds"
proof (induction log nb s num_folds rule: choose_num_folds.induct)
  case (1 log nb s k)
  then show ?case by (subst choose_num_folds.simps) auto
qed

function Fold :: "'a arrow_lib_scheme \<Rightarrow> BlockedBloomFilter \<Rightarrow> BlockedBloomFilter" where
  "Fold A f =
     (if log_num_blocks f \<le> log_num_blocks_min then f
      else let num_bits = num_blocks f * 64;
               num_bits_set = count_batches A (blocks_bytes (blocks f)) num_bits 0 0
           in if 4 * num_bits_set \<ge> num_bits then f
              else Fold A (SingleFold
                     (choose_num_folds (log_num_blocks f) num_bits num_bits_set 1) f))"
  by pat_completeness auto
termination
proof (relation "measure (\<lambda>(A, f). log_num_blocks f)", goal_cases)
  case 1
  show ?case by simp
next
  case (2 A f num_bits num_bits_set)
  then show ?case
    using choose_num_folds_ge [of 1 "log_num_blocks f" num_bits num_bits_set]
    by (simp add: SingleFold_def Let_def log_num_blocks_min_def)
qed

declare Fold.simps [simp del]

section \<open>Accessors\<close>

definition NumHashBitsUsed :: "BlockedBloomFilter \<Rightarrow> nat" where
  "NumHashBitsUsed f =
     (let num_bits_for_mask = kLogNumMasks + 6; num_bits_for_block = log_num_blocks f
      in num_bits_for_mask + num_bits_for_block)"

definition IsSameAs :: "BlockedBloomFilter \<Rightarrow> BlockedBloomFilter \<Rightarrow> bool" where
  "IsSameAs f other =
     (if log_num_blocks f \<noteq> log_num_blocks other \<or> num_blocks f \<noteq> num_blocks other then False
      else if take (num_blocks f) (blocks f) \<noteq> take (num_blocks f) (blocks other) then False
      else True)"

definition NumBitsSet :: "'a arrow_lib_scheme \<Rightarrow> BlockedBloomFilter \<Rightarrow> nat" where
  "NumBitsSet A f = CountSetBits A (blocks_bytes (blocks f)) 0 (2 ^ log_num_blocks f * 64)"

section \<open>Well-formed filters\<close>

text \<open>
  The type invariant: the number of blocks is the power of two of its logarithm,
  and the array has at least that many blocks (folding leaves the array alone).
\<close>

definition bf_wf :: "BlockedBloomFilter \<Rightarrow> bool" where
  "bf_wf f \<longleftrightarrow> num_blocks f = 2 ^ log_num_blocks f \<and> log_num_blocks f < 58 \<and>
     num_blocks f \<le> length (blocks f)"

lemma bf_wfD [dest]:
  assumes "bf_wf f"
  shows "num_blocks f = 2 ^ log_num_blocks f" and "log_num_blocks f < 58"
    and "num_blocks f \<le> length (blocks f)" and "0 < num_blocks f"
  using assms by (auto simp: bf_wf_def)

lemma unat_and_exp_minus_1: "unat (w AND (2 ^ k - 1)) = unat w mod 2 ^ k"
  for w :: "'a::len word"
proof -
  have "w AND (2 ^ k - 1) = take_bit k w"
    by (simp only: take_bit_eq_mask mask_eq_exp_minus_1)
  then show ?thesis by (simp only: unsigned_take_bit_eq) (simp only: take_bit_eq_mod)
qed

lemma block_id_eq_mod:
  "bf_wf f \<Longrightarrow> block_id f h = unat (drop_bit 16 h) mod num_blocks f"
  by (simp add: block_id_def kLogNumMasks_def bf_wf_def unat_and_exp_minus_1)

lemma block_id_less [simp]: "bf_wf f \<Longrightarrow> block_id f h < num_blocks f"
  by (simp add: block_id_eq_mod bf_wfD(4))

lemma block_id_cong: "num_blocks f = num_blocks g \<Longrightarrow> block_id f h = block_id g h"
  by (simp add: block_id_def)

lemma mask_id_less: "unat (h AND (of_nat kNumMasks - 1)) < kNumMasks" for h :: u64
  using unat_and_exp_minus_1 [of h kLogNumMasks] by (simp add: kNumMasks_def kLogNumMasks_def)

lemma rotation_less: "unat (w AND 63) < 64" for w :: u64
  using unat_and_exp_minus_1 [of w 6] by simp

section \<open>Insertion\<close>

lemma Insert1_simps [simp]:
  "log_num_blocks (Insert1 A masks h f) = log_num_blocks f"
  "num_blocks (Insert1 A masks h f) = num_blocks f"
  "length (blocks (Insert1 A masks h f)) = length (blocks f)"
  "block_id (Insert1 A masks h f) h' = block_id f h'"
  by (simp_all add: Insert1_def Let_def block_id_def)

lemma bf_wf_Insert1 [simp]: "bf_wf (Insert1 A masks h f) = bf_wf f"
  by (simp add: bf_wf_def)

lemma Insert1_frame: "Insert1 A masks h f = f\<lparr>blocks := blocks (Insert1 A masks h f)\<rparr>"
  by (simp add: Insert1_def Let_def)

lemma fold_Insert1_simps [simp]:
  "log_num_blocks (fold (Insert1 A masks) hs f) = log_num_blocks f"
  "num_blocks (fold (Insert1 A masks) hs f) = num_blocks f"
  "length (blocks (fold (Insert1 A masks) hs f)) = length (blocks f)"
  "block_id (fold (Insert1 A masks) hs f) h' = block_id f h'"
  "bf_wf (fold (Insert1 A masks) hs f) = bf_wf f"
  by (induction hs arbitrary: f) simp_all

lemma fold_Insert1_frame:
  "fold (Insert1 A masks) hs f = f\<lparr>blocks := blocks (fold (Insert1 A masks) hs f)\<rparr>"
proof (induction hs arbitrary: f)
  case Nil
  then show ?case by simp
next
  case (Cons h hs)
  have "fold (Insert1 A masks) (h # hs) f =
      (Insert1 A masks h f)\<lparr>blocks := blocks (fold (Insert1 A masks) (h # hs) f)\<rparr>"
    using Cons.IH [of "Insert1 A masks h f"] by simp
  also have "\<dots> = f\<lparr>blocks := blocks (fold (Insert1 A masks) (h # hs) f)\<rparr>"
    by (subst Insert1_frame) simp
  finally show ?case .
qed

text \<open>
  The blocks after a sequence of insertions, bit by bit: a bit is set when it was
  set before or an inserted hash with that block has it in its mask.
\<close>

lemma bit_fold_Insert1:
  "j < length (blocks f) \<Longrightarrow>
   bit (blocks (fold (Insert1 A masks) hs f) ! j) n \<longleftrightarrow>
     bit (blocks f ! j) n \<or> (\<exists>h \<in> set hs. block_id f h = j \<and> bit (bloom_mask A masks h) n)"
proof (induction hs arbitrary: f)
  case Nil
  then show ?case by simp
next
  case (Cons h hs)
  have "bit (blocks (Insert1 A masks h f) ! j) n \<longleftrightarrow>
      bit (blocks f ! j) n \<or> block_id f h = j \<and> bit (bloom_mask A masks h) n"
    using Cons.prems by (cases "j = block_id f h") (auto simp: Insert1_def Let_def bit_or_iff)
  then show ?case using Cons by auto
qed

text \<open>Hence only the set of inserted hashes matters, not their order or multiplicity.\<close>

lemma fold_Insert1_cong:
  assumes "set hs = set hs'"
  shows "fold (Insert1 A masks) hs f = fold (Insert1 A masks) hs' f"
proof -
  have "blocks (fold (Insert1 A masks) hs f) = blocks (fold (Insert1 A masks) hs' f)"
    by (rule nth_equalityI) (auto simp: bit_eq_iff bit_fold_Insert1 assms)
  then show ?thesis
    by (metis fold_Insert1_frame)
qed

lemma InsertImp_eq_fold: "InsertImp A masks n hashes f = fold (Insert1 A masks) (map ((!) hashes) [0..<n]) f"
  by (simp add: InsertImp_def fold_map comp_def)

lemma InsertImp_eq_take:
  "n \<le> length hashes \<Longrightarrow> InsertImp A masks n hashes f = fold (Insert1 A masks) (take n hashes) f"
  by (simp add: InsertImp_eq_fold map_nth_take)

section \<open>Lookup\<close>

lemma Find1_iff_bits:
  "Find1 A masks f h \<longleftrightarrow> (\<forall>n. bit (bloom_mask A masks h) n \<longrightarrow> bit (blocks f ! block_id f h) n)"
  by (simp add: Find1_def Let_def and_eq_iff_bits)

lemma Find1_fold_Insert1:
  assumes "bf_wf f" and "h \<in> set hs"
  shows "Find1 A masks (fold (Insert1 A masks) hs f) h"
proof -
  have "block_id f h < length (blocks f)"
    using block_id_less [OF assms(1)] bf_wfD(3) [OF assms(1)] by (rule less_le_trans)
  then show ?thesis using assms(2) by (auto simp: Find1_iff_bits bit_fold_Insert1)
qed

lemma Find1_fold_Insert1_mono:
  assumes "bf_wf f" and "Find1 A masks f h"
  shows "Find1 A masks (fold (Insert1 A masks) hs f) h"
proof -
  have "block_id f h < length (blocks f)"
    using block_id_less [OF assms(1)] bf_wfD(3) [OF assms(1)] by (rule less_le_trans)
  then show ?thesis using assms(2) by (auto simp: Find1_iff_bits bit_fold_Insert1)
qed

text \<open>
  The selection vector after a lookup loop over rows: the rows found, in order,
  after what was selected before.
\<close>

lemma for_opt_find_step:
  assumes "result_count + length is \<le> length sel" and "\<And>i. i \<in> set is \<Longrightarrow> i + off < 2 ^ 32"
  shows "\<exists>s'. for_opt (find_step A masks f hashes off) is (sel, result_count) = Some s' \<and>
     sel_extends (sel, result_count)
       (map (\<lambda>i. i + off) (filter (\<lambda>i. Find1 A masks f (hashes ! i)) is)) s'"
  using assms
proof (induction "is" arbitrary: sel result_count)
  case Nil
  then show ?case by (simp add: sel_extends_Nil)
next
  case (Cons i "is")
  have rc: "result_count < length sel" "i + off < 2 ^ 32" using Cons.prems by simp_all
  let ?sel = "sel[result_count := i + off]"
  show ?case
  proof (cases "Find1 A masks f (hashes ! i)")
    case True
    have "Suc result_count + length is \<le> length ?sel" using Cons.prems by simp
    then show ?thesis
      using Cons.IH [of "Suc result_count" ?sel] Cons.prems(2) True rc
      by (auto simp: find_step_def intro: sel_extends_push [OF rc(1)])
  next
    case False
    have "result_count + length is \<le> length ?sel" using Cons.prems by simp
    then show ?thesis
      using Cons.IH [of result_count ?sel] Cons.prems(2) False rc
      by (auto simp: find_step_def intro: sel_extends_overwrite)
  qed
qed

text \<open>The two loops of \<open>FindImp\<close> together visit every row once, in order.\<close>

lemma FindImp_spec:
  assumes "result_count + num_rows \<le> length sel" and "num_rows + off < 2 ^ 32"
    and "enable_prefetch \<and> UsePrefetch f \<Longrightarrow> off = 0"
  shows "\<exists>s'. FindImp A masks f num_rows off hashes (sel, result_count) enable_prefetch = Some s' \<and>
     sel_extends (sel, result_count)
       (map (\<lambda>i. i + off) (filter (\<lambda>i. Find1 A masks f (hashes ! i)) [0..<num_rows])) s'"
proof -
  have "FindImp A masks f num_rows off hashes (sel, result_count) enable_prefetch =
      for_opt (find_step A masks f hashes off) [0..<num_rows] (sel, result_count)"
  proof (cases "enable_prefetch \<and> UsePrefetch f")
    case True
    then have "off = 0" by (rule assms(3))
    let ?done = "nat (if int num_rows - 16 < 0 then 0 else int num_rows - 16)"
    have "FindImp A masks f num_rows off hashes (sel, result_count) enable_prefetch =
        for_opt (find_step A masks f hashes 0) ([0..<nat (int num_rows - 16)] @ [?done..<num_rows])
          (sel, result_count)"
      by (simp add: FindImp_def Let_def True \<open>off = 0\<close>)
    moreover have "[0..<nat (int num_rows - 16)] @ [?done..<num_rows] = [0..<num_rows]"
    proof (cases "16 \<le> num_rows")
      case True
      then have "nat (int num_rows - 16) = num_rows - 16" and "?done = num_rows - 16" by simp_all
      then show ?thesis using upt_add_eq_append [of 0 "num_rows - 16" 16] True by simp
    qed simp
    ultimately show ?thesis by (simp only: \<open>off = 0\<close>)
  qed (auto simp: FindImp_def)
  then show ?thesis
    using for_opt_find_step [of result_count "[0..<num_rows]" sel off A masks f hashes] assms(1,2)
    by simp
qed

section \<open>Creation\<close>

lemma CreateEmpty_OK:
  assumes "arrow_log2_ok A" and "arrow_alloc_ok A" and "n < 2 ^ 60"
    and "CreateEmpty A n f = (Status_OK, f')"
  shows "bf_wf f'" and "blocks f' = replicate (num_blocks f') 0" and "3 \<le> log_num_blocks f'"
    and "max 512 (n * 8) \<le> 64 * num_blocks f'"
    and "f' = f\<lparr>log_num_blocks := log_num_blocks f', num_blocks := num_blocks f', blocks := blocks f'\<rparr>"
proof -
  define d where "d = max 512 (n * 8)"
  define l where "l = Log2 A d"
  have "d > 0" by (simp add: d_def)
  then have l: "d \<le> 2 ^ l" "\<And>m. d \<le> 2 ^ m \<Longrightarrow> l \<le> m"
    using assms(1) by (simp_all add: arrow_log2_ok_def l_def)
  have l9: "9 \<le> l"
  proof (rule ccontr)
    assume "\<not> 9 \<le> l"
    then have "(2::nat) ^ l \<le> 2 ^ 8" by (intro power_increasing) simp_all
    with l(1) show False by (simp add: d_def)
  qed
  have l63: "l \<le> 63" using assms(3) by (intro l(2)) (simp add: d_def)
  obtain buf where buf: "AllocateBuffer A (2 ^ (l - 6) * 8) = Some buf"
    and f': "f' = f\<lparr>log_num_blocks := l - 6, num_blocks := 2 ^ (l - 6),
        blocks := replicate (length buf div 8) 0\<rparr>"
    using assms(4) by (auto simp: CreateEmpty_def Let_def d_def l_def split: option.splits)
  have "length buf = 2 ^ (l - 6) * 8" using assms(2) buf by (simp add: arrow_alloc_ok_def)
  then show "bf_wf f'" and "blocks f' = replicate (num_blocks f') 0"
    using l63 by (simp_all add: f' bf_wf_def)
  show "3 \<le> log_num_blocks f'" using l9 by (simp add: f')
  have "64 * 2 ^ (l - 6) = (2::nat) ^ l"
    using l9 power_add [of "2::nat" 6 "l - 6"] by simp
  then show "max 512 (n * 8) \<le> 64 * num_blocks f'" using l(1) by (simp add: f' d_def)
  show "f' = f\<lparr>log_num_blocks := log_num_blocks f', num_blocks := num_blocks f', blocks := blocks f'\<rparr>"
    by (simp add: f')
qed

lemma CreateEmpty_not_isEmpty:
  assumes "arrow_log2_ok A" and "arrow_alloc_ok A" and "n < 2 ^ 60"
    and "CreateEmpty A n f = (Status_OK, f')"
  shows "\<not> isEmpty f'"
  using CreateEmpty_OK(1) [OF assms] bf_wfD by (fastforce simp: isEmpty_def)

section \<open>Folding\<close>

lemma fold_slice:
  assumes "n \<le> sl * n" and "(Suc sl) * n \<le> length bs" and "k \<le> n"
  defines "bs' \<equiv> fold (\<lambda>i bs. bs[i := bs ! i OR bs ! (sl * n + i)]) [0..<k] bs"
  shows "length bs' = length bs \<and>
    (\<forall>j < length bs. bs' ! j = (if j < k then bs ! j OR bs ! (sl * n + j) else bs ! j))"
  using assms(3) unfolding bs'_def
proof (induction k)
  case 0
  then show ?case by simp
next
  case (Suc k)
  then show ?case using assms(1,2) by (auto simp: nth_list_update less_Suc_eq)
qed

definition fold_slices :: "nat \<Rightarrow> nat \<Rightarrow> u64 list \<Rightarrow> u64 list" where
  "fold_slices n m bs =
     fold (\<lambda>slice bs. fold (\<lambda>i bs. bs[i := bs ! i OR bs ! (slice * n + i)]) [0..<n] bs) [1..<m] bs"

lemma fold_slices_spec:
  assumes "0 < m" and "m * n \<le> length bs"
  shows "length (fold_slices n m bs) = length bs \<and>
    (\<forall>j < n. \<forall>b. bit (fold_slices n m bs ! j) b \<longleftrightarrow> (\<exists>slice < m. bit (bs ! (slice * n + j)) b)) \<and>
    (\<forall>j \<ge> n. j < length bs \<longrightarrow> fold_slices n m bs ! j = bs ! j)"
  using assms
proof (induction m rule: nat_induct_non_zero)
  case 1
  then show ?case by (simp add: fold_slices_def)
next
  case (Suc m)
  let ?bs = "fold_slices n m bs"
  have len: "length ?bs = length bs"
    and low: "\<And>j b. j < n \<Longrightarrow> bit (?bs ! j) b \<longleftrightarrow> (\<exists>slice < m. bit (bs ! (slice * n + j)) b)"
    and high: "\<And>j. \<lbrakk>n \<le> j; j < length bs\<rbrakk> \<Longrightarrow> ?bs ! j = bs ! j"
    using Suc by auto
  have next_eq: "fold_slices n (Suc m) bs =
      fold (\<lambda>i bs. bs[i := bs ! i OR bs ! (m * n + i)]) [0..<n] ?bs"
    using \<open>0 < m\<close> by (simp add: fold_slices_def)
  have nm: "n \<le> m * n" using \<open>0 < m\<close> by simp
  from fold_slice [OF nm _ order.refl, of ?bs] Suc.prems len
  have len': "length (fold_slices n (Suc m) bs) = length bs"
    and step: "\<And>j. j < length bs \<Longrightarrow> fold_slices n (Suc m) bs ! j =
      (if j < n then ?bs ! j OR ?bs ! (m * n + j) else ?bs ! j)"
    unfolding next_eq by simp_all
  show ?case
  proof (intro conjI allI impI)
    fix j b assume j: "j < n"
    have "m * n + j < length bs" and "j < length bs" using j Suc.prems nm by simp_all
    then have "bit (fold_slices n (Suc m) bs ! j) b \<longleftrightarrow> bit (?bs ! j) b \<or> bit (?bs ! (m * n + j)) b"
      using j by (simp only: step bit_or_iff if_True)
    also have "\<dots> \<longleftrightarrow> (\<exists>slice < m. bit (bs ! (slice * n + j)) b) \<or> bit (bs ! (m * n + j)) b"
      using low [OF j] high [of "m * n + j"] nm \<open>m * n + j < length bs\<close> by simp
    also have "\<dots> \<longleftrightarrow> (\<exists>slice < Suc m. bit (bs ! (slice * n + j)) b)"
      by (auto simp: less_Suc_eq)
    finally show "bit (fold_slices n (Suc m) bs ! j) b \<longleftrightarrow> (\<exists>slice < Suc m. bit (bs ! (slice * n + j)) b)" .
  next
    fix j assume "n \<le> j" "j < length bs"
    then show "fold_slices n (Suc m) bs ! j = bs ! j" using step high by simp
  qed (rule len')
qed

lemma SingleFold_simps:
  "log_num_blocks (SingleFold k f) = log_num_blocks f - k"
  "num_blocks (SingleFold k f) = 2 ^ (log_num_blocks f - k)"
  "blocks (SingleFold k f) = fold_slices (num_blocks f div 2 ^ k) (2 ^ k) (blocks f)"
  by (simp_all add: SingleFold_def fold_slices_def Let_def)

lemma slice_size:
  assumes "bf_wf f" and "k \<le> log_num_blocks f"
  shows "num_blocks f div 2 ^ k = num_blocks (SingleFold k f)"
    and "2 ^ k * num_blocks (SingleFold k f) = num_blocks f"
proof -
  have "2 ^ k * 2 ^ (log_num_blocks f - k) = num_blocks f"
    using assms by (simp add: bf_wf_def power_add [symmetric])
  then show eq: "2 ^ k * num_blocks (SingleFold k f) = num_blocks f"
    by (simp add: SingleFold_simps)
  show "num_blocks f div 2 ^ k = num_blocks (SingleFold k f)"
    by (simp add: eq [symmetric])
qed

lemma SingleFold_blocks:
  assumes "bf_wf f" and "k \<le> log_num_blocks f"
  defines "n \<equiv> num_blocks (SingleFold k f)"
  shows "length (blocks (SingleFold k f)) = length (blocks f)"
    and "j < n \<Longrightarrow> bit (blocks (SingleFold k f) ! j) b \<longleftrightarrow>
      (\<exists>slice < 2 ^ k. bit (blocks f ! (slice * n + j)) b)"
  using fold_slices_spec [of "2 ^ k" n "blocks f"] slice_size [OF assms(1,2)] bf_wfD(3) [OF assms(1)]
  by (simp_all add: SingleFold_simps(3) n_def)

lemma bf_wf_SingleFold:
  "\<lbrakk>bf_wf f; k \<le> log_num_blocks f\<rbrakk> \<Longrightarrow> bf_wf (SingleFold k f)"
  using SingleFold_blocks(1) [of f k] slice_size(2) [of f k] bf_wfD(3) [of f]
  by (auto simp: bf_wf_def SingleFold_simps intro: order.trans [rotated])

lemma Find1_SingleFold:
  assumes "bf_wf f" and "k \<le> log_num_blocks f" and "Find1 A masks f h"
  shows "Find1 A masks (SingleFold k f) h"
proof -
  let ?g = "SingleFold k f"
  have n: "2 ^ k * num_blocks ?g = num_blocks f" by (rule slice_size [OF assms(1,2)])
  have id: "block_id ?g h = block_id f h mod num_blocks ?g"
    using block_id_eq_mod [OF assms(1)] block_id_eq_mod [OF bf_wf_SingleFold [OF assms(1,2)]] n
    by (metis dvd_triv_right mod_mod_cancel)
  have "block_id f h div num_blocks ?g < 2 ^ k"
    using block_id_less [OF assms(1), of h] n by (simp add: less_mult_imp_div_less)
  moreover have "block_id f h div num_blocks ?g * num_blocks ?g + block_id ?g h = block_id f h"
    unfolding id by simp
  ultimately have "bit (blocks ?g ! block_id ?g h) b" if "bit (blocks f ! block_id f h) b" for b
    using SingleFold_blocks(2) [OF assms(1,2), of "block_id ?g h" b]
      block_id_less [OF bf_wf_SingleFold [OF assms(1,2)]] that by metis
  then show ?thesis using assms(3) by (auto simp: Find1_iff_bits)
qed

text \<open>The number of folds chosen, and the density it leads to.\<close>

lemma choose_num_folds_spec:
  assumes "k \<le> log - log_num_blocks_min" and "4 * s < num_bits div 2 ^ (k - 1)" and "1 \<le> k"
  shows "choose_num_folds log num_bits s k \<le> log - log_num_blocks_min \<and>
    4 * s < num_bits div 2 ^ (choose_num_folds log num_bits s k - 1)"
  using assms
proof (induction log num_bits s k rule: choose_num_folds.induct)
  case (1 log num_bits s k)
  then show ?case by (subst (1 2) choose_num_folds.simps) auto
qed

text \<open>Set bits of the first \<open>n\<close> bits of the block array.\<close>

definition bits_set :: "u64 list \<Rightarrow> nat \<Rightarrow> nat set" where
  "bits_set ws n = {p. p < n \<and> bit (ws ! (p div 64)) (p mod 64)}"

lemma length_blocks_bytes [simp]: "length (blocks_bytes ws) = 8 * length ws"
  by (induction ws) (simp_all add: blocks_bytes_def word_bytes_def)

lemma nth_blocks_bytes:
  "i < 8 * length ws \<Longrightarrow> blocks_bytes ws ! i = ucast (drop_bit (8 * (i mod 8)) (ws ! (i div 8)))"
proof (induction ws arbitrary: i)
  case Nil
  then show ?case by simp
next
  case (Cons w ws)
  have split: "blocks_bytes (w # ws) = word_bytes w @ blocks_bytes ws" and "length (word_bytes w) = 8"
    by (simp_all add: blocks_bytes_def word_bytes_def)
  show ?case
  proof (cases "i < 8")
    case True
    then show ?thesis by (simp add: split nth_append word_bytes_def)
  next
    case False
    then have "i div 8 = Suc ((i - 8) div 8)" "(i - 8) mod 8 = i mod 8"
      by (simp_all add: le_div_geq le_mod_geq)
    then show ?thesis
      using Cons.IH [of "i - 8"] Cons.prems False \<open>length (word_bytes w) = 8\<close>
      by (simp add: split nth_append)
  qed
qed

lemma bytes_bit_blocks_bytes:
  assumes "p < 64 * length ws"
  shows "bytes_bit (blocks_bytes ws) p \<longleftrightarrow> bit (ws ! (p div 64)) (p mod 64)"
proof -
  have "p div 8 < 8 * length ws" using assms by auto
  moreover have "p div 8 div 8 = p div 64" by (simp add: div_mult2_eq [symmetric])
  moreover have "8 * (p div 8 mod 8) + p mod 8 = p mod 64"
    using mod_mult2_eq [of p 8 8] by simp
  moreover have "bit (ucast (drop_bit m w) :: u8) n \<longleftrightarrow> bit w (m + n)" if "n < 8" for m n and w :: u64
    using that by (auto simp: bit_simps)
  ultimately show ?thesis
    by (simp add: bytes_bit_def nth_blocks_bytes)
qed

lemma bytes_bit_drop: "m \<le> length bs \<Longrightarrow> bytes_bit (drop m bs) p = bytes_bit bs (8 * m + p)"
  by (simp add: bytes_bit_def)

lemma arrow_count_okD:
  assumes "arrow_count_ok A" and "n \<le> 8 * length bytes"
  shows "CountSetBits A bytes 0 n = card {p. p < n \<and> bytes_bit bytes p}"
  using assms(1) [unfolded arrow_count_ok_def, rule_format, of 0 n bytes] assms(2) by simp

lemma count_batches_eq:
  assumes "arrow_count_ok A" and "num_bits \<le> 8 * length bytes" and "8 dvd i"
  shows "count_batches A bytes num_bits i s =
    s + card {p. i \<le> p \<and> p < num_bits \<and> bytes_bit bytes p}"
  using assms
proof (induction A bytes num_bits i s rule: count_batches.induct)
  case (1 A bytes num_bits i s)
  let ?b = "min (num_bits - i) 65536"
  show ?case
  proof (cases "i < num_bits")
    case True
    let ?here = "{p. i \<le> p \<and> p < i + ?b \<and> bytes_bit bytes p}"
      and ?rest = "{p. i + 65536 \<le> p \<and> p < num_bits \<and> bytes_bit bytes p}"
    have "i div 8 \<le> length bytes" and "8 * (i div 8) = i" and "?b \<le> 8 * length (drop (i div 8) bytes)"
      using True "1.prems" by auto
    note drop8 = this
    have "CountSetBits A (drop (i div 8) bytes) 0 ?b =
        card {p. p < ?b \<and> bytes_bit (drop (i div 8) bytes) p}"
      using arrow_count_okD [OF "1.prems"(1) drop8(3)] .
    also have "\<dots> = card {p. p < ?b \<and> bytes_bit bytes (i + p)}"
      by (simp only: bytes_bit_drop [OF drop8(1)] drop8(2))
    also have "\<dots> = card ?here" by (rule card_shift [symmetric])
    finally have "CountSetBits A (drop (i div 8) bytes) 0 ?b = card ?here" .
    moreover have "count_batches A bytes num_bits (i + 65536)
        (s + CountSetBits A (drop (i div 8) bytes) 0 ?b) =
        s + CountSetBits A (drop (i div 8) bytes) 0 ?b + card ?rest"
      using "1.IH" [OF True refl] "1.prems" by simp
    moreover have "card {p. i \<le> p \<and> p < num_bits \<and> bytes_bit bytes p} = card ?here + card ?rest"
    proof -
      have "{p. i \<le> p \<and> p < num_bits \<and> bytes_bit bytes p} = ?here \<union> ?rest" by auto
      moreover have "finite ?here" "finite ?rest" by (rule finite_subset [of _ "{..<num_bits + i}"]; auto)+
      moreover have "?here \<inter> ?rest = {}" by auto
      ultimately show ?thesis by (simp only: card_Un_disjoint)
    qed
    ultimately show ?thesis
      using True by (subst count_batches.simps) (simp add: Let_def)
  next
    case False
    then have "{p. i \<le> p \<and> p < num_bits \<and> bytes_bit bytes p} = {}" by auto
    with False show ?thesis by (subst count_batches.simps) (simp del: Collect_empty_eq)
  qed
qed

lemma bits_set_bytes:
  assumes "n \<le> 64 * length ws"
  shows "{p. p < n \<and> bytes_bit (blocks_bytes ws) p} = bits_set ws n"
proof -
  have "bytes_bit (blocks_bytes ws) p \<longleftrightarrow> bit (ws ! (p div 64)) (p mod 64)" if "p < n" for p
    using that assms by (intro bytes_bit_blocks_bytes) simp
  then show ?thesis unfolding bits_set_def by blast
qed

lemma count_batches_blocks:
  assumes "arrow_count_ok A" and "bf_wf f"
  shows "count_batches A (blocks_bytes (blocks f)) (num_blocks f * 64) 0 0 =
    card (bits_set (blocks f) (num_blocks f * 64))"
proof -
  have n: "num_blocks f * 64 \<le> 64 * length (blocks f)"
    using bf_wfD(3) [OF assms(2)] by simp
  then have "count_batches A (blocks_bytes (blocks f)) (num_blocks f * 64) 0 0 =
      card {p. p < num_blocks f * 64 \<and> bytes_bit (blocks_bytes (blocks f)) p}"
    using count_batches_eq [OF assms(1), of "num_blocks f * 64" "blocks_bytes (blocks f)" 0 0] by simp
  then show ?thesis unfolding bits_set_bytes [OF n] .
qed

lemma NumBitsSet_eq:
  assumes "arrow_count_ok A" and "bf_wf f"
  shows "NumBitsSet A f = card (bits_set (blocks f) (num_blocks f * 64))"
proof -
  have n: "num_blocks f * 64 \<le> 64 * length (blocks f)"
    using bf_wfD(3) [OF assms(2)] by simp
  then have "NumBitsSet A f =
      card {p. p < num_blocks f * 64 \<and> bytes_bit (blocks_bytes (blocks f)) p}"
    using assms(1) bf_wfD(1) [OF assms(2)] by (simp add: NumBitsSet_def arrow_count_ok_def)
  then show ?thesis unfolding bits_set_bytes [OF n] .
qed

text \<open>Folding never sets more bits than there were.\<close>

lemma bits_set_SingleFold:
  assumes "bf_wf f" and "k \<le> log_num_blocks f"
  shows "card (bits_set (blocks (SingleFold k f)) (num_blocks (SingleFold k f) * 64)) \<le>
    card (bits_set (blocks f) (num_blocks f * 64))"
proof -
  let ?n = "num_blocks (SingleFold k f)"
  have n: "2 ^ k * ?n = num_blocks f" by (rule slice_size [OF assms])
  have "bits_set (blocks (SingleFold k f)) (?n * 64) \<subseteq>
      (\<lambda>p. p mod (?n * 64)) ` bits_set (blocks f) (num_blocks f * 64)"
  proof
    fix p assume "p \<in> bits_set (blocks (SingleFold k f)) (?n * 64)"
    then have p: "p < ?n * 64" "bit (blocks (SingleFold k f) ! (p div 64)) (p mod 64)"
      by (simp_all add: bits_set_def)
    then have "p div 64 < ?n" by auto
    with p(2) obtain sl where sl: "sl < 2 ^ k" "bit (blocks f ! (sl * ?n + p div 64)) (p mod 64)"
      using SingleFold_blocks(2) [OF assms] by blast
    let ?q = "64 * (sl * ?n) + p"
    have "?q < num_blocks f * 64"
    proof -
      have "?q < Suc sl * ?n * 64" using p(1) by simp
      also have "\<dots> \<le> num_blocks f * 64"
        using sl(1) unfolding n [symmetric] by (intro mult_le_mono) simp_all
      finally show ?thesis .
    qed
    moreover have "?q div 64 = sl * ?n + p div 64" and "?q mod 64 = p mod 64" by simp_all
    ultimately have "?q \<in> bits_set (blocks f) (num_blocks f * 64)"
      using sl(2) by (simp add: bits_set_def)
    moreover have "p = ?q mod (?n * 64)"
    proof -
      have "?q = p + sl * (?n * 64)" by simp
      then have "?q mod (?n * 64) = p mod (?n * 64)" by (simp only: mod_mult_self1)
      then show ?thesis using p(1) by simp
    qed
    ultimately show "p \<in> (\<lambda>p. p mod (?n * 64)) ` bits_set (blocks f) (num_blocks f * 64)" by blast
  qed
  then show ?thesis
    by (rule surj_card_le [rotated]) (simp add: bits_set_def)
qed


text \<open>
  One round of the folding loop, for a filter that is still too sparse: the
  number of folds is positive, leaves the minimal size, and keeps the density
  below one half.
\<close>

lemma Fold_round:
  fixes f :: BlockedBloomFilter
  defines "num_bits \<equiv> num_blocks f * 64"
  assumes "arrow_count_ok A" and "bf_wf f" and "log_num_blocks_min < log_num_blocks f"
    and "4 * count_batches A (blocks_bytes (blocks f)) num_bits 0 0 < num_bits"
  defines "k \<equiv> choose_num_folds (log_num_blocks f) num_bits
      (count_batches A (blocks_bytes (blocks f)) num_bits 0 0) 1"
  defines "g \<equiv> SingleFold k f"
  shows "1 \<le> k" and "k \<le> log_num_blocks f" and "log_num_blocks_min \<le> log_num_blocks g"
    and "2 * card (bits_set (blocks g) (num_blocks g * 64)) < num_blocks g * 64"
proof -
  let ?s = "count_batches A (blocks_bytes (blocks f)) num_bits 0 0"
  show k1: "1 \<le> k" unfolding k_def by (rule choose_num_folds_ge)
  have "k \<le> log_num_blocks f - log_num_blocks_min" and dens: "4 * ?s < num_bits div 2 ^ (k - 1)"
    using choose_num_folds_spec [of 1 "log_num_blocks f" ?s num_bits] assms(4,5)
    unfolding k_def by simp_all
  then show kl: "k \<le> log_num_blocks f" and "log_num_blocks_min \<le> log_num_blocks g"
    using assms(4) by (auto simp: g_def SingleFold_simps)
  have "2 ^ k * num_blocks g = num_blocks f" unfolding g_def by (rule slice_size [OF assms(3) kl])
  then have "num_bits = 2 ^ (k - 1) * (2 * (num_blocks g * 64))"
    using k1 by (cases k) (simp_all add: num_bits_def mult_ac)
  then have "2 * ?s < num_blocks g * 64" using dens by simp
  moreover have "card (bits_set (blocks g) (num_blocks g * 64)) \<le> ?s"
    using bits_set_SingleFold [OF assms(3) kl] count_batches_blocks [OF assms(2,3)]
    by (simp add: g_def num_bits_def)
  ultimately show "2 * card (bits_set (blocks g) (num_blocks g * 64)) < num_blocks g * 64" by simp
qed

lemma Fold_induct [consumes 2, case_names stop fold]:
  assumes "arrow_count_ok A" and "bf_wf f"
    and stop: "\<And>f. \<lbrakk>bf_wf f; log_num_blocks f \<le> log_num_blocks_min \<or>
        num_blocks f * 64 \<le> 4 * card (bits_set (blocks f) (num_blocks f * 64))\<rbrakk> \<Longrightarrow> P f f"
    and step: "\<And>f k. \<lbrakk>bf_wf f; 1 \<le> k; k \<le> log_num_blocks f;
        log_num_blocks_min \<le> log_num_blocks (SingleFold k f);
        2 * card (bits_set (blocks (SingleFold k f)) (num_blocks (SingleFold k f) * 64)) <
          num_blocks (SingleFold k f) * 64;
        P (SingleFold k f) (Fold A (SingleFold k f))\<rbrakk> \<Longrightarrow> P f (Fold A (SingleFold k f))"
  shows "P f (Fold A f)"
  using assms(2)
proof (induction "log_num_blocks f" arbitrary: f rule: less_induct)
  case (less f)
  let ?n = "num_blocks f * 64"
  let ?s = "count_batches A (blocks_bytes (blocks f)) ?n 0 0"
  show ?case
  proof (cases "log_num_blocks f \<le> log_num_blocks_min \<or> ?n \<le> 4 * ?s")
    case True
    then have "Fold A f = f" by (subst Fold.simps) (auto simp: Let_def)
    then show ?thesis
      using stop [OF less.prems] True count_batches_blocks [OF assms(1) less.prems] by simp
  next
    case False
    let ?k = "choose_num_folds (log_num_blocks f) ?n ?s 1"
    have "log_num_blocks_min < log_num_blocks f" and "4 * ?s < ?n" using False by simp_all
    note r = Fold_round [OF assms(1) less.prems this]
    have "log_num_blocks (SingleFold ?k f) < log_num_blocks f"
      using r(1) \<open>log_num_blocks_min < log_num_blocks f\<close>
      by (simp add: SingleFold_simps log_num_blocks_min_def)
    then have "P (SingleFold ?k f) (Fold A (SingleFold ?k f))"
      by (rule less.hyps) (rule bf_wf_SingleFold [OF less.prems r(2)])
    then have "P f (Fold A (SingleFold ?k f))" by (rule step [OF less.prems r])
    moreover have "Fold A f = Fold A (SingleFold ?k f)"
      using False by (subst Fold.simps) (simp add: Let_def)
    ultimately show ?thesis by simp
  qed
qed

lemma bf_wf_Fold:
  assumes "arrow_count_ok A" and "bf_wf f"
  shows "bf_wf (Fold A f)"
  using assms by (induction rule: Fold_induct) (simp_all add: bf_wf_SingleFold)

lemma Find1_Fold:
  assumes "arrow_count_ok A" and "bf_wf f"
  shows "Find1 A' masks f h \<longrightarrow> Find1 A' masks (Fold A f) h"
  using assms by (induction rule: Fold_induct) (auto simp: Find1_SingleFold)

lemma Fold_bits:
  assumes "arrow_count_ok A" and "bf_wf f"
  shows "(log_num_blocks (Fold A f) \<le> log_num_blocks_min \<or>
       num_blocks (Fold A f) * 64 \<le> 4 * card (bits_set (blocks (Fold A f)) (num_blocks (Fold A f) * 64))) \<and>
     (Fold A f = f \<or> log_num_blocks_min \<le> log_num_blocks (Fold A f) \<and>
       2 * card (bits_set (blocks (Fold A f)) (num_blocks (Fold A f) * 64)) < num_blocks (Fold A f) * 64)"
  using assms by (induction rule: Fold_induct) auto

section \<open>Claims\<close>

text \<open>
  C16. \<open>CreateEmpty\<close> for fewer than \<open>2 ^ 60\<close> rows: when the allocation succeeds the
  filter is well formed, all its blocks are zero, it has at least eight blocks and
  at least \<open>kMinNumBitsPerKey\<close> bits per expected row, and nothing but the size and
  the blocks has changed; when it fails the error status is returned and no array
  is installed.
\<close>

theorem CreateEmpty_correct:
  assumes "arrow_log2_ok A" and "arrow_alloc_ok A" and "n < 2 ^ 60"
  shows "case CreateEmpty A n f of
      (Status_OK, f') \<Rightarrow> bf_wf f' \<and> blocks f' = replicate (num_blocks f') 0 \<and> \<not> isEmpty f' \<and>
        8 \<le> num_blocks f' \<and> n * 8 \<le> num_blocks f' * 64 \<and>
        f' = f\<lparr>log_num_blocks := log_num_blocks f', num_blocks := num_blocks f', blocks := blocks f'\<rparr>
    | (Status_OutOfMemory, f') \<Rightarrow> blocks f' = blocks f \<and> (\<exists>m. AllocateBuffer A m = None)"
proof (cases "CreateEmpty A n f")
  case (Pair st f')
  show ?thesis
  proof (cases st)
    case Status_OK
    note ok = CreateEmpty_OK [OF assms Pair [unfolded Status_OK]]
    have "2 ^ 3 \<le> (2::nat) ^ log_num_blocks f'" using ok(3) by (intro power_increasing) simp_all
    then have "8 \<le> num_blocks f'" using bf_wfD(1) [OF ok(1)] by simp
    then show ?thesis
      using ok CreateEmpty_not_isEmpty [OF assms Pair [unfolded Status_OK]]
      by (simp add: Pair Status_OK mult.commute)
  next
    case Status_OutOfMemory
    then show ?thesis
      using Pair by (auto simp: CreateEmpty_def Let_def split: option.splits)
  qed
qed

theorem CreateEmpty_correct_witness:
  "arrow_log2_ok arrow_ref \<and> arrow_alloc_ok arrow_ref \<and> (1000::nat) < 2 ^ 60 \<and>
   (case CreateEmpty arrow_ref 1000 BlockedBloomFilter_new of
      (Status_OK, f') \<Rightarrow> bf_wf f' \<and> 8 \<le> num_blocks f'
    | (Status_OutOfMemory, f') \<Rightarrow> blocks f' = [])"
  using CreateEmpty_correct [of arrow_ref 1000 BlockedBloomFilter_new]
  by (auto simp: BlockedBloomFilter_new_def split: arrow_status.splits prod.splits)


definition sparse_filter :: BlockedBloomFilter where
  "sparse_filter = BlockedBloomFilter_new\<lparr>log_num_blocks := 5, num_blocks := 32,
     blocks := 1 # replicate 31 0\<rparr>"


end
