(* ===== verification/Bloom_Avx2.thy ===== *)
theory Bloom_Avx2
  imports Bloom_Filter
begin

text \<open>
  The AVX2 kernels of the Bloom filter (bloom_filter_avx2.cpp). A 256 bit
  register is the list of its 64 bit lanes, and each intrinsic the sources use
  is the lane operation of the processor manual. The theory shows that the
  kernels compute what the scalar code computes, lane by lane.
\<close>

unbundle bit_operations_syntax

section \<open>Intrinsics\<close>

type_synonym m256i = "u64 list"

definition mm256_loadu_si256 :: "u64 list \<Rightarrow> nat \<Rightarrow> m256i" where
  "mm256_loadu_si256 mem i = take 4 (drop (4 * i) mem)"

definition mm256_set1_epi64x :: "u64 \<Rightarrow> m256i" where
  "mm256_set1_epi64x x = replicate 4 x"

definition mm256_and_si256 :: "m256i \<Rightarrow> m256i \<Rightarrow> m256i" where
  "mm256_and_si256 a b = map2 (AND) a b"

definition mm256_or_si256 :: "m256i \<Rightarrow> m256i \<Rightarrow> m256i" where
  "mm256_or_si256 a b = map2 (OR) a b"

definition mm256_sub_epi64 :: "m256i \<Rightarrow> m256i \<Rightarrow> m256i" where
  "mm256_sub_epi64 a b = map2 (-) a b"

definition mm256_srli_epi64 :: "m256i \<Rightarrow> nat \<Rightarrow> m256i" where
  "mm256_srli_epi64 a n = map (\<lambda>x. if n < 64 then drop_bit n x else 0) a"

definition mm256_srlv_epi64 :: "m256i \<Rightarrow> m256i \<Rightarrow> m256i" where
  "mm256_srlv_epi64 a c = map2 (\<lambda>x n. if unat n < 64 then drop_bit (unat n) x else 0) a c"

definition mm256_sllv_epi64 :: "m256i \<Rightarrow> m256i \<Rightarrow> m256i" where
  "mm256_sllv_epi64 a c = map2 (\<lambda>x n. if unat n < 64 then push_bit (unat n) x else 0) a c"

definition mm256_cmpeq_epi64 :: "m256i \<Rightarrow> m256i \<Rightarrow> m256i" where
  "mm256_cmpeq_epi64 a b = map2 (\<lambda>x y. if x = y then - 1 else 0) a b"

definition mm256_i64gather_epi64 :: "u8 list \<Rightarrow> m256i \<Rightarrow> nat \<Rightarrow> m256i" where
  "mm256_i64gather_epi64 mem idx scale = map (\<lambda>i. SafeLoadAs_uint64 mem (unat i * scale)) idx"

text \<open>The sign bits of the 32 bytes.\<close>

definition mm256_movemask_epi8 :: "m256i \<Rightarrow> u32" where
  "mm256_movemask_epi8 a =
     horner_sum of_bool 2 (map (\<lambda>k. bit (a ! (k div 8)) (8 * (k mod 8) + 7)) [0..<32])"

definition mm256_cvtepu32_epi64 :: "u32 list \<Rightarrow> m256i" where
  "mm256_cvtepu32_epi64 a = map ucast a"

section \<open>The kernels\<close>

definition mask_avx2 :: "u8 list \<Rightarrow> m256i \<Rightarrow> m256i" where
  "mask_avx2 masks hash =
     (let mask_id = mm256_and_si256 hash (mm256_set1_epi64x (of_nat kNumMasks - 1));
          mask_byte_index = mm256_srli_epi64 mask_id 3;
          result = mm256_i64gather_epi64 masks mask_byte_index 1;
          mask_bit_in_byte_index = mm256_and_si256 mask_id (mm256_set1_epi64x 7);
          result = mm256_srlv_epi64 result mask_bit_in_byte_index;
          result = mm256_and_si256 result (mm256_set1_epi64x kFullMask);
          rotation = mm256_and_si256 (mm256_srli_epi64 hash kLogNumMasks) (mm256_set1_epi64x 63)
      in mm256_or_si256 (mm256_sllv_epi64 result rotation)
           (mm256_srlv_epi64 result (mm256_sub_epi64 (mm256_set1_epi64x 64) rotation)))"

definition block_id_avx2 :: "BlockedBloomFilter \<Rightarrow> m256i \<Rightarrow> m256i" where
  "block_id_avx2 f hash =
     mm256_and_si256 (mm256_srli_epi64 hash (kLogNumMasks + 6))
       (mm256_set1_epi64x (of_nat (num_blocks f) - 1))"

text \<open>One iteration of the lookup kernel: eight hashes, one byte of results.\<close>

definition find8_avx2 :: "u8 list \<Rightarrow> BlockedBloomFilter \<Rightarrow> u64 list \<Rightarrow> nat \<Rightarrow> u8" where
  "find8_avx2 masks f hashes i =
     (let blocks = blocks_bytes (blocks f);
          hash_A = mm256_loadu_si256 hashes (2 * i + 0);
          hash_B = mm256_loadu_si256 hashes (2 * i + 1);
          mask_A = mask_avx2 masks hash_A;
          mask_B = mask_avx2 masks hash_B;
          block_id_A = block_id_avx2 f hash_A;
          block_id_B = block_id_avx2 f hash_B;
          block_A = mm256_i64gather_epi64 blocks block_id_A 8;
          block_B = mm256_i64gather_epi64 blocks block_id_B 8;
          result_bytes = ucast (mm256_movemask_epi8
            (mm256_cmpeq_epi64 (mm256_and_si256 block_A mask_A) mask_A)) :: u64;
          result_bytes = result_bytes OR push_bit 32 (scast (mm256_movemask_epi8
            (mm256_cmpeq_epi64 (mm256_and_si256 block_B mask_B) mask_B)))
      in ucast (mm256_movemask_epi8 (mm256_set1_epi64x result_bytes)))"

definition FindImp_avx2 :: "u8 list \<Rightarrow> BlockedBloomFilter \<Rightarrow> nat \<Rightarrow> u64 list \<Rightarrow> u8 list \<Rightarrow>
    (nat \<times> u8 list) option" where
  "FindImp_avx2 masks f num_rows hashes result_bit_vector =
     map_option (\<lambda>bv. (num_rows - num_rows mod 8, bv))
       (for_opt (\<lambda>i bv. buf_set bv i (find8_avx2 masks f hashes i)) [0..<num_rows div 8]
         result_bit_vector)"

definition Find_avx2 :: "u8 list \<Rightarrow> BlockedBloomFilter \<Rightarrow> nat \<Rightarrow> u64 list \<Rightarrow> u8 list \<Rightarrow>
    (nat \<times> u8 list) option" where
  "Find_avx2 masks f num_rows hashes result_bit_vector =
     FindImp_avx2 masks f num_rows hashes result_bit_vector"

text \<open>
  The insertion kernel is a template over the width of the hashes; \<open>load i\<close> is the
  register loaded in iteration \<open>i\<close>.
\<close>

definition insert4_avx2 :: "u8 list \<Rightarrow> m256i \<Rightarrow> BlockedBloomFilter \<Rightarrow> BlockedBloomFilter" where
  "insert4_avx2 masks hash f =
     (let mask = mask_avx2 masks hash; block_id = block_id_avx2 f hash
      in fold (\<lambda>k f. let b = unat (block_id ! k) in f\<lparr>blocks := (blocks f)[b := blocks f ! b OR mask ! k]\<rparr>)
           [0, 1, 2, 3] f)"

definition InsertImp_avx2 :: "u8 list \<Rightarrow> nat \<Rightarrow> (nat \<Rightarrow> m256i) \<Rightarrow> BlockedBloomFilter \<Rightarrow>
    nat \<times> BlockedBloomFilter" where
  "InsertImp_avx2 masks num_rows load f =
     (num_rows - num_rows mod 4, fold (\<lambda>i. insert4_avx2 masks (load i)) [0..<num_rows div 4] f)"

definition Insert_avx2 :: "u8 list \<Rightarrow> nat \<Rightarrow> u64 list \<Rightarrow> BlockedBloomFilter \<Rightarrow> nat \<times> BlockedBloomFilter" where
  "Insert_avx2 masks num_rows hashes f =
     InsertImp_avx2 masks num_rows (mm256_loadu_si256 hashes) f"

definition Insert_avx2_32 :: "u8 list \<Rightarrow> nat \<Rightarrow> u32 list \<Rightarrow> BlockedBloomFilter \<Rightarrow> nat \<times> BlockedBloomFilter" where
  "Insert_avx2_32 masks num_rows hashes f =
     InsertImp_avx2 masks num_rows (\<lambda>i. mm256_cvtepu32_epi64 (take 4 (drop (4 * i) hashes))) f"

section \<open>Lane by lane equality with the scalar code\<close>

lemma set1_lanes: "mm256_set1_epi64x x = [x, x, x, x]"
  by (simp add: mm256_set1_epi64x_def numeral_eq_Suc)

lemmas mm256_lanes = set1_lanes mm256_and_si256_def mm256_or_si256_def mm256_sub_epi64_def
  mm256_srli_epi64_def mm256_srlv_epi64_def mm256_sllv_epi64_def mm256_cmpeq_epi64_def
  mm256_i64gather_epi64_def zip_Cons_Cons zip_Nil list.map prod.case

lemma four_lanes: "length a = 4 \<Longrightarrow> \<exists>p q r s. a = [p, q, r, s]"
  by (auto simp: length_Suc_conv numeral_eq_Suc)

lemma rotl_shifts:
  fixes w :: u64
  assumes "r < 64"
  shows "push_bit r w OR (if 64 - r < 64 then drop_bit (64 - r) w else 0) = word_rotl r w"
proof (rule bit_word_eqI)
  fix n assume "n < LENGTH(64)"
  moreover have "(n + 64 - r) mod 64 = (if r \<le> n then n - r else 64 + n - r)" if "n < 64"
    using that assms by (auto simp: mod_if)
  ultimately show "bit (push_bit r w OR (if 64 - r < 64 then drop_bit (64 - r) w else 0)) n =
      bit (word_rotl r w) n"
    using assms by (auto simp: bit_simps bit_word_rotl_iff dest: bit_imp_le_length)
qed

lemma unat_and_7: "unat (w AND 7) = unat w mod 8" for w :: u64
  using unat_and_exp_minus_1 [of w 3] by simp

lemma unat_drop_bit_3: "unat (drop_bit 3 w) = unat w div 8" for w :: u64
  unfolding unat_drop_bit_eq by (simp add: drop_bit_eq_div)

lemma unat_sub_rotation: "unat (64 - (w AND 63)) = 64 - unat (w AND 63)" for w :: u64
  using rotation_less [of w] by (subst unat_sub) (auto simp: word_le_nat_alt)

lemma bloom_mask_lane:
  assumes "arrow_rotl_ok A"
  shows "(let mask_id = h AND (of_nat kNumMasks - 1);
       m = drop_bit (unat (mask_id AND 7)) (SafeLoadAs_uint64 masks (unat (drop_bit 3 mask_id))) AND kFullMask;
       r = drop_bit kLogNumMasks h AND 63
     in (if unat r < 64 then push_bit (unat r) m else 0) OR
        (if unat (64 - r) < 64 then drop_bit (unat (64 - r)) m else 0)) = bloom_mask A masks h"
proof -
  let ?r = "drop_bit kLogNumMasks h AND 63"
  have "unat ?r < 64" by (rule rotation_less)
  then have "(if unat ?r < 64 then push_bit (unat ?r) m else 0) OR
      (if unat (64 - ?r) < 64 then drop_bit (unat (64 - ?r)) m else 0) = ROTL64 A m (unat ?r)" for m
    using assms rotl_shifts [of "unat ?r" m] by (simp only: arrow_rotl_ok_def if_True unat_sub_rotation)
  then show ?thesis
    by (simp only: bloom_mask_def BloomFilterMasks_mask_def Let_def unat_and_7 unat_drop_bit_3)
qed

lemma shift_bounds: "((3::nat) < 64) = True" "(kLogNumMasks < 64) = True" "(kLogNumMasks + 6 < 64) = True"
  "(unat (w AND 7) < 64) = True" for w :: u64
  by (simp_all add: kLogNumMasks_def unat_and_7 less_le_trans [of _ 8])

lemma mask_avx2_eq:
  assumes "arrow_rotl_ok A" and "length hash = 4"
  shows "mask_avx2 masks hash = map (bloom_mask A masks) hash"
proof -
  obtain a b c d where hash: "hash = [a, b, c, d]" using four_lanes [OF assms(2)] by auto
  show ?thesis
    by (simp only: hash mask_avx2_def mm256_lanes Let_def mult_1_right if_True shift_bounds
        bloom_mask_lane [OF assms(1), unfolded Let_def])
qed

lemma block_id_avx2_eq:
  assumes "length hash = 4"
  shows "map unat (block_id_avx2 f hash) = map (block_id f) hash"
proof -
  obtain a b c d where hash: "hash = [a, b, c, d]" using four_lanes [OF assms] by auto
  show ?thesis
    by (simp only: hash block_id_avx2_def mm256_lanes if_True shift_bounds block_id_def)
qed

lemma bit_movemask:
  "bit (mm256_movemask_epi8 a) k \<longleftrightarrow> k < 32 \<and> bit (a ! (k div 8)) (8 * (k mod 8) + 7)"
  by (auto simp: mm256_movemask_epi8_def bit_horner_sum_bit_word_iff)

lemma load_block:
  assumes "i < length ws"
  shows "SafeLoadAs_uint64 (blocks_bytes ws) (i * 8) = ws ! i"
proof (rule bit_word_eqI)
  fix n assume "n < LENGTH(64)"
  then show "bit (SafeLoadAs_uint64 (blocks_bytes ws) (i * 8)) n = bit (ws ! i) n"
    using assms bytes_bit_blocks_bytes [of "64 * i + n" ws]
    by (simp add: bit_SafeLoadAs_uint64)
qed

lemma length_loadu: "4 * i + 4 \<le> length hashes \<Longrightarrow> length (mm256_loadu_si256 hashes i) = 4"
  by (simp add: mm256_loadu_si256_def)

lemma nth_loadu: "\<lbrakk>4 * i + 4 \<le> length hashes; k < 4\<rbrakk> \<Longrightarrow> mm256_loadu_si256 hashes i ! k = hashes ! (4 * i + k)"
  by (simp add: mm256_loadu_si256_def)

text \<open>The lane comparison of the lookup kernel is \<open>Find\<close>.\<close>

lemma lookup_lane:
  assumes "arrow_rotl_ok A" and "bf_wf f" and "length hash = 4" and "k < 4"
  shows "mm256_cmpeq_epi64
       (mm256_and_si256 (mm256_i64gather_epi64 (blocks_bytes (blocks f)) (block_id_avx2 f hash) 8)
          (mask_avx2 masks hash)) (mask_avx2 masks hash) ! k =
     (if Find1 A masks f (hash ! k) then - 1 else 0)"
proof -
  have ids: "length (block_id_avx2 f hash) = 4" "unat (block_id_avx2 f hash ! k) = block_id f (hash ! k)"
    using arg_cong [OF block_id_avx2_eq [OF assms(3), of f], of length]
      arg_cong [OF block_id_avx2_eq [OF assms(3), of f], of "\<lambda>xs. xs ! k"] assms(3,4) by simp_all
  have "block_id f (hash ! k) < length (blocks f)"
    using block_id_less [OF assms(2)] bf_wfD(3) [OF assms(2)] by (rule less_le_trans)
  then have "SafeLoadAs_uint64 (blocks_bytes (blocks f)) (unat (block_id_avx2 f hash ! k) * 8) =
      blocks f ! block_id f (hash ! k)"
    unfolding ids by (rule load_block)
  then show ?thesis
    using assms(3,4) ids(1)
    by (simp add: mask_avx2_eq [OF assms(1,3)] mm256_cmpeq_epi64_def mm256_and_si256_def
        mm256_i64gather_epi64_def Find1_def Let_def)
qed

lemma bit_find8_avx2:
  assumes "arrow_rotl_ok A" and "bf_wf f" and "8 * i + 8 \<le> length hashes" and "j < 8"
  shows "bit (find8_avx2 masks f hashes i) j \<longleftrightarrow> Find1 A masks f (hashes ! (8 * i + j))"
proof -
  have loads: "4 * (2 * i + 0) + 4 \<le> length hashes" "4 * (2 * i + 1) + 4 \<le> length hashes"
    using assms(3) by simp_all
  note lane = lookup_lane [OF assms(1,2) length_loadu [OF loads(1)]] lookup_lane [OF assms(1,2) length_loadu [OF loads(2)]]
  have "(8 * j + 7) div 8 = j" "(8 * j + 7) mod 8 = 7" by simp_all
  show ?thesis
  proof (cases "j < 4")
    case True
    then show ?thesis
      using lane(1) [OF True, of masks] nth_loadu [OF loads(1) True]
      by (simp add: find8_avx2_def Let_def bit_movemask bit_simps mm256_set1_epi64x_def)
  next
    case False
    define k where "k = j - 4"
    have k: "j = k + 4" "k < 4" using False assms(4) by (simp_all add: k_def)
    have "8 * j - 25 = 8 * k + 7" using k(1) by simp
    then show ?thesis
      using lane(2) [OF k(2), of masks] nth_loadu [OF loads(2) k(2)] k
      by (simp add: find8_avx2_def Let_def bit_movemask bit_simps mm256_set1_epi64x_def add_ac)
  qed
qed

text \<open>
  The lookup kernel: bit \<open>p\<close> of the result is the lookup of hash \<open>p\<close>, for the rows
  of full groups of eight; the rest of the bit vector is left alone.
\<close>

lemma FindImp_avx2_spec:
  assumes "arrow_rotl_ok A" and "bf_wf f" and "num_rows \<le> length hashes" and "num_rows div 8 \<le> length bv"
  shows "\<exists>bv'. Find_avx2 masks f num_rows hashes bv = Some (num_rows - num_rows mod 8, bv') \<and>
     length bv' = length bv \<and>
     (\<forall>p < 8 * length bv. bytes_bit bv' p \<longleftrightarrow>
        (if p < num_rows - num_rows mod 8 then Find1 A masks f (hashes ! p) else bytes_bit bv p))"
proof -
  let ?m = "num_rows div 8" and ?bytes = "map (find8_avx2 masks f hashes) [0..<num_rows div 8]"
  have np: "num_rows - num_rows mod 8 = 8 * ?m" by (simp add: minus_mod_eq_mult_div)
  have "bytes_bit (?bytes @ drop ?m bv) p \<longleftrightarrow>
      (if p < 8 * ?m then Find1 A masks f (hashes ! p) else bytes_bit bv p)" if "p < 8 * length bv" for p
  proof (cases "p < 8 * ?m")
    case True
    then have "p div 8 < ?m" by auto
    moreover from this have "8 * (p div 8) + 8 \<le> length hashes" using assms(3) by simp
    ultimately show ?thesis
      using True bit_find8_avx2 [OF assms(1,2), of "p div 8" hashes "p mod 8" masks]
      by (simp add: bytes_bit_def nth_append)
  next
    case False
    then have "\<not> p div 8 < ?m" by auto
    then show ?thesis using False assms(4) by (simp add: bytes_bit_def nth_append)
  qed
  then show ?thesis
    using assms(4) by (simp add: Find_avx2_def FindImp_avx2_def for_opt_buf_set np)
qed

section \<open>Insertion kernel\<close>

lemma insert4_avx2_eq:
  assumes "arrow_rotl_ok A" and "length hash = 4"
  shows "insert4_avx2 masks hash f = fold (Insert1 A masks) hash f"
proof -
  obtain a b c d where hash: "hash = [a, b, c, d]" using four_lanes [OF assms(2)] by auto
  have "map unat (block_id_avx2 f hash) = map (block_id f) hash" by (rule block_id_avx2_eq [OF assms(2)])
  then have "unat (block_id_avx2 f hash ! k) = block_id f (hash ! k)" if "k < 4" for k
    using that assms(2) by (metis length_map nth_map)
  from this [of 0] this [of 1] this [of 2] this [of 3]
  have "unat (block_id_avx2 f hash ! 0) = block_id f a" "unat (block_id_avx2 f hash ! 1) = block_id f b"
    "unat (block_id_avx2 f hash ! 2) = block_id f c" "unat (block_id_avx2 f hash ! 3) = block_id f d"
    by (simp_all add: hash)
  then show ?thesis
    by (simp add: insert4_avx2_def mask_avx2_eq [OF assms] Let_def) (simp add: hash Insert1_def Let_def block_id_def)
qed

lemma InsertImp_avx2_eq:
  assumes "arrow_rotl_ok A" and "\<And>i. i < num_rows div 4 \<Longrightarrow> load i = take 4 (drop (4 * i) hs)"
    and "num_rows \<le> length hs"
  shows "InsertImp_avx2 masks num_rows load f =
    (num_rows - num_rows mod 4, fold (Insert1 A masks) (take (num_rows - num_rows mod 4) hs) f)"
proof -
  have "fold (\<lambda>i. insert4_avx2 masks (load i)) [0..<num_rows div 4] f =
      fold (\<lambda>i. fold (Insert1 A masks) (take 4 (drop (4 * i) hs))) [0..<num_rows div 4] f"
  proof (rule fold_cong)
    fix i assume i: "i \<in> set [0..<num_rows div 4]"
    then have "4 * i + 4 \<le> length hs" using assms(3) by auto
    then show "insert4_avx2 masks (load i) = fold (Insert1 A masks) (take 4 (drop (4 * i) hs))"
      using i assms(2) [of i] by (simp add: insert4_avx2_eq [OF assms(1)] fun_eq_iff)
  qed simp_all
  then show ?thesis
    by (simp add: InsertImp_avx2_def fold_chunks minus_mod_eq_mult_div)
qed

lemma Insert_avx2_eq:
  assumes "arrow_rotl_ok A" and "num_rows \<le> length hashes"
  shows "Insert_avx2 masks num_rows hashes f =
    (num_rows - num_rows mod 4, fold (Insert1 A masks) (take (num_rows - num_rows mod 4) hashes) f)"
  unfolding Insert_avx2_def
  by (rule InsertImp_avx2_eq [OF assms(1) _ assms(2)]) (simp add: mm256_loadu_si256_def)

text \<open>The 32 bit instance widens the hashes with zeros.\<close>

lemma Insert_avx2_32_eq:
  assumes "arrow_rotl_ok A" and "num_rows \<le> length hashes"
  shows "Insert_avx2_32 masks num_rows hashes f =
    (num_rows - num_rows mod 4,
     fold (Insert1 A masks) (take (num_rows - num_rows mod 4) (map ucast hashes)) f)"
  unfolding Insert_avx2_32_def
  by (rule InsertImp_avx2_eq [OF assms(1)])
     (simp_all add: mm256_cvtepu32_epi64_def take_map drop_map assms(2))

section \<open>Claims\<close>

text \<open>
  C12. The vector kernels compute what the scalar code computes: the lookup kernel
  returns the number of rows in full groups of eight, writes inside its bit vector,
  and sets bit \<open>p\<close> exactly when the scalar lookup finds hash \<open>p\<close>; the insertion
  kernels have the effect of the scalar insertion on the full groups of four, the 32
  bit one on the zero extended hashes.
\<close>

theorem avx2_kernels_equal_scalar:
  assumes "arrow_rotl_ok A" and "bf_wf f" and "num_rows \<le> length hashes" and "num_rows div 8 \<le> length bv"
    and "num_rows \<le> length hashes32"
  shows "(\<exists>bv'. Find_avx2 masks f num_rows hashes bv = Some (num_rows - num_rows mod 8, bv') \<and>
       length bv' = length bv \<and>
       (\<forall>p < 8 * length bv. bytes_bit bv' p \<longleftrightarrow>
          (if p < num_rows - num_rows mod 8 then Find1 A masks f (hashes ! p) else bytes_bit bv p))) \<and>
    Insert_avx2 masks num_rows hashes f =
      (num_rows - num_rows mod 4, fold (Insert1 A masks) (take (num_rows - num_rows mod 4) hashes) f) \<and>
    Insert_avx2_32 masks num_rows hashes32 f =
      (num_rows - num_rows mod 4,
       fold (Insert1 A masks) (take (num_rows - num_rows mod 4) (map ucast hashes32)) f)"
  using FindImp_avx2_spec [OF assms(1-4)] Insert_avx2_eq [OF assms(1,3)] Insert_avx2_32_eq [OF assms(1,5)]
  by blast

definition four_blocks :: BlockedBloomFilter where
  "four_blocks = BlockedBloomFilter_new\<lparr>log_num_blocks := 2, num_blocks := 4, blocks := replicate 4 0\<rparr>"

theorem avx2_kernels_equal_scalar_witness:
  "arrow_rotl_ok arrow_ref \<and> bf_wf four_blocks \<and>
   fst (Insert_avx2 (replicate 136 85) 6 [1, 2, 3, 4, 5, 6] four_blocks) = 4 \<and>
   snd (Insert_avx2 (replicate 136 85) 6 [1, 2, 3, 4, 5, 6] four_blocks) =
     snd (Insert_avx2_32 (replicate 136 85) 6 [1, 2, 3, 4, 5, 6] four_blocks)"
proof -
  have wf: "bf_wf four_blocks" by (simp add: four_blocks_def bf_wf_def)
  from avx2_kernels_equal_scalar [OF arrow_ref_ok(4) wf, of 6 "[1, 2, 3, 4, 5, 6]" "[]" "[1, 2, 3, 4, 5, 6]"
      "replicate 136 85"] wf
  show ?thesis by (simp add: arrow_ref_ok)
qed

end
