(* ===== verification/Bloom_Batch.thy ===== *)
theory Bloom_Batch
  imports Bloom_Avx2
begin

text \<open>
  The public batch operations of the Bloom filter, \<open>Insert\<close> and \<open>Find\<close>
  (bloom_filter.cpp): the vector kernels handle full groups of rows when the
  processor has them, the scalar loops the remaining rows, and the bit vector of
  the lookup kernel is decoded into a selection vector.
\<close>

unbundle bit_operations_syntax

section \<open>Operations\<close>

definition Insert :: "'a arrow_lib_scheme \<Rightarrow> u8 list \<Rightarrow> u64 \<Rightarrow> nat \<Rightarrow> u64 list \<Rightarrow> BlockedBloomFilter \<Rightarrow>
    BlockedBloomFilter" where
  "Insert A masks hardware_flags num_rows hashes f =
     (let (num_processed, f1) =
            (if hardware_flags AND CpuInfo_AVX2 A \<noteq> 0 then Insert_avx2 masks num_rows hashes f
             else (0, f))
      in InsertImp A masks (num_rows - num_processed) (drop num_processed hashes) f1)"

definition trailingzeroes :: "u64 \<Rightarrow> nat" where
  "trailingzeroes input_num = length (takeWhile (\<lambda>n. \<not> bit input_num n) [0..<64])"

lemma trailingzeroes_less:
  assumes "w \<noteq> 0"
  shows "trailingzeroes w < 64" and "bit w (trailingzeroes w)"
    and "n < trailingzeroes w \<Longrightarrow> \<not> bit w n"
proof -
  let ?t = "takeWhile (\<lambda>n. \<not> bit w n) [0..<64]"
  have "\<exists>n < 64. bit w n"
  proof (rule ccontr)
    assume "\<not> (\<exists>n < 64. bit w n)"
    then have "w = 0" by (intro bit_word_eqI) auto
    with assms show False by simp
  qed
  then obtain k where "bit w k" "k < 64" by blast
  then have "?t \<noteq> [0..<64]" by (metis atLeastLessThan_iff le0 set_takeWhileD set_upt)
  then have "length ?t < length [0..<64]"
    by (metis length_takeWhile_le nat_less_le takeWhile_eq_take take_all_iff)
  then show less: "trailingzeroes w < 64" by (simp add: trailingzeroes_def)
  then show "bit w (trailingzeroes w)"
    using nth_length_takeWhile [of "\<lambda>n. \<not> bit w n" "[0..<64]"] by (simp add: trailingzeroes_def)
  assume "n < trailingzeroes w"
  then have n: "n < length ?t" by (simp add: trailingzeroes_def)
  then have "?t ! n = n" using less by (simp add: trailingzeroes_def takeWhile_nth)
  moreover have "?t ! n \<in> set ?t" using n by (rule nth_mem)
  ultimately have "n \<in> set ?t" by simp
  then show "\<not> bit w n" by (metis set_takeWhileD)
qed

text \<open>\<open>bits & (bits - 1)\<close> clears the lowest set bit.\<close>

lemma clear_lowest:
  fixes w :: u64
  assumes "w \<noteq> 0"
  shows "w AND (w - 1) = unset_bit (trailingzeroes w) w"
proof -
  let ?t = "trailingzeroes w"
  let ?v = "unset_bit ?t w"
  have "?v AND push_bit ?t 1 = 0"
    by (rule bit_word_eqI) (auto simp: bit_simps)
  moreover have "?v OR push_bit ?t 1 = w"
    using trailingzeroes_less [OF assms] by (intro bit_word_eqI) (auto simp: bit_simps)
  ultimately have "w = ?v + push_bit ?t 1" by (metis disjunctive_add_eq_or)
  then have "w - 1 = ?v + mask ?t" by (simp add: mask_eq_decr_exp push_bit_eq_mult algebra_simps)
  also have "?v AND mask ?t = 0"
    using trailingzeroes_less(3) [OF assms] by (intro bit_word_eqI) (auto simp: bit_simps)
  then have "?v + mask ?t = ?v OR mask ?t" by (rule disjunctive_add_eq_or)
  finally show ?thesis
    using trailingzeroes_less [OF assms] by (intro bit_word_eqI) (auto simp: bit_simps)
qed

lemma popcount_clear_lowest:
  assumes "w \<noteq> 0"
  shows "popcount (w AND (w - 1)) < popcount w"
  unfolding popcount_def clear_lowest [OF assms]
proof (rule psubset_card_mono)
  show "{n. n < 64 \<and> bit (unset_bit (trailingzeroes w) w) n} \<subset> {n. n < 64 \<and> bit w n}"
    using trailingzeroes_less [OF assms] by (auto simp: bit_simps)
qed simp

function basic_decoder :: "u32 \<Rightarrow> u64 \<Rightarrow> nat list \<times> nat \<Rightarrow> (nat list \<times> nat) option" where
  "basic_decoder idx bits (sel, result_count) =
     (if bits \<noteq> 0
      then let idx_value = idx + of_nat (trailingzeroes bits)
           in case sel_set sel result_count (unat idx_value) of
                None \<Rightarrow> None
              | Some sel' \<Rightarrow> basic_decoder idx (bits AND (bits - 1)) (sel', Suc result_count)
      else Some (sel, result_count))"
  by pat_completeness auto
termination
  by (relation "measure (\<lambda>(idx, bits, s). popcount bits)") (auto simp: popcount_clear_lowest)

declare basic_decoder.simps [simp del]

definition Find :: "'a arrow_lib_scheme \<Rightarrow> u8 list \<Rightarrow> BlockedBloomFilter \<Rightarrow> u64 \<Rightarrow> nat \<Rightarrow> u64 list \<Rightarrow>
    nat list \<times> nat \<Rightarrow> bool \<Rightarrow> (nat list \<times> nat) option" where
  "Find A masks f hardware_flags num_rows hashes s enable_prefetch =
     (case (if \<not> (enable_prefetch \<and> UsePrefetch f) \<and> hardware_flags AND CpuInfo_AVX2 A \<noteq> 0
            then case Find_avx2 masks f num_rows hashes (replicate (num_rows div 8 + 8) 0) of
                   None \<Rightarrow> None
                 | Some (num_processed, result_bit_vector) \<Rightarrow>
                     map_option (\<lambda>s'. (num_processed - num_processed mod 8, s'))
                       (for_opt (\<lambda>i. basic_decoder (of_nat (64 * i)) (SafeLoadAs_uint64 result_bit_vector (8 * i)))
                          [0..<num_rows div 64 + 1] s)
            else Some (0, s)) of
        None \<Rightarrow> None
      | Some (num_processed, s') \<Rightarrow>
          FindImp A masks f (num_rows - num_processed) num_processed (drop num_processed hashes) s'
            enable_prefetch)"

section \<open>Insertion\<close>

text \<open>The batch insertion inserts the rows one after the other, with or without the kernel.\<close>

lemma Insert_eq_fold:
  assumes "arrow_rotl_ok A" and "num_rows \<le> length hashes"
  shows "Insert A masks hardware_flags num_rows hashes f = fold (Insert1 A masks) (take num_rows hashes) f"
proof -
  let ?p = "num_rows - num_rows mod 4"
  have "take num_rows hashes = take ?p hashes @ take (num_rows - ?p) (drop ?p hashes)"
    by (metis diff_le_self le_add_diff_inverse take_add)
  then show ?thesis
    using assms by (simp add: Insert_def Insert_avx2_eq InsertImp_eq_take)
qed

section \<open>Decoding\<close>

definition set_positions :: "u64 \<Rightarrow> nat list" where
  "set_positions w = filter (bit w) [0..<64]"

lemma set_positions_0 [simp]: "set_positions 0 = []"
  by (simp add: set_positions_def)

lemma set_positions_Cons:
  assumes "w \<noteq> 0"
  shows "set_positions w = trailingzeroes w # set_positions (w AND (w - 1))"
proof -
  let ?t = "trailingzeroes w"
  note t = trailingzeroes_less [OF assms]
  have split: "[0..<64] = [0..<?t] @ ?t # [Suc ?t..<64]"
    using t(1) upt_add_eq_append [of 0 ?t "64 - ?t"] by (simp add: upt_conv_Cons)
  have "filter (bit w) [0..<?t] = []" "filter (bit (unset_bit ?t w)) [0..<?t] = []"
    using t(3) by (auto simp: filter_empty_conv bit_simps)
  moreover have "filter (bit (unset_bit ?t w)) [Suc ?t..<64] = filter (bit w) [Suc ?t..<64]"
    by (rule filter_cong) (auto simp: bit_simps)
  ultimately show ?thesis
    unfolding set_positions_def clear_lowest [OF assms] split using t(2)
    by (simp add: bit_unset_bit_iff)
qed

lemma basic_decoder_spec:
  assumes "result_count + length (set_positions bits) \<le> length sel" and "unat idx + 64 < 2 ^ 32"
  shows "\<exists>s'. basic_decoder idx bits (sel, result_count) = Some s' \<and>
    sel_extends (sel, result_count) (map (\<lambda>n. unat idx + n) (set_positions bits)) s'"
  using assms
proof (induction idx bits "(sel, result_count)" arbitrary: sel result_count rule: basic_decoder.induct)
  case (1 idx bits sel result_count)
  show ?case
  proof (cases "bits = 0")
    case True
    then show ?thesis by (simp add: basic_decoder.simps sel_extends_Nil)
  next
    case False
    let ?idx_value = "idx + of_nat (trailingzeroes bits)"
    have t: "unat ?idx_value = unat idx + trailingzeroes bits" "unat ?idx_value < 2 ^ 32"
      using trailingzeroes_less(1) [OF False] "1.prems"(2) by (simp_all add: unat_word_ariths unat_of_nat)
    have rc: "result_count < length sel"
      using "1.prems"(1) by (simp add: set_positions_Cons [OF False])
    have "Suc result_count + length (set_positions (bits AND (bits - 1))) \<le> length (sel[result_count := unat ?idx_value])"
      using "1.prems"(1) by (simp add: set_positions_Cons [OF False])
    then have "\<exists>s'. basic_decoder idx (bits AND (bits - 1)) (sel[result_count := unat ?idx_value], Suc result_count) = Some s' \<and>
        sel_extends (sel[result_count := unat ?idx_value], Suc result_count)
          (map (\<lambda>n. unat idx + n) (set_positions (bits AND (bits - 1)))) s'"
      using "1.hyps" [OF False refl] rc t(2) "1.prems"(2) by simp
    then show ?thesis
      using False rc t sel_extends_push [OF rc, of "unat ?idx_value"]
      by (subst basic_decoder.simps) (auto simp: set_positions_Cons [OF False])
  qed
qed

text \<open>Decoding the words of a bit vector one after the other.\<close>

lemma set_positions_load:
  assumes "8 * i + 8 \<le> length bv"
  shows "map ((+) (64 * i)) (set_positions (SafeLoadAs_uint64 bv (8 * i))) =
    filter (bytes_bit bv) [64 * i..<64 * i + 64]"
proof -
  have "[64 * i..<64 * i + 64] = map ((+) (64 * i)) [0..<64]"
    by (rule nth_equalityI) simp_all
  moreover have "set_positions (SafeLoadAs_uint64 bv (8 * i)) =
      filter (\<lambda>n. bytes_bit bv (64 * i + n)) [0..<64]"
    unfolding set_positions_def using assms
    by (intro filter_cong) (auto simp: bit_SafeLoadAs_uint64)
  ultimately show ?thesis by (simp add: filter_map o_def)
qed

lemma decode_words:
  assumes "8 * m \<le> length bv" and "64 * m < 2 ^ 32"
    and "result_count + length (filter (bytes_bit bv) [0..<64 * m]) \<le> length sel"
  shows "\<exists>s'. for_opt (\<lambda>i. basic_decoder (of_nat (64 * i)) (SafeLoadAs_uint64 bv (8 * i))) [0..<m]
      (sel, result_count) = Some s' \<and>
    sel_extends (sel, result_count) (filter (bytes_bit bv) [0..<64 * m]) s'"
  using assms
proof (induction m)
  case 0
  then show ?case by (simp add: sel_extends_Nil)
next
  case (Suc m)
  let ?here = "filter (bytes_bit bv) [64 * m..<64 * m + 64]"
  have split: "filter (bytes_bit bv) [0..<64 * Suc m] = filter (bytes_bit bv) [0..<64 * m] @ ?here"
    using upt_add_eq_append [of 0 "64 * m" 64] by (simp add: add.commute)
  have pre: "result_count + length (filter (bytes_bit bv) [0..<64 * m]) \<le> length sel"
    using Suc.prems(3) unfolding split by simp
  obtain sel1 rc1 where
    s1: "for_opt (\<lambda>i. basic_decoder (of_nat (64 * i)) (SafeLoadAs_uint64 bv (8 * i))) [0..<m]
      (sel, result_count) = Some (sel1, rc1)"
    and ext1: "sel_extends (sel, result_count) (filter (bytes_bit bv) [0..<64 * m]) (sel1, rc1)"
    using Suc.IH Suc.prems(1,2) pre by auto
  have here: "map ((+) (64 * m)) (set_positions (SafeLoadAs_uint64 bv (8 * m))) = ?here"
    using Suc.prems(1) by (intro set_positions_load) simp
  have idx: "unat (of_nat (64 * m) :: u32) = 64 * m"
    using Suc.prems(2) by (subst unat_of_nat) simp
  have "rc1 + length (set_positions (SafeLoadAs_uint64 bv (8 * m))) \<le> length sel1"
    using ext1 Suc.prems(3) [unfolded split] arg_cong [OF here, of length] by (simp add: sel_extends_def)
  from basic_decoder_spec [OF this, of "of_nat (64 * m)"] Suc.prems(2)
  obtain s2 where "basic_decoder (of_nat (64 * m)) (SafeLoadAs_uint64 bv (8 * m)) (sel1, rc1) = Some s2"
    and "sel_extends (sel1, rc1) ?here s2"
    unfolding idx here [symmetric] by auto
  with s1 show ?case using sel_extends_trans [OF ext1] unfolding split by auto
qed

section \<open>Lookup\<close>

text \<open>
  The batch lookup selects the rows whose hash is found, in increasing order,
  with or without the kernel and with or without prefetching.
\<close>

lemma Find_spec:
  assumes "arrow_rotl_ok A" and "bf_wf f" and "num_rows \<le> length hashes" and "num_rows < 2 ^ 31"
    and "result_count + num_rows \<le> length sel"
  shows "\<exists>s'. Find A masks f hardware_flags num_rows hashes (sel, result_count) enable_prefetch = Some s' \<and>
    sel_extends (sel, result_count) (filter (\<lambda>i. Find1 A masks f (hashes ! i)) [0..<num_rows]) s'"
proof (cases "\<not> (enable_prefetch \<and> UsePrefetch f) \<and> hardware_flags AND CpuInfo_AVX2 A \<noteq> 0")
  case False
  then show ?thesis
    using FindImp_spec [of result_count num_rows sel 0 enable_prefetch f A masks hashes] assms(4,5)
    by (auto simp: Find_def)
next
  case True
  let ?np = "num_rows - num_rows mod 8" and ?m = "num_rows div 64 + 1"
  let ?F = "\<lambda>i. Find1 A masks f (hashes ! i)"
  obtain bv where bv: "Find_avx2 masks f num_rows hashes (replicate (num_rows div 8 + 8) 0) = Some (?np, bv)"
      "length bv = num_rows div 8 + 8"
      "\<And>p. p < 8 * (num_rows div 8 + 8) \<Longrightarrow> bytes_bit bv p \<longleftrightarrow> p < ?np \<and> ?F p"
    using FindImp_avx2_spec [OF assms(1-3), of "replicate (num_rows div 8 + 8) 0" masks]
    by (auto simp: bytes_bit_replicate split: if_splits)
  have len: "8 * ?m \<le> length bv" and "64 * ?m < 2 ^ 32" and np: "?np \<le> 64 * ?m" "?np \<le> num_rows"
    using assms(4) unfolding bv(2) by simp_all
  have sel1: "filter (bytes_bit bv) [0..<64 * ?m] = filter ?F [0..<?np]"
  proof -
    have "[0..<64 * ?m] = [0..<?np] @ [?np..<64 * ?m]"
      using upt_add_eq_append [of 0 ?np "64 * ?m - ?np"] np(1) by simp
    moreover have "filter (bytes_bit bv) [?np..<64 * ?m] = []"
      using bv(3) len by (auto simp: filter_empty_conv bv(2))
    moreover have "filter (bytes_bit bv) [0..<?np] = filter ?F [0..<?np]"
      using bv(3) np len by (intro filter_cong) (auto simp: bv(2))
    ultimately show ?thesis by simp
  qed
  have "length (filter ?F [0..<?np]) \<le> ?np" by (rule order.trans [OF length_filter_le]) simp
  then have "result_count + length (filter (bytes_bit bv) [0..<64 * ?m]) \<le> length sel"
    using assms(5) np(2) unfolding sel1 by simp
  from decode_words [OF len \<open>64 * ?m < 2 ^ 32\<close> this] obtain sel' rc' where
    dec: "for_opt (\<lambda>i. basic_decoder (of_nat (64 * i)) (SafeLoadAs_uint64 bv (8 * i))) [0..<?m]
      (sel, result_count) = Some (sel', rc')"
    and ext: "sel_extends (sel, result_count) (filter ?F [0..<?np]) (sel', rc')"
    unfolding sel1 by auto
  have "rc' + (num_rows - ?np) \<le> length sel'"
    using ext assms(5) np(2) \<open>length (filter ?F [0..<?np]) \<le> ?np\<close> by (auto simp: sel_extends_def)
  then obtain s' where rest: "FindImp A masks f (num_rows - ?np) ?np (drop ?np hashes) (sel', rc') enable_prefetch = Some s'"
    and ext': "sel_extends (sel', rc')
       (map (\<lambda>i. i + ?np) (filter (\<lambda>i. Find1 A masks f (drop ?np hashes ! i)) [0..<num_rows - ?np])) s'"
    using FindImp_spec [of rc' "num_rows - ?np" sel' ?np enable_prefetch f A masks "drop ?np hashes"]
      assms(4) np(2) True by auto
  have "map (\<lambda>i. i + ?np) (filter (\<lambda>i. Find1 A masks f (drop ?np hashes ! i)) [0..<num_rows - ?np]) =
      filter ?F (map (\<lambda>i. i + ?np) [0..<num_rows - ?np])"
    using np(2) assms(3) by (simp add: filter_map o_def add.commute)
  also have "\<dots> = filter ?F [?np..<num_rows]" using np(2) by (simp only: map_add_upt) simp
  finally have "sel_extends (sel, result_count) (filter ?F ([0..<?np] @ [?np..<num_rows])) s'"
    using sel_extends_trans [OF ext ext'] by simp
  moreover have "[0..<?np] @ [?np..<num_rows] = [0..<num_rows]"
    using upt_add_eq_append [of 0 ?np "num_rows - ?np"] np(2) by simp
  moreover have np8: "?np - ?np mod 8 = ?np" by (simp add: minus_mod_eq_mult_div)
  have "Find A masks f hardware_flags num_rows hashes (sel, result_count) enable_prefetch = Some s'"
    unfolding Find_def if_P [OF True] bv(1) by (simp only: option.case prod.case dec option.map np8 rest)
  ultimately show ?thesis by auto
qed

section \<open>Claims\<close>

text \<open>
  C13. The batch insertion, with or without the AVX2 kernel, has the effect of
  inserting the hashes of its rows one by one; the result depends only on the set
  of the hashes, and every hash of the batch, and every hash found before, is found
  afterwards.
\<close>

theorem Insert_correct:
  assumes "arrow_rotl_ok A" and "num_rows \<le> length hashes" and "bf_wf f"
  shows "Insert A masks flags num_rows hashes f = fold (Insert1 A masks) (take num_rows hashes) f \<and>
    (\<forall>hs. set hs = set (take num_rows hashes) \<longrightarrow>
       Insert A masks flags num_rows hashes f = fold (Insert1 A masks) hs f) \<and>
    bf_wf (Insert A masks flags num_rows hashes f) \<and>
    (\<forall>h \<in> set (take num_rows hashes). Find1 A masks (Insert A masks flags num_rows hashes f) h) \<and>
    (\<forall>h. Find1 A masks f h \<longrightarrow> Find1 A masks (Insert A masks flags num_rows hashes f) h)"
  unfolding Insert_eq_fold [OF assms(1,2)]
proof (intro conjI allI impI ballI)
  show "fold (Insert1 A masks) (take num_rows hashes) f = fold (Insert1 A masks) hs f"
    if "set hs = set (take num_rows hashes)" for hs
    using that by (intro fold_Insert1_cong) simp
qed (simp_all add: assms(3) Find1_fold_Insert1 Find1_fold_Insert1_mono)

definition eight_blocks :: BlockedBloomFilter where
  "eight_blocks = BlockedBloomFilter_new\<lparr>log_num_blocks := 3, num_blocks := 8, blocks := replicate 8 0\<rparr>"

lemma bf_wf_eight_blocks [simp]: "bf_wf eight_blocks"
  by (simp add: eight_blocks_def bf_wf_def)

theorem Insert_correct_witness:
  "arrow_rotl_ok arrow_ref \<and> 5 \<le> length [1, 2, 3, 4, 5 :: u64] \<and> bf_wf eight_blocks \<and>
   Find1 arrow_ref (replicate 136 85) (Insert arrow_ref (replicate 136 85) 1 5 [1, 2, 3, 4, 5] eight_blocks) 5"
proof -
  have five: "5 \<le> length [1, 2, 3, 4, 5 :: u64]" by simp
  have "\<forall>h \<in> set (take 5 [1, 2, 3, 4, 5]). Find1 arrow_ref (replicate 136 85)
      (Insert arrow_ref (replicate 136 85) 1 5 [1, 2, 3, 4, 5] eight_blocks) h"
    using Insert_correct [OF arrow_ref_ok(4) _ bf_wf_eight_blocks,
        of 5 "[1, 2, 3, 4, 5]" "replicate 136 85" 1] five by blast
  then show ?thesis by simp
qed

text \<open>
  C9. The batch lookup, with or without the AVX2 kernel, with or without prefetching,
  returns; it never writes outside the selection vector; and it appends to the
  selection exactly the rows whose hash is found, in increasing order.
\<close>

theorem Find_correct:
  assumes "arrow_rotl_ok A" and "bf_wf f" and "num_rows \<le> length hashes" and "num_rows < 2 ^ 31"
    and "result_count + num_rows \<le> length sel"
  shows "\<exists>sel' result_count'.
    Find A masks f flags num_rows hashes (sel, result_count) enable_prefetch = Some (sel', result_count') \<and>
    length sel' = length sel \<and>
    take result_count' sel' =
      take result_count sel @ filter (\<lambda>i. Find1 A masks f (hashes ! i)) [0..<num_rows]"
  using Find_spec [OF assms, of masks flags enable_prefetch] by (auto simp: sel_extends_def)

theorem Find_correct_witness:
  "arrow_rotl_ok arrow_ref \<and> bf_wf eight_blocks \<and> (10::nat) \<le> length (replicate 10 (7::u64)) \<and>
   (10::nat) < 2 ^ 31 \<and> 0 + 10 \<le> length (replicate 10 (0::nat)) \<and>
   (\<exists>sel' result_count'.
      Find arrow_ref (replicate 136 85) eight_blocks 1 10 (replicate 10 7) (replicate 10 0, 0) True =
        Some (sel', result_count') \<and> length sel' = 10)"
  using Find_correct [of arrow_ref eight_blocks 10 "replicate 10 7" 0 "replicate 10 0" "replicate 136 85" 1 True]
  by auto

end
