(* ===== verification/Partition_Sort.thy ===== *)
theory Partition_Sort
  imports PT_Prelude "HOL-Library.Multiset"
begin

text \<open>
  \<open>class PartitionSort\<close> and \<open>class PartitionLocks\<close> (partition_util.hpp,
  partition_util.cpp): the bucket sort of row numbers by partition, with its
  counters kept in 16 bit words, and the loop that visits the partitions in a
  random order. Reads and writes outside the arrays give \<open>None\<close>.
\<close>

section \<open>The bucket sort\<close>

definition count_row :: "(nat \<Rightarrow> nat) \<Rightarrow> nat \<Rightarrow> u16 list \<Rightarrow> u16 list option" where
  "count_row prtn_id_impl i r =
     (let prtn_id = prtn_id_impl i in buf_set r (prtn_id + 1) (r ! (prtn_id + 1) + 1))"

definition prefix_sum :: "nat \<Rightarrow> u16 \<times> u16 list \<Rightarrow> (u16 \<times> u16 list) option" where
  "prefix_sum i s =
     (case s of (sum_prev, r) \<Rightarrow>
        let sum_next = sum_prev + r ! (i + 1)
        in map_option (\<lambda>r'. (sum_next, r')) (buf_set r (i + 1) sum_prev))"

definition scatter_row :: "(nat \<Rightarrow> nat) \<Rightarrow> (nat \<Rightarrow> nat \<Rightarrow> 's \<Rightarrow> 's option) \<Rightarrow> nat \<Rightarrow> u16 list \<times> 's \<Rightarrow>
    (u16 list \<times> 's) option" where
  "scatter_row prtn_id_impl output_pos_impl i s =
     (case s of (r, out) \<Rightarrow>
        let prtn_id = prtn_id_impl i;
            pos = unat (r ! (prtn_id + 1))
        in case buf_set r (prtn_id + 1) (r ! (prtn_id + 1) + 1) of
             None \<Rightarrow> None
           | Some r' \<Rightarrow> map_option (\<lambda>out'. (r', out')) (output_pos_impl i pos out))"

definition PartitionSort_Eval :: "nat \<Rightarrow> nat \<Rightarrow> u16 list \<Rightarrow> (nat \<Rightarrow> nat) \<Rightarrow>
    (nat \<Rightarrow> nat \<Rightarrow> 's \<Rightarrow> 's option) \<Rightarrow> 's \<Rightarrow> (u16 list \<times> 's) option" where
  "PartitionSort_Eval num_rows num_prtns prtn_ranges prtn_id_impl output_pos_impl out =
     (let r0 = replicate (num_prtns + 1) 0 @ drop (num_prtns + 1) prtn_ranges
      in case for_opt (count_row prtn_id_impl) [0..<num_rows] r0 of
           None \<Rightarrow> None
         | Some r1 \<Rightarrow>
             (case for_opt prefix_sum [0..<num_prtns] (0, r1) of
                None \<Rightarrow> None
              | Some (_, r2) \<Rightarrow>
                  for_opt (scatter_row prtn_id_impl output_pos_impl) [0..<num_rows] (r2, out)))"

section \<open>Buckets\<close>

definition bucket :: "(nat \<Rightarrow> nat) \<Rightarrow> nat \<Rightarrow> nat \<Rightarrow> nat list" where
  "bucket pid n p = filter (\<lambda>i. pid i = p) [0..<n]"

definition bucket_start :: "(nat \<Rightarrow> nat) \<Rightarrow> nat \<Rightarrow> nat \<Rightarrow> nat" where
  "bucket_start pid n p = length (concat (map (bucket pid n) [0..<p]))"

definition bucket_sorted :: "(nat \<Rightarrow> nat) \<Rightarrow> nat \<Rightarrow> nat \<Rightarrow> nat list" where
  "bucket_sorted pid n m = concat (map (bucket pid n) [0..<m])"

lemma bucket_Suc: "bucket pid (Suc n) p = bucket pid n p @ (if pid n = p then [n] else [])"
  by (simp add: bucket_def)

lemma bucket_0 [simp]: "bucket pid 0 p = []"
  by (simp add: bucket_def)

lemma bucket_start_0 [simp]: "bucket_start pid n 0 = 0"
  by (simp add: bucket_start_def)

lemma bucket_start_Suc [simp]:
  "bucket_start pid n (Suc p) = bucket_start pid n p + length (bucket pid n p)"
  by (simp add: bucket_start_def)

lemma mset_concat_filters:
  "mset (concat (map (\<lambda>p. filter (\<lambda>i. pid i = p) xs) [0..<m])) = filter_mset (\<lambda>i. pid i < m) (mset xs)"
  for pid :: "'a \<Rightarrow> nat"
proof (induction m)
  case (Suc m)
  have "filter_mset (\<lambda>i. pid i < Suc m) (mset xs) =
      filter_mset (\<lambda>i. pid i < m) (mset xs) + filter_mset (\<lambda>i. pid i = m) (mset xs)"
    by (rule multiset_eqI) auto
  with Suc show ?case by simp
qed simp

lemma mset_buckets: "mset (bucket_sorted pid n m) = filter_mset (\<lambda>i. pid i < m) (mset [0..<n])"
  unfolding bucket_sorted_def bucket_def by (rule mset_concat_filters)

lemma bucket_start_le: "bucket_start pid n p \<le> n"
proof -
  have "bucket_start pid n p = size (mset (bucket_sorted pid n p))"
    by (simp add: bucket_start_def bucket_sorted_def)
  also have "\<dots> \<le> size (mset [0..<n])" unfolding mset_buckets by (rule size_filter_mset_lesseq)
  finally show ?thesis by simp
qed

lemma bucket_end_le: "bucket_start pid n p + length (bucket pid n p) \<le> n"
  using bucket_start_le [of pid n "Suc p"] by simp

lemma length_bucket_le: "length (bucket pid n p) \<le> n"
  using bucket_end_le [of pid n p] by simp

lemma length_bucket_mono: "k \<le> n \<Longrightarrow> length (bucket pid k p) \<le> length (bucket pid n p)"
proof (induction n)
  case (Suc n)
  then show ?case by (cases "k = Suc n") (auto simp: bucket_Suc)
qed simp

text \<open>The bucket sort is the stable sort of the rows by partition.\<close>

lemma bucket_sorted_eq_sort_key:
  assumes "\<And>i. i < n \<Longrightarrow> pid i < m"
  shows "bucket_sorted pid n m = sort_key pid [0..<n]"
proof (rule properties_for_sort_key [symmetric])
  show "mset (bucket_sorted pid n m) = mset [0..<n]"
    unfolding mset_buckets using assms by (auto simp: filter_mset_eq_conv)
  have "filter (\<lambda>i. pid i = q) (bucket_sorted pid n m) = (if q < m then bucket pid n q else [])" for q
  proof (induction m)
    case (Suc m)
    have "filter (\<lambda>i. pid i = q) (bucket pid n m) = (if q = m then bucket pid n q else [])"
      by (auto simp: bucket_def filter_empty_conv intro: filter_cong)
    with Suc show ?case by (auto simp: bucket_sorted_def)
  qed (simp add: bucket_sorted_def)
  then show "filter (\<lambda>x. pid k = pid x) (bucket_sorted pid n m) = filter (\<lambda>x. pid k = pid x) [0..<n]"
    if "k \<in> set (bucket_sorted pid n m)" for k
    using that assms unfolding bucket_sorted_def
    by (auto simp: bucket_def eq_commute [of "pid k"])
  show "sorted (map pid (bucket_sorted pid n m))"
  proof (induction m)
    case (Suc m)
    have "map pid (bucket pid n m) = replicate (length (bucket pid n m)) m"
      by (induction n) (auto simp: bucket_Suc replicate_append_same)
    with Suc show ?case by (auto simp: bucket_sorted_def sorted_append bucket_def)
  qed (simp add: bucket_sorted_def)
qed

text \<open>The position the sort gives to a row.\<close>

definition row_pos :: "(nat \<Rightarrow> nat) \<Rightarrow> nat \<Rightarrow> nat \<Rightarrow> nat" where
  "row_pos pid n i = bucket_start pid n (pid i) + length (bucket pid i (pid i))"

lemma nth_bucket_sorted:
  assumes "i < n" and "pid i < m"
  shows "row_pos pid n i < length (bucket_sorted pid n m)" and "bucket_sorted pid n m ! row_pos pid n i = i"
proof -
  let ?p = "pid i"
  have rows: "[0..<n] = [0..<i] @ i # [Suc i..<n]"
    using assms(1) upt_add_eq_append [of 0 i "n - i"] by (simp add: upt_conv_Cons)
  have "bucket pid n ?p = bucket pid i ?p @ i # filter (\<lambda>j. pid j = ?p) [Suc i..<n]"
    unfolding bucket_def rows by simp
  moreover have "[0..<m] = [0..<?p] @ ?p # [Suc ?p..<m]"
    using assms(2) upt_add_eq_append [of 0 ?p "m - ?p"] by (simp add: upt_conv_Cons)
  ultimately have split: "bucket_sorted pid n m =
      (concat (map (bucket pid n) [0..<?p]) @ bucket pid i ?p) @
        i # filter (\<lambda>j. pid j = ?p) [Suc i..<n] @ concat (map (bucket pid n) [Suc ?p..<m])"
    unfolding bucket_sorted_def by simp
  have pos: "row_pos pid n i = length (concat (map (bucket pid n) [0..<?p]) @ bucket pid i ?p)"
    by (simp add: row_pos_def bucket_start_def)
  show "row_pos pid n i < length (bucket_sorted pid n m)" unfolding pos split by simp
  show "bucket_sorted pid n m ! row_pos pid n i = i" unfolding pos split by (rule nth_append_length)
qed

lemma bucket_sorted_perm:
  assumes "\<And>i. i < n \<Longrightarrow> pid i < m"
  shows "length (bucket_sorted pid n m) = n" and "distinct (bucket_sorted pid n m)"
    and "set (bucket_sorted pid n m) = {0..<n}" and "bucket_start pid n m = n"
proof -
  have eq: "bucket_sorted pid n m = sort_key pid [0..<n]" by (rule bucket_sorted_eq_sort_key) fact
  then show len: "length (bucket_sorted pid n m) = n" and "distinct (bucket_sorted pid n m)"
    and "set (bucket_sorted pid n m) = {0..<n}"
    by simp_all
  show "bucket_start pid n m = n" using len by (simp add: bucket_start_def bucket_sorted_def)
qed

section \<open>The three loops\<close>

lemma unat_u16: "k < 2 ^ 16 \<Longrightarrow> unat (of_nat k :: u16) = k"
  by (simp add: unat_of_nat)

lemma count_loop:
  assumes "\<And>i. i < n \<Longrightarrow> pid i < m" and "m < length r0" and "\<And>j. j \<le> m \<Longrightarrow> r0 ! j = 0" and "k \<le> n"
  shows "\<exists>r. for_opt (count_row pid) [0..<k] r0 = Some r \<and> length r = length r0 \<and> r ! 0 = 0 \<and>
    (\<forall>p < m. r ! Suc p = of_nat (length (bucket pid k p)))"
  using assms(4)
proof (induction k)
  case 0
  then show ?case using assms(3) by simp
next
  case (Suc k)
  then obtain r where r: "for_opt (count_row pid) [0..<k] r0 = Some r" "length r = length r0" "r ! 0 = 0"
    "\<And>p. p < m \<Longrightarrow> r ! Suc p = of_nat (length (bucket pid k p))" by auto
  have k: "pid k < m" using Suc.prems assms(1) by simp
  then have "count_row pid k r = Some (r[Suc (pid k) := r ! Suc (pid k) + 1])"
    using r(2) assms(2) by (simp add: count_row_def Let_def)
  then show ?case
    using r k assms(2) by (auto simp: bucket_Suc nth_list_update)
qed

lemma prefix_loop:
  assumes "m < length r1" and "r1 ! 0 = 0" and "\<And>p. p < m \<Longrightarrow> r1 ! Suc p = of_nat (length (bucket pid n p))"
    and "q \<le> m"
  shows "\<exists>r. for_opt prefix_sum [0..<q] (0, r1) = Some (of_nat (bucket_start pid n q), r) \<and>
    length r = length r1 \<and> r ! 0 = 0 \<and>
    (\<forall>p < m. r ! Suc p = of_nat (if p < q then bucket_start pid n p else length (bucket pid n p)))"
  using assms(4)
proof (induction q)
  case 0
  then show ?case using assms(2,3) by simp
next
  case (Suc q)
  then obtain r where r: "for_opt prefix_sum [0..<q] (0, r1) = Some (of_nat (bucket_start pid n q), r)"
    "length r = length r1" "r ! 0 = 0"
    "\<And>p. p < m \<Longrightarrow> r ! Suc p = of_nat (if p < q then bucket_start pid n p else length (bucket pid n p))"
    by auto
  moreover from this have "prefix_sum q (of_nat (bucket_start pid n q), r) =
      Some (of_nat (bucket_start pid n (Suc q)), r[Suc q := of_nat (bucket_start pid n q)])"
    using Suc.prems assms(1) by (simp add: prefix_sum_def Let_def)
  ultimately show ?case
    using Suc.prems assms(1) by (auto simp: nth_list_update less_Suc_eq)
qed

text \<open>The output callback of the users of the sort stores one value per row.\<close>

definition store_row :: "(nat \<Rightarrow> 'a) \<Rightarrow> nat \<Rightarrow> nat \<Rightarrow> 'a list \<Rightarrow> 'a list option" where
  "store_row g row_id output_pos out = buf_set out output_pos (g row_id)"

lemma scatter_loop:
  assumes pid: "\<And>i. i < n \<Longrightarrow> pid i < m" and "m < length r2" and "r2 ! 0 = 0" and n16: "n < 2 ^ 16"
    and "\<And>p. p < m \<Longrightarrow> r2 ! Suc p = of_nat (bucket_start pid n p)" and out: "length out = n" and "k \<le> n"
  shows "\<exists>r out'. for_opt (scatter_row pid (store_row g)) [0..<k] (r2, out) = Some (r, out') \<and>
    length r = length r2 \<and> r ! 0 = 0 \<and>
    (\<forall>p < m. r ! Suc p = of_nat (bucket_start pid n p + length (bucket pid k p))) \<and>
    length out' = n \<and> (\<forall>i < k. out' ! row_pos pid n i = g i)"
  using assms(7)
proof (induction k)
  case 0
  then show ?case using assms by simp
next
  case (Suc k)
  then obtain r out' where r: "for_opt (scatter_row pid (store_row g)) [0..<k] (r2, out) = Some (r, out')"
    "length r = length r2" "r ! 0 = 0" "length out' = n"
    "\<And>p. p < m \<Longrightarrow> r ! Suc p = of_nat (bucket_start pid n p + length (bucket pid k p))"
    "\<And>i. i < k \<Longrightarrow> out' ! row_pos pid n i = g i" by auto
  have k: "k < n" "pid k < m" using Suc.prems pid by simp_all
  have pos: "row_pos pid n k < n"
    using nth_bucket_sorted(1) [of k n pid m] bucket_sorted_perm(1) [of n pid m] k pid by simp
  then have "unat (r ! Suc (pid k)) = row_pos pid n k"
    using r(5) [OF k(2)] n16 unat_u16 [of "row_pos pid n k"] by (simp add: row_pos_def)
  then have "scatter_row pid (store_row g) k (r, out') =
      Some (r[Suc (pid k) := r ! Suc (pid k) + 1], out'[row_pos pid n k := g k])"
    using r(2,4) k(2) assms(2) pos by (simp add: scatter_row_def store_row_def Let_def)
  moreover have "\<forall>i < k. row_pos pid n k \<noteq> row_pos pid n i"
    using nth_bucket_sorted(2) [of _ n pid m] k pid by (metis less_trans less_irrefl)
  ultimately show ?case
    using r k(2) assms(2) pos
    by (auto simp: bucket_Suc nth_list_update less_Suc_eq)
qed

lemma PartitionSort_Eval_spec:
  assumes pid: "\<And>i. i < n \<Longrightarrow> pid i < m" and n16: "n < 2 ^ 16" and ranges: "m < length prtn_ranges"
    and out: "length out = n"
  shows "\<exists>r. PartitionSort_Eval n m prtn_ranges pid (store_row g) out =
      Some (r, map g (sort_key pid [0..<n])) \<and> length r = length prtn_ranges \<and>
    (\<forall>p \<le> m. unat (r ! p) = bucket_start pid n p)"
proof -
  define r0 where "r0 = replicate (m + 1) (0::u16) @ drop (m + 1) prtn_ranges"
  have r0: "m < length r0" "\<And>j. j \<le> m \<Longrightarrow> r0 ! j = 0" "length r0 = length prtn_ranges"
    using ranges by (simp_all add: r0_def nth_append del: replicate_Suc)
  obtain r1 where r1: "for_opt (count_row pid) [0..<n] r0 = Some r1" "length r1 = length prtn_ranges"
      "r1 ! 0 = 0" "\<And>p. p < m \<Longrightarrow> r1 ! Suc p = of_nat (length (bucket pid n p))"
    using count_loop [of n pid m r0 n] pid r0 by auto
  obtain r2 where r2: "for_opt prefix_sum [0..<m] (0, r1) = Some (of_nat (bucket_start pid n m), r2)"
      "length r2 = length prtn_ranges" "r2 ! 0 = 0" "\<And>p. p < m \<Longrightarrow> r2 ! Suc p = of_nat (bucket_start pid n p)"
    using prefix_loop [of m r1 pid n m] r1 ranges by auto
  obtain r out' where r: "for_opt (scatter_row pid (store_row g)) [0..<n] (r2, out) = Some (r, out')"
      "length r = length prtn_ranges" "r ! 0 = 0"
      "\<And>p. p < m \<Longrightarrow> r ! Suc p = of_nat (bucket_start pid n (Suc p))"
      "length out' = n" "\<And>i. i < n \<Longrightarrow> out' ! row_pos pid n i = g i"
    using scatter_loop [of n pid m r2 out n g] pid r2 ranges n16 out by auto
  have "out' = map g (bucket_sorted pid n m)"
  proof (rule nth_equalityI)
    show len: "length out' = length (map g (bucket_sorted pid n m))"
      using bucket_sorted_perm(1) [of n pid m] pid r(5) by simp
    fix j assume "j < length out'"
    then have j: "j < length (bucket_sorted pid n m)" using len by simp
    let ?i = "bucket_sorted pid n m ! j"
    have i: "?i < n" using nth_mem [OF j] bucket_sorted_perm(3) [of n pid m] pid by auto
    note pos = nth_bucket_sorted [where pid = pid, OF i pid [OF i]]
    have dist: "distinct (bucket_sorted pid n m)" using pid by (rule bucket_sorted_perm)
    have "row_pos pid n ?i = j"
      using nth_eq_iff_index_eq [OF dist pos(1) j] pos(2) by simp
    then show "out' ! j = map g (bucket_sorted pid n m) ! j" using r(6) [OF i] j by simp
  qed
  moreover have "unat (r ! p) = bucket_start pid n p" if "p \<le> m" for p
    using that r(3,4) bucket_start_le [of pid n p] n16 unat_u16 [of "bucket_start pid n p"] by (cases p) simp_all
  moreover have "PartitionSort_Eval n m prtn_ranges pid (store_row g) out = Some (r, out')"
    unfolding PartitionSort_Eval_def Let_def r0_def [symmetric]
    by (simp only: r1(1) r2(1) r(1) option.case prod.case)
  ultimately show ?thesis
    using r(2) bucket_sorted_eq_sort_key [of n pid m] pid by auto
qed

section \<open>Partition locks\<close>

text \<open>
  The lock flags of the partitions and one random number generator per thread; a
  generator is the number of values drawn from it so far, and \<open>rnd t k n\<close> is the
  \<open>k\<close>-th value drawn by thread \<open>t\<close>, from \<open>uniform_int_distribution {0, n - 1}\<close>.
\<close>

record PartitionLocks =
  num_prtns_total :: nat
  locks :: "bool list"
  rngs :: "nat list"

definition PartitionLocks_new :: PartitionLocks where
  "PartitionLocks_new = \<lparr>num_prtns_total = 0, locks = [], rngs = []\<rparr>"

definition PartitionLocks_Init :: "nat \<Rightarrow> nat \<Rightarrow> PartitionLocks \<Rightarrow> PartitionLocks" where
  "PartitionLocks_Init num_threads num_prtns L =
     L\<lparr>num_prtns_total := num_prtns, locks := replicate num_prtns False, rngs := replicate num_threads 0\<rparr>"

definition PartitionLocks_CleanUp :: "PartitionLocks \<Rightarrow> PartitionLocks" where
  "PartitionLocks_CleanUp L = L\<lparr>locks := [], rngs := [], num_prtns_total := 0\<rparr>"

type_synonym rnd_source = "nat \<Rightarrow> nat \<Rightarrow> nat \<Rightarrow> nat"

definition random_int :: "rnd_source \<Rightarrow> nat \<Rightarrow> nat \<Rightarrow> PartitionLocks \<Rightarrow> nat \<times> PartitionLocks" where
  "random_int rnd thread_id num_values L =
     (let k = rngs L ! thread_id
      in (rnd thread_id k num_values, L\<lparr>rngs := (rngs L)[thread_id := Suc k]\<rparr>))"

text \<open>The partition and its position in the array, and the new state; it always succeeds.\<close>

definition AcquirePartitionLock :: "rnd_source \<Rightarrow> nat \<Rightarrow> nat \<Rightarrow> nat list \<Rightarrow> PartitionLocks \<Rightarrow>
    (nat \<times> nat) \<times> PartitionLocks" where
  "AcquirePartitionLock rnd thread_id num_prtns_to_try prtn_ids_to_try L =
     (let (locked_prtn_id_pos, L') = random_int rnd thread_id num_prtns_to_try L;
          locked_prtn_id = prtn_ids_to_try ! locked_prtn_id_pos
      in ((locked_prtn_id, locked_prtn_id_pos), L'))"

definition ReleasePartitionLock :: "nat \<Rightarrow> PartitionLocks \<Rightarrow> PartitionLocks" where
  "ReleasePartitionLock prtn_id L = L\<lparr>locks := (locks L)[prtn_id := False]\<rparr>"

text \<open>The loop over the partitions that still have work, and the whole operation.\<close>

fun foreach_loop :: "rnd_source \<Rightarrow> nat \<Rightarrow> (nat \<Rightarrow> 's \<Rightarrow> arrow_status \<times> 's) \<Rightarrow> nat \<Rightarrow> nat list \<Rightarrow>
    PartitionLocks \<times> 's \<Rightarrow> arrow_status \<times> PartitionLocks \<times> 's" where
  "foreach_loop rnd thread_id process_prtn_fn 0 temp (L, s) = (Status_OK, L, s)"
| "foreach_loop rnd thread_id process_prtn_fn (Suc n) temp (L, s) =
     (let ((prtn_id, pos), L1) = AcquirePartitionLock rnd thread_id (Suc n) temp L;
          (status, s1) = process_prtn_fn prtn_id s;
          L2 = ReleasePartitionLock prtn_id L1
      in if status \<noteq> Status_OK then (status, L2, s1)
         else foreach_loop rnd thread_id process_prtn_fn n
                (if pos < n then temp[pos := temp ! n] else temp) (L2, s1))"

definition ForEachPartition :: "rnd_source \<Rightarrow> nat \<Rightarrow> nat list \<Rightarrow> (nat \<Rightarrow> bool) \<Rightarrow>
    (nat \<Rightarrow> 's \<Rightarrow> arrow_status \<times> 's) \<Rightarrow> PartitionLocks \<times> 's \<Rightarrow> arrow_status \<times> PartitionLocks \<times> 's" where
  "ForEachPartition rnd thread_id temp is_prtn_empty_fn process_prtn_fn s =
     (let (n, temp') = fold (\<lambda>i (n, temp). if is_prtn_empty_fn i then (n, temp) else (Suc n, temp[n := i]))
            [0..<num_prtns_total (fst s)] (0, temp)
      in foreach_loop rnd thread_id process_prtn_fn n temp' s)"

definition rnd_ok :: "rnd_source \<Rightarrow> bool" where
  "rnd_ok rnd \<longleftrightarrow> (\<forall>t k n. 0 < n \<longrightarrow> rnd t k n < n)"

text \<open>A sequence of partitions processed until the first error.\<close>

fun process_all :: "(nat \<Rightarrow> 's \<Rightarrow> arrow_status \<times> 's) \<Rightarrow> nat list \<Rightarrow> 's \<Rightarrow> arrow_status \<times> 's" where
  "process_all f [] s = (Status_OK, s)"
| "process_all f (p # ps) s =
     (let (status, s1) = f p s in if status \<noteq> Status_OK then (status, s1) else process_all f ps s1)"

lemma mset_take_swap:
  assumes "pos \<le> n" and "n < length temp"
  shows "mset (take (Suc n) temp) =
    add_mset (temp ! pos) (mset (take n (if pos < n then temp[pos := temp ! n] else temp)))"
proof (cases "pos < n")
  case True
  have "mset (take n (temp[pos := temp ! n])) = add_mset (temp ! n) (mset (take n temp) - {#temp ! pos#})"
    using True assms(2) by (simp add: take_update_swap mset_update)
  moreover have "temp ! pos \<in># mset (take n temp)"
    using True assms(2) by (metis length_take min.absorb4 nth_mem nth_take set_mset_mset)
  ultimately show ?thesis
    using True assms(2) by (simp add: take_Suc_conv_app_nth)
next
  case False
  then show ?thesis using assms by (simp add: take_Suc_conv_app_nth)
qed

lemma foreach_loop_spec:
  assumes "rnd_ok rnd" and "n \<le> length temp"
  shows "\<exists>ps L'. mset ps = mset (take n temp) \<and>
    foreach_loop rnd thread_id f n temp (L, s) =
      (fst (process_all f ps s), L', snd (process_all f ps s)) \<and>
    (list_all Not (locks L) \<longrightarrow> locks L' = locks L)"
  using assms(2)
proof (induction n arbitrary: temp L s)
  case 0
  then show ?case by (intro exI [of _ "[]"]) auto
next
  case (Suc n)
  let ?pos = "rnd thread_id (rngs L ! thread_id) (Suc n)"
  let ?id = "temp ! ?pos" and ?temp = "if ?pos < n then temp[?pos := temp ! n] else temp"
  let ?L = "L\<lparr>rngs := (rngs L)[thread_id := Suc (rngs L ! thread_id)], locks := (locks L)[?id := False]\<rparr>"
  have pos: "?pos \<le> n" using assms(1) by (metis less_Suc_eq_le rnd_ok_def zero_less_Suc)
  obtain status s1 where f: "f ?id s = (status, s1)" by fastforce
  have "n \<le> length ?temp" using Suc.prems by simp
  from Suc.IH [OF this, of ?L s1] obtain ps L' where ps: "mset ps = mset (take n ?temp)"
      "foreach_loop rnd thread_id f n ?temp (?L, s1) = (fst (process_all f ps s1), L', snd (process_all f ps s1))"
      "list_all Not (locks ?L) \<longrightarrow> locks L' = locks ?L"
    by blast
  have keep: "(locks L)[i := False] = locks L" if "list_all Not (locks L)" for i
    using that by (cases "i < length (locks L)") (simp_all add: list_all_length list_update_same_conv list_update_beyond)
  have "foreach_loop rnd thread_id f (Suc n) temp (L, s) =
      (if status \<noteq> Status_OK then (status, ?L, s1) else foreach_loop rnd thread_id f n ?temp (?L, s1))"
    by (simp add: AcquirePartitionLock_def random_int_def ReleasePartitionLock_def Let_def f)
  moreover have "mset (?id # ps) = mset (take (Suc n) temp)"
    using mset_take_swap [OF pos, of temp] Suc.prems ps(1) by simp
  ultimately show ?case
    using ps(2,3) f keep
    by (intro exI [of _ "?id # ps"] exI [of _ "if status \<noteq> Status_OK then ?L else L'"]) auto
qed

lemma unprocessed_partitions:
  assumes "k \<le> length temp"
    and "fold (\<lambda>i (n, temp). if is_empty i then (n, temp) else (Suc n, temp[n := i])) [0..<k] (0, temp) = (n, t)"
  shows "take n t = filter (\<lambda>i. \<not> is_empty i) [0..<k] \<and> n \<le> k \<and> length t = length temp"
  using assms
proof (induction k arbitrary: n t)
  case (Suc k)
  obtain n' t' where r: "fold (\<lambda>i (n, temp). if is_empty i then (n, temp) else (Suc n, temp[n := i])) [0..<k] (0, temp) = (n', t')"
    by fastforce
  then have "take n' t' = filter (\<lambda>i. \<not> is_empty i) [0..<k]" "n' \<le> k" "length t' = length temp"
    using Suc.IH [of n' t'] Suc.prems(1) by simp_all
  then show ?case using r Suc.prems by (auto simp: take_Suc_conv_app_nth split: if_splits)
qed simp

section \<open>Claims\<close>



text \<open>
  C26. \<open>ForEachPartition\<close> returns; it runs the callback on the partitions that are not
  empty, each exactly once, in some order, until the callback reports an error, whose
  status it then returns; and it leaves no partition locked.
\<close>

theorem ForEachPartition_correct:
  assumes "rnd_ok rnd" and "num_prtns_total L \<le> length temp"
  shows "\<exists>ps L'. mset ps = mset (filter (\<lambda>p. \<not> is_prtn_empty_fn p) [0..<num_prtns_total L]) \<and>
    ForEachPartition rnd thread_id temp is_prtn_empty_fn process_prtn_fn (L, s) =
      (fst (process_all process_prtn_fn ps s), L', snd (process_all process_prtn_fn ps s)) \<and>
    (list_all Not (locks L) \<longrightarrow> locks L' = locks L)"
proof -
  obtain n t where r: "fold (\<lambda>i (n, temp). if is_prtn_empty_fn i then (n, temp) else (Suc n, temp[n := i]))
      [0..<num_prtns_total L] (0, temp) = (n, t)" by fastforce
  have t: "take n t = filter (\<lambda>p. \<not> is_prtn_empty_fn p) [0..<num_prtns_total L]" "n \<le> length t"
    using unprocessed_partitions [OF assms(2) r] assms(2) by simp_all
  show ?thesis
    using foreach_loop_spec [OF assms(1) t(2), of thread_id process_prtn_fn L s]
    unfolding ForEachPartition_def fst_conv r t(1) by simp
qed

theorem ForEachPartition_correct_witness:
  "rnd_ok (\<lambda>t k n. n - 1) \<and>
   num_prtns_total (PartitionLocks_Init 1 3 PartitionLocks_new) \<le> length [0, 0, 0 :: nat] \<and>
   (\<exists>ps L'. mset ps = mset [0, 2] \<and>
      ForEachPartition (\<lambda>t k n. n - 1) 0 [0, 0, 0] (\<lambda>p. p = 1) (\<lambda>p s. (Status_OK, s @ [p]))
        (PartitionLocks_Init 1 3 PartitionLocks_new, []) =
      (fst (process_all (\<lambda>p s. (Status_OK, s @ [p])) ps []), L',
       snd (process_all (\<lambda>p s. (Status_OK, s @ [p])) ps [])))"
proof -
  let ?L = "PartitionLocks_Init 1 3 PartitionLocks_new"
  have L: "num_prtns_total ?L = 3" by (simp add: PartitionLocks_Init_def)
  have rnd: "rnd_ok (\<lambda>t k n. n - 1)" by (simp add: rnd_ok_def)
  have temp: "num_prtns_total ?L \<le> length [0, 0, 0 :: nat]" by (simp add: PartitionLocks_Init_def)
  have parts: "filter (\<lambda>p. \<not> p = 1) [0..<3] = [0, 2 :: nat]" by (simp add: upt_rec)
  from ForEachPartition_correct [OF rnd temp, of "\<lambda>p. p = 1" 0 "\<lambda>p s. (Status_OK, s @ [p])" "[]"]
  show ?thesis using rnd temp unfolding L parts by blast
qed



end
