(* ===== verification/Bloom_Builder.thy ===== *)
theory Bloom_Builder
  imports Bloom_Batch Partition_Sort
begin

text \<open>
  The two implementations of \<open>BloomFilterBuilder\<close> (bloom_filter.hpp,
  bloom_filter.cpp): the single threaded one inserts a batch as it comes, the
  parallel one first sorts it by partition. Both write to the filter \<open>build_target_\<close>
  points to, which is passed explicitly. The virtual class is the locale
  \<open>bloom_builder\<close>; both implementations are interpretations of it. The last section
  has the interleavings of the atomic updates of several threads.
\<close>

unbundle bit_operations_syntax

section \<open>The single threaded builder\<close>

record BloomFilterBuilder_SingleThreaded =
  st_hardware_flags :: u64

definition SingleThreaded_Begin :: "'a arrow_lib_scheme \<Rightarrow> u64 \<Rightarrow> nat \<Rightarrow> BlockedBloomFilter \<Rightarrow>
    arrow_status \<times> BloomFilterBuilder_SingleThreaded \<times> BlockedBloomFilter" where
  "SingleThreaded_Begin A hardware_flags num_rows build_target =
     (let (status, f) = CreateEmpty A num_rows build_target
      in (status, \<lparr>st_hardware_flags = hardware_flags\<rparr>, f))"

definition SingleThreaded_PushNextBatch :: "'a arrow_lib_scheme \<Rightarrow> u8 list \<Rightarrow> nat \<Rightarrow> u64 list \<Rightarrow>
    BloomFilterBuilder_SingleThreaded \<times> BlockedBloomFilter \<Rightarrow>
    BloomFilterBuilder_SingleThreaded \<times> BlockedBloomFilter" where
  "SingleThreaded_PushNextBatch A masks num_rows hashes s =
     (case s of (b, f) \<Rightarrow> (b, Insert A masks (st_hardware_flags b) num_rows hashes f))"

definition BuiltCols :: "BlockedBloomFilter \<Rightarrow> nat list" where
  "BuiltCols build_target = BoundColsBuilt build_target"

section \<open>The parallel builder\<close>

record ThreadLocalState =
  partitioned_hashes_64 :: "u64 list"
  partition_ranges :: "u16 list"
  unprocessed_partition_ids :: "nat list"

definition ThreadLocalState_new :: ThreadLocalState where
  "ThreadLocalState_new =
     \<lparr>partitioned_hashes_64 = [], partition_ranges = [], unprocessed_partition_ids = []\<rparr>"

record BloomFilterBuilder_Parallel =
  total_row_nums :: nat
  hardware_flags :: u64
  log_num_prtns :: nat
  thread_local_states :: "ThreadLocalState list"
  prtn_locks :: PartitionLocks

text \<open>\<open>std::vector::resize\<close>.\<close>

definition resize :: "nat \<Rightarrow> 'a \<Rightarrow> 'a list \<Rightarrow> 'a list" where
  "resize n d xs = take n xs @ replicate (n - length xs) d"

lemma length_resize [simp]: "length (resize n d xs) = n"
  by (simp add: resize_def)

definition kMaxLogNumPrtns :: nat where "kMaxLogNumPrtns = 8"

definition Parallel_Begin :: "'a arrow_lib_scheme \<Rightarrow> nat \<Rightarrow> u64 \<Rightarrow> nat \<Rightarrow>
    BloomFilterBuilder_Parallel \<Rightarrow> BlockedBloomFilter \<Rightarrow>
    arrow_status \<times> BloomFilterBuilder_Parallel \<times> BlockedBloomFilter" where
  "Parallel_Begin A num_threads flags num_rows b build_target =
     (let k = min kMaxLogNumPrtns (Log2 A num_threads);
          b1 = b\<lparr>hardware_flags := flags, total_row_nums := num_rows, log_num_prtns := k,
                 thread_local_states := resize num_threads ThreadLocalState_new (thread_local_states b),
                 prtn_locks := PartitionLocks_Init num_threads (2 ^ k) (prtn_locks b)\<rparr>;
          (status, f) = CreateEmpty A num_rows build_target
      in (status, b1, f))"

definition kLogBlocksKeptTogether :: nat where "kLogBlocksKeptTogether = 7"

definition kPrtnIdBitOffset :: nat where
  "kPrtnIdBitOffset = kLogNumMasks + 6 + kLogBlocksKeptTogether"

text \<open>The loop over the partitions of a batch; the first one left is always taken.\<close>

fun prtn_loop :: "'a arrow_lib_scheme \<Rightarrow> u8 list \<Rightarrow> u64 \<Rightarrow> u16 list \<Rightarrow> u64 list \<Rightarrow> nat \<Rightarrow> nat list \<Rightarrow>
    BlockedBloomFilter \<Rightarrow> BlockedBloomFilter" where
  "prtn_loop A masks flags ranges hashes 0 ids f = f"
| "prtn_loop A masks flags ranges hashes (Suc n) ids f =
     (let locked_prtn_id_pos = 0;
          locked_prtn_id = ids ! locked_prtn_id_pos;
          f' = Insert A masks flags (unat (ranges ! (locked_prtn_id + 1)) - unat (ranges ! locked_prtn_id))
                 (drop (unat (ranges ! locked_prtn_id)) hashes) f
      in prtn_loop A masks flags ranges hashes n
           (if locked_prtn_id_pos < n then ids[locked_prtn_id_pos := ids ! n] else ids) f')"

definition Parallel_PushNextBatch :: "'a arrow_lib_scheme \<Rightarrow> u8 list \<Rightarrow> nat \<Rightarrow> nat \<Rightarrow> u64 list \<Rightarrow>
    BloomFilterBuilder_Parallel \<times> BlockedBloomFilter \<Rightarrow>
    (BloomFilterBuilder_Parallel \<times> BlockedBloomFilter) option" where
  "Parallel_PushNextBatch A masks thread_id num_rows hashes s =
     (case s of (b, build_target) \<Rightarrow>
      if length (thread_local_states b) \<le> thread_id then None else
        let log_num_prtns_max = log_num_blocks build_target - kLogBlocksKeptTogether;
            log_num_prtns_mod = min (log_num_prtns b) log_num_prtns_max;
            num_prtns = 2 ^ log_num_prtns_mod;
            local_state = thread_local_states b ! thread_id;
            ranges0 = resize (num_prtns + 1) 0 (partition_ranges local_state);
            hashes0 = resize num_rows 0 (partitioned_hashes_64 local_state);
            ids0 = resize num_prtns 0 (unprocessed_partition_ids local_state)
        in case PartitionSort_Eval num_rows num_prtns ranges0
                  (\<lambda>row_id. unat (drop_bit kPrtnIdBitOffset (hashes ! row_id) AND (of_nat num_prtns - 1)))
                  (store_row (\<lambda>row_id. hashes ! row_id)) hashes0 of
             None \<Rightarrow> None
           | Some (ranges, partitioned_hashes) \<Rightarrow>
               let (n, ids) = fold (\<lambda>i (n, ids).
                        if ranges ! (i + 1) = ranges ! i then (n, ids) else (Suc n, ids[n := i]))
                      [0..<num_prtns] (0, ids0);
                   f = prtn_loop A masks (hardware_flags b) ranges partitioned_hashes n ids build_target;
                   local_state' = \<lparr>partitioned_hashes_64 = partitioned_hashes, partition_ranges = ranges,
                                   unprocessed_partition_ids = ids\<rparr>
               in Some (b\<lparr>thread_local_states := (thread_local_states b)[thread_id := local_state']\<rparr>, f))"

definition Parallel_CleanUp :: "BloomFilterBuilder_Parallel \<Rightarrow> BloomFilterBuilder_Parallel" where
  "Parallel_CleanUp b = b\<lparr>thread_local_states := [], prtn_locks := PartitionLocks_CleanUp (prtn_locks b)\<rparr>"

definition Parallel_Merge :: "BloomFilterBuilder_Parallel \<Rightarrow> BloomFilterBuilder_Parallel" where
  "Parallel_Merge b = b"

section \<open>A batch of the parallel builder\<close>

text \<open>The rows of one partition in the sorted hashes.\<close>

definition prtn_slice :: "u16 list \<Rightarrow> 'a list \<Rightarrow> nat \<Rightarrow> 'a list" where
  "prtn_slice ranges hashes p =
     take (unat (ranges ! (p + 1)) - unat (ranges ! p)) (drop (unat (ranges ! p)) hashes)"

lemma prtn_loop_spec:
  assumes "arrow_rotl_ok A" and "n \<le> length ids"
    and "\<And>p. p \<in> set (take n ids) \<Longrightarrow>
      unat (ranges ! p) \<le> unat (ranges ! (p + 1)) \<and> unat (ranges ! (p + 1)) \<le> length hashes"
  shows "\<exists>ps. mset ps = mset (take n ids) \<and>
    prtn_loop A masks flags ranges hashes n ids f =
      fold (Insert1 A masks) (concat (map (prtn_slice ranges hashes) ps)) f"
  using assms(2,3)
proof (induction n arbitrary: ids f)
  case 0
  then show ?case by auto
next
  case (Suc n)
  let ?id = "ids ! 0" and ?ids = "if 0 < n then ids[0 := ids ! n] else ids"
  let ?f = "fold (Insert1 A masks) (prtn_slice ranges hashes ?id) f"
  have ms: "mset (take (Suc n) ids) = add_mset ?id (mset (take n ?ids))"
    using mset_take_swap [of 0 n ids] Suc.prems(1) by simp
  then have sub: "p \<in> set (take (Suc n) ids)" if "p \<in> set (take n ?ids)" for p
    using that by (metis insert_iff set_mset_add_mset_insert set_mset_mset)
  have id: "?id \<in> set (take (Suc n) ids)" by (metis ms set_mset_mset union_single_eq_member)
  have "n \<le> length ?ids" using Suc.prems(1) by simp
  from Suc.IH [OF this, of ?f] Suc.prems(2) sub obtain ps where
    ps: "mset ps = mset (take n ?ids)" "prtn_loop A masks flags ranges hashes n ?ids ?f =
      fold (Insert1 A masks) (concat (map (prtn_slice ranges hashes) ps)) ?f" by blast
  have "Insert A masks flags (unat (ranges ! (?id + 1)) - unat (ranges ! ?id)) (drop (unat (ranges ! ?id)) hashes) f = ?f"
    unfolding prtn_slice_def using Suc.prems(2) [OF id]
    by (intro Insert_eq_fold [OF assms(1)]) (auto intro: diff_le_mono)
  then have "prtn_loop A masks flags ranges hashes (Suc n) ids f =
      fold (Insert1 A masks) (concat (map (prtn_slice ranges hashes) (?id # ps))) f"
    using ps(2) by (simp add: Let_def)
  moreover have "mset (?id # ps) = mset (take (Suc n) ids)" using ms ps(1) by simp
  ultimately show ?case by blast
qed

text \<open>After the sort, the slice of a partition has the hashes of its rows.\<close>

lemma prtn_slice_bucket:
  assumes "\<And>i. i < n \<Longrightarrow> pid i < m" and "\<And>p. p \<le> m \<Longrightarrow> unat (ranges ! p) = bucket_start pid n p" and "p < m"
  shows "prtn_slice ranges (map g (sort_key pid [0..<n])) p = map g (bucket pid n p)"
proof -
  have "[0..<m] = [0..<p] @ p # [Suc p..<m]"
    using assms(3) upt_add_eq_append [of 0 p "m - p"] by (simp add: upt_conv_Cons)
  then have "sort_key pid [0..<n] = concat (map (bucket pid n) [0..<p]) @ bucket pid n p @
      concat (map (bucket pid n) [Suc p..<m])"
    using bucket_sorted_eq_sort_key [of n pid m] assms(1) by (simp add: bucket_sorted_def)
  moreover have "unat (ranges ! p) = length (concat (map (bucket pid n) [0..<p]))"
    "unat (ranges ! (p + 1)) = unat (ranges ! p) + length (bucket pid n p)"
    using assms(2) [of p] assms(2) [of "Suc p"] assms(3) by (simp_all add: bucket_start_def)
  ultimately show ?thesis by (simp add: prtn_slice_def)
qed

lemma Parallel_PushNextBatch_spec:
  assumes "arrow_rotl_ok A" and "num_rows \<le> length hashes" and "num_rows < 2 ^ 16"
    and "thread_id < length (thread_local_states b)"
  shows "\<exists>st. Parallel_PushNextBatch A masks thread_id num_rows hashes (b, f) =
    Some (b\<lparr>thread_local_states := (thread_local_states b)[thread_id := st]\<rparr>,
          fold (Insert1 A masks) (take num_rows hashes) f)"
proof -
  define k where "k = min (log_num_prtns b) (log_num_blocks f - kLogBlocksKeptTogether)"
  define pid where "pid = (\<lambda>row_id. unat (drop_bit kPrtnIdBitOffset (hashes ! row_id) AND (of_nat (2 ^ k) - 1)))"
  define local_state where "local_state = thread_local_states b ! thread_id"
  define ids0 where "ids0 = resize (2 ^ k) 0 (unprocessed_partition_ids local_state)"
  let ?out = "map ((!) hashes) (sort_key pid [0..<num_rows])"
  have pid: "pid i < 2 ^ k" for i
    using unat_and_exp_minus_1 [of "drop_bit kPrtnIdBitOffset (hashes ! i)" k] by (simp add: pid_def)
  obtain ranges where ranges:
      "PartitionSort_Eval num_rows (2 ^ k) (resize (2 ^ k + 1) 0 (partition_ranges local_state)) pid
         (store_row ((!) hashes)) (resize num_rows 0 (partitioned_hashes_64 local_state)) = Some (ranges, ?out)"
      "\<And>p. p \<le> 2 ^ k \<Longrightarrow> unat (ranges ! p) = bucket_start pid num_rows p"
    using PartitionSort_Eval_spec [of num_rows pid "2 ^ k" "resize (2 ^ k + 1) 0 (partition_ranges local_state)"
        "resize num_rows 0 (partitioned_hashes_64 local_state)" "(!) hashes"] pid assms(3) by auto
  obtain n ids where ids: "fold (\<lambda>i (n, ids). if ranges ! (i + 1) = ranges ! i then (n, ids) else (Suc n, ids[n := i]))
      [0..<2 ^ k] (0, ids0) = (n, ids)" by fastforce
  have todo: "take n ids = filter (\<lambda>i. \<not> ranges ! (i + 1) = ranges ! i) [0..<2 ^ k]" "n \<le> length ids"
    using unprocessed_partitions [OF _ ids] by (simp_all add: ids0_def)
  have "unat (ranges ! p) \<le> unat (ranges ! (p + 1)) \<and> unat (ranges ! (p + 1)) \<le> length ?out"
    if "p \<in> set (take n ids)" for p
    using that ranges(2) [of p] ranges(2) [of "p + 1"] bucket_start_le [of pid num_rows "Suc p"]
    unfolding todo(1) by simp
  from prtn_loop_spec [OF assms(1) todo(2) this, of masks "hardware_flags b" f] obtain ps where
    ps: "mset ps = mset (take n ids)"
    "prtn_loop A masks (hardware_flags b) ranges ?out n ids f =
      fold (Insert1 A masks) (concat (map (prtn_slice ranges ?out) ps)) f" by blast
  have slice: "prtn_slice ranges ?out p = map ((!) hashes) (bucket pid num_rows p)" if "p < 2 ^ k" for p
    using prtn_slice_bucket [of num_rows pid "2 ^ k" ranges p "(!) hashes"] pid ranges(2) that by simp
  have set_ps: "set ps = {p. p < 2 ^ k \<and> bucket pid num_rows p \<noteq> []}"
  proof -
    have "ranges ! (p + 1) = ranges ! p \<longleftrightarrow> bucket pid num_rows p = []" if "p < 2 ^ k" for p
      using ranges(2) [of p] ranges(2) [of "Suc p"] that by (metis Suc_eq_plus1 Suc_leI bucket_start_Suc
          length_0_conv less_imp_le add_cancel_right_right unsigned_word_eqI)
    then show ?thesis using arg_cong [OF ps(1), of set_mset] unfolding todo(1) by auto
  qed
  have "set (concat (map (prtn_slice ranges ?out) ps)) = set (take num_rows hashes)"
  proof -
    have "set (concat (map (prtn_slice ranges ?out) ps)) = (\<Union>p\<in>set ps. (!) hashes ` set (bucket pid num_rows p))"
      using slice set_ps by auto
    also have "\<dots> = (!) hashes ` (\<Union>p\<in>set ps. set (bucket pid num_rows p))" by blast
    also have "(\<Union>p\<in>set ps. set (bucket pid num_rows p)) = {i. i < num_rows}"
      unfolding set_ps bucket_def using pid by (auto simp: filter_empty_conv Bex_def)
    also have "(!) hashes ` {i. i < num_rows} = set (take num_rows hashes)"
      using assms(2) by (auto simp: set_conv_nth image_def) (metis nth_take)
    finally show ?thesis .
  qed
  from fold_Insert1_cong [OF this, of A masks f] ps(2)
  have "prtn_loop A masks (hardware_flags b) ranges ?out n ids f = fold (Insert1 A masks) (take num_rows hashes) f"
    by simp
  then show ?thesis
    using assms(4) ranges(1) ids
    unfolding Parallel_PushNextBatch_def prod.case Let_def k_def [symmetric] local_state_def [symmetric]
      pid_def [symmetric] ids0_def [symmetric] by auto
qed

section \<open>The builder interface\<close>

text \<open>All batches of a build, one after the other.\<close>

definition push_all :: "(nat \<Rightarrow> u64 list \<Rightarrow> 's \<Rightarrow> 's option) \<Rightarrow> (nat \<times> u64 list) list \<Rightarrow> 's \<Rightarrow> 's option" where
  "push_all push = for_opt (\<lambda>(num_rows, hashes). push num_rows hashes)"

text \<open>
  What the callers of a builder rely on: a pushed batch is inserted into the target,
  and the builder stays usable.
\<close>

locale bloom_builder =
  fixes push :: "nat \<Rightarrow> u64 list \<Rightarrow> 's \<Rightarrow> 's option"
    and target :: "'s \<Rightarrow> BlockedBloomFilter"
    and ready :: "'s \<Rightarrow> bool"
    and ins :: "u64 \<Rightarrow> BlockedBloomFilter \<Rightarrow> BlockedBloomFilter"
  assumes push_inserts: "\<lbrakk>ready s; num_rows \<le> length hashes; num_rows < 2 ^ 16\<rbrakk> \<Longrightarrow>
    \<exists>s'. push num_rows hashes s = Some s' \<and> ready s' \<and> target s' = fold ins (take num_rows hashes) (target s)"
begin

lemma push_all_inserts:
  assumes "ready s" and "\<forall>(n, hs) \<in> set batches. n \<le> length hs \<and> n < 2 ^ 16"
  shows "\<exists>s'. push_all push batches s = Some s' \<and> ready s' \<and>
    target s' = fold ins (concat (map (\<lambda>(n, hs). take n hs) batches)) (target s)"
  using assms
proof (induction batches arbitrary: s)
  case Nil
  then show ?case by (simp add: push_all_def)
next
  case (Cons batch batches)
  obtain n hs where batch: "batch = (n, hs)" by fastforce
  obtain s1 where s1: "push n hs s = Some s1" "ready s1" "target s1 = fold ins (take n hs) (target s)"
    using push_inserts [of s n hs] Cons.prems batch by auto
  obtain s' where "push_all push batches s1 = Some s'" "ready s'"
      "target s' = fold ins (concat (map (\<lambda>(n, hs). take n hs) batches)) (target s1)"
    using Cons.IH [OF s1(2)] Cons.prems(2) by auto
  with s1 batch show ?case by (simp add: push_all_def)
qed

end

definition st_ready :: "'a arrow_lib_scheme \<Rightarrow> BloomFilterBuilder_SingleThreaded \<times> BlockedBloomFilter \<Rightarrow> bool" where
  "st_ready A s \<longleftrightarrow> arrow_rotl_ok A"

definition par_ready :: "'a arrow_lib_scheme \<Rightarrow> nat \<Rightarrow> BloomFilterBuilder_Parallel \<times> BlockedBloomFilter \<Rightarrow> bool" where
  "par_ready A thread_id s \<longleftrightarrow> arrow_rotl_ok A \<and> thread_id < length (thread_local_states (fst s))"

interpretation st: bloom_builder
  "\<lambda>num_rows hashes s. Some (SingleThreaded_PushNextBatch A masks num_rows hashes s)"
  snd "st_ready A" "Insert1 A masks" for A masks
  by unfold_locales (auto simp: SingleThreaded_PushNextBatch_def Insert_eq_fold st_ready_def)

interpretation par: bloom_builder
  "Parallel_PushNextBatch A masks thread_id" snd "par_ready A thread_id" "Insert1 A masks"
  for A masks thread_id
proof (unfold_locales, goal_cases)
  case (1 s num_rows hashes)
  then show ?case
    using Parallel_PushNextBatch_spec [of A num_rows hashes thread_id "fst s" masks "snd s"]
    by (auto simp: par_ready_def)
qed

section \<open>Concurrent updates\<close>

text \<open>
  Several threads push batches into one filter. The updates are atomic \<open>fetch_or\<close>
  operations on a block; a state has the updates each thread has still to do and the
  blocks, and a step executes the next update of some thread.
\<close>

definition fetch_or :: "nat \<times> u64 \<Rightarrow> u64 list \<Rightarrow> u64 list" where
  "fetch_or upd bs = (case upd of (b, m) \<Rightarrow> bs[b := bs ! b OR m])"

definition insert_update :: "'a arrow_lib_scheme \<Rightarrow> u8 list \<Rightarrow> BlockedBloomFilter \<Rightarrow> u64 \<Rightarrow> nat \<times> u64" where
  "insert_update A masks f hash = (block_id f hash, bloom_mask A masks hash)"

type_synonym builders = "(nat \<times> u64) list list \<times> u64 list"

inductive update_step :: "builders \<Rightarrow> builders \<Rightarrow> bool" where
  update: "\<lbrakk>t < length ths; ths ! t = upd # upds\<rbrakk> \<Longrightarrow>
     update_step (ths, bs) (ths[t := upds], fetch_or upd bs)"

inductive_cases update_stepE: "update_step (ths, bs) s'"

lemma blocks_fold_Insert1:
  "blocks (fold (Insert1 A masks) hs f) = fold fetch_or (map (insert_update A masks f) hs) (blocks f)"
proof (induction hs arbitrary: f)
  case (Cons h hs)
  have "insert_update A masks (Insert1 A masks h f) = insert_update A masks f"
    by (simp add: fun_eq_iff insert_update_def)
  then show ?case using Cons [of "Insert1 A masks h f"]
    by (simp add: insert_update_def fetch_or_def Insert1_def Let_def)
qed simp

lemma fetch_or_commute: "fetch_or u \<circ> fetch_or v = fetch_or v \<circ> fetch_or u"
proof (rule ext)
  fix bs
  obtain a m b n where uv: "u = (a, m)" "v = (b, n)" by fastforce
  show "(fetch_or u \<circ> fetch_or v) bs = (fetch_or v \<circ> fetch_or u) bs"
  proof (cases "a = b")
    case True
    then show ?thesis
      by (cases "a < length bs") (simp_all add: uv fetch_or_def or.assoc or.commute or.left_commute
          list_update_beyond)
  next
    case False
    then show ?thesis by (simp add: uv fetch_or_def list_update_swap)
  qed
qed

lemma update_step_invariant:
  assumes "update_step s s'"
  shows "fold fetch_or (concat (fst s')) (snd s') = fold fetch_or (concat (fst s)) (snd s)"
  using assms
proof cases
  case (update t ths upd upds bs)
  have "mset (concat ths) = mset (upd # concat (ths[t := upds]))"
  proof -
    have "ths = take t ths @ (upd # upds) # drop (Suc t) ths"
      using update(3,4) by (metis id_take_nth_drop)
    moreover have "ths[t := upds] = take t ths @ upds # drop (Suc t) ths"
      using update(3) by (rule upd_conv_take_nth_drop)
    ultimately show ?thesis by (metis (no_types, lifting) concat.simps(2) concat_append mset_append
        append_Cons mset.simps(2) union_mset_add_mset_right)
  qed
  then have "fold fetch_or (concat ths) = fold fetch_or (upd # concat (ths[t := upds]))"
    by (rule fold_multiset_equiv [rotated]) (rule fetch_or_commute)
  then show ?thesis using update(1,2) by simp
qed

lemma update_steps_invariant:
  "update_step\<^sup>*\<^sup>* s s' \<Longrightarrow> fold fetch_or (concat (fst s')) (snd s') = fold fetch_or (concat (fst s)) (snd s)"
  by (induction rule: rtranclp_induct) (simp_all add: update_step_invariant)

lemma update_step_progress:
  assumes "concat ths \<noteq> []"
  shows "\<exists>s'. update_step (ths, bs) s'"
proof -
  obtain t where "t < length ths" "ths ! t \<noteq> []" using assms by (auto simp: in_set_conv_nth)
  then show ?thesis by (metis update neq_Nil_conv)
qed

lemma update_step_measure:
  "update_step s s' \<Longrightarrow> length (concat (fst s)) = Suc (length (concat (fst s')))"
proof (induction rule: update_step.induct)
  case (update t ths upd upds bs)
  have "ths = take t ths @ (upd # upds) # drop (Suc t) ths"
    using update by (metis id_take_nth_drop)
  then have "length (concat ths) = Suc (length (concat (take t ths @ upds # drop (Suc t) ths)))"
    by (metis (no_types, lifting) add_Suc_right append_Cons concat.simps(2) concat_append length_Cons length_append)
  then show ?case using update(1) by (simp add: upd_conv_take_nth_drop)
qed

lemma update_steps_count:
  "(update_step ^^ n) s s' \<Longrightarrow> length (concat (fst s)) = n + length (concat (fst s'))"
proof (induction n arbitrary: s')
  case (Suc n)
  then obtain u where "(update_step ^^ n) s u" "update_step u s'" by auto
  then show ?case using Suc.IH [of u] update_step_measure [of u s'] by simp
qed simp

section \<open>Claims\<close>


definition two_threads :: BloomFilterBuilder_Parallel where
  "two_threads = fst (snd (Parallel_Begin arrow_ref 2 1 64
     \<lparr>total_row_nums = 0, hardware_flags = 0, log_num_prtns = 0, thread_local_states = [],
      prtn_locks = PartitionLocks_new\<rparr> BlockedBloomFilter_new))"


text \<open>
  C11. Several threads insert concurrently into one filter. In every interleaving of
  their atomic updates some thread can go on until all updates are done, which takes
  exactly one step per inserted hash; and the filter left at the end is, whatever the
  interleaving, the one a single thread would have built.
\<close>

theorem concurrent_build_correct:
  assumes "(update_step ^^ n) (map (map (insert_update A masks f)) hss, blocks f) (ths, bs)"
  shows "n \<le> length (concat hss) \<and>
    (n < length (concat hss) \<longrightarrow> (\<exists>s'. update_step (ths, bs) s')) \<and>
    (n = length (concat hss) \<longrightarrow> f\<lparr>blocks := bs\<rparr> = fold (Insert1 A masks) (concat hss) f)"
proof -
  have count: "length (concat hss) = n + length (concat ths)"
    using update_steps_count [OF assms] by (simp add: map_concat [symmetric])
  have inv: "fold fetch_or (concat ths) bs = blocks (fold (Insert1 A masks) (concat hss) f)"
    using update_steps_invariant [OF relpowp_imp_rtranclp [OF assms]]
    by (simp add: blocks_fold_Insert1 map_concat)
  show ?thesis
  proof (intro conjI impI)
    show "n \<le> length (concat hss)" using count by simp
    show "\<exists>s'. update_step (ths, bs) s'" if "n < length (concat hss)"
      using that count by (intro update_step_progress) auto
    assume "n = length (concat hss)"
    then have "length (concat ths) = 0" using count by simp
    then have "concat ths = []" by (simp only: length_0_conv)
    then have "bs = blocks (fold (Insert1 A masks) (concat hss) f)" using inv by (simp only: fold_simps)
    then show "f\<lparr>blocks := bs\<rparr> = fold (Insert1 A masks) (concat hss) f"
      by (metis fold_Insert1_frame)
  qed
qed

theorem concurrent_build_correct_witness:
  "\<exists>ths bs. (update_step ^^ 2)
      (map (map (insert_update arrow_ref (replicate 136 85) eight_blocks)) [[1], [2]], blocks eight_blocks) (ths, bs) \<and>
    eight_blocks\<lparr>blocks := bs\<rparr> = fold (Insert1 arrow_ref (replicate 136 85)) [1, 2] eight_blocks"
proof -
  let ?u = "insert_update arrow_ref (replicate 136 85) eight_blocks"
  let ?b1 = "fetch_or (?u 2) (blocks eight_blocks)"
  have "update_step (map (map ?u) [[1], [2]], blocks eight_blocks) ([[?u 1], []], ?b1)"
    using update [of 1 "[[?u 1], [?u 2]]" "?u 2" "[]" "blocks eight_blocks"] by simp
  moreover have "update_step ([[?u 1], []], ?b1) ([[], []], fetch_or (?u 1) ?b1)"
    using update [of 0 "[[?u 1], []]" "?u 1" "[]" ?b1] by simp
  ultimately have "(update_step ^^ 2) (map (map ?u) [[1], [2]], blocks eight_blocks)
      ([[], []], fetch_or (?u 1) ?b1)" by (auto simp: numeral_2_eq_2)
  then show ?thesis
    using concurrent_build_correct [of 2 arrow_ref "replicate 136 85" eight_blocks "[[1], [2]]"] by fastforce
qed

end
