(* ===== verification/Logical_Plan.thy ===== *)
theory Logical_Plan
  imports PT_Prelude
begin

text \<open>
  Logical plans as predicate transfer sees them: the operator types, expressions and
  join conditions (the enums and classes under common/enums and planner), and the
  accessors the optimizer calls. An operator has an identity \<open>op_id\<close> that stands for
  its address; the plan itself is a tree.
\<close>

section \<open>Column bindings and expressions\<close>

datatype ExpressionType = COMPARE_EQUAL | COMPARE_NOTEQUAL | COMPARE_LESSTHAN | COMPARE_GREATERTHAN
  | COMPARE_LESSTHANOREQUALTO | COMPARE_GREATERTHANOREQUALTO | COMPARE_IN | COMPARE_NOT_IN
  | COMPARE_DISTINCT_FROM | COMPARE_BETWEEN | COMPARE_NOT_BETWEEN | COMPARE_NOT_DISTINCT_FROM

text \<open>
  Bound expressions: column references, comparisons, negations, and any other
  expression by a tag and its children.
\<close>

datatype Expression =
    BoundColumnRef ColumnBinding
  | BoundComparison ExpressionType Expression Expression
  | BoundOperator_NOT "Expression list"
  | BoundOther nat "Expression list"

fun is_colref :: "Expression \<Rightarrow> bool" where
  "is_colref (BoundColumnRef b) = True"
| "is_colref _ = False"

text \<open>The binding of a column reference, and the default binding otherwise.\<close>

definition INVALID_INDEX :: nat where "INVALID_INDEX = 2 ^ 64 - 1"

fun colref_binding :: "Expression \<Rightarrow> ColumnBinding" where
  "colref_binding (BoundColumnRef b) = b"
| "colref_binding _ = \<lparr>table_index = INVALID_INDEX, column_index = INVALID_INDEX\<rparr>"

text \<open>The column references of an expression, from left to right.\<close>

fun GetColumnBindingExpression :: "Expression \<Rightarrow> ColumnBinding list" where
  "GetColumnBindingExpression (BoundColumnRef b) = [b]"
| "GetColumnBindingExpression (BoundComparison t l r) =
     GetColumnBindingExpression l @ GetColumnBindingExpression r"
| "GetColumnBindingExpression (BoundOperator_NOT es) = concat (map GetColumnBindingExpression es)"
| "GetColumnBindingExpression (BoundOther k es) = concat (map GetColumnBindingExpression es)"

section \<open>Operators\<close>

datatype LogicalOperatorType =
    LOGICAL_INVALID | LOGICAL_PROJECTION | LOGICAL_FILTER | LOGICAL_AGGREGATE_AND_GROUP_BY | LOGICAL_WINDOW
  | LOGICAL_UNNEST | LOGICAL_LIMIT | LOGICAL_ORDER_BY | LOGICAL_TOP_N | LOGICAL_COPY_TO_FILE | LOGICAL_DISTINCT
  | LOGICAL_SAMPLE | LOGICAL_LIMIT_PERCENT | LOGICAL_PIVOT | LOGICAL_COPY_DATABASE | LOGICAL_GET
  | LOGICAL_CHUNK_GET | LOGICAL_DELIM_GET | LOGICAL_EXPRESSION_GET | LOGICAL_DUMMY_SCAN | LOGICAL_EMPTY_RESULT
  | LOGICAL_CTE_REF | LOGICAL_JOIN | LOGICAL_DELIM_JOIN | LOGICAL_COMPARISON_JOIN | LOGICAL_ANY_JOIN
  | LOGICAL_CROSS_PRODUCT | LOGICAL_POSITIONAL_JOIN | LOGICAL_ASOF_JOIN | LOGICAL_DEPENDENT_JOIN | LOGICAL_UNION
  | LOGICAL_EXCEPT | LOGICAL_INTERSECT | LOGICAL_RECURSIVE_CTE | LOGICAL_MATERIALIZED_CTE | LOGICAL_INSERT
  | LOGICAL_DELETE | LOGICAL_UPDATE | LOGICAL_ALTER | LOGICAL_CREATE_TABLE | LOGICAL_CREATE_INDEX
  | LOGICAL_CREATE_SEQUENCE | LOGICAL_CREATE_VIEW | LOGICAL_CREATE_SCHEMA | LOGICAL_CREATE_MACRO | LOGICAL_DROP
  | LOGICAL_PRAGMA | LOGICAL_TRANSACTION | LOGICAL_CREATE_TYPE | LOGICAL_ATTACH | LOGICAL_DETACH
  | LOGICAL_EXPLAIN | LOGICAL_PREPARE | LOGICAL_EXECUTE | LOGICAL_EXPORT | LOGICAL_VACUUM | LOGICAL_SET
  | LOGICAL_LOAD | LOGICAL_RESET | LOGICAL_CREATE_SECRET | LOGICAL_CREATE_BF | LOGICAL_USE_BF
  | LOGICAL_CREATE_TABLE_BF | LOGICAL_EXTENSION_OPERATOR

datatype JoinType = JT_INVALID | JT_LEFT | JT_RIGHT | JT_INNER | JT_OUTER | JT_SEMI | JT_ANTI | JT_MARK
  | JT_SINGLE | JT_RIGHT_SEMI | JT_RIGHT_ANTI

record JoinCondition =
  cond_left :: Expression
  cond_right :: Expression
  cond_comparison :: ExpressionType

text \<open>
  The members of an operator; those of other classes than its own are not read. The
  Bloom filters of the last three members are named by their handles, related
  operators by their identities.
\<close>

record op_info =
  op_id :: nat
  op_type :: LogicalOperatorType
  expressions :: "Expression list"
  table_idx :: nat
  group_index :: nat
  aggregate_index :: nat
  groupings_index :: nat
  groups :: "Expression list"
  num_grouping_sets :: nat
  join_type :: JoinType
  conditions :: "JoinCondition list"
  bf_to_create :: "nat list"
  bf_to_use :: "nat list"
  related_create_bf :: "nat list"

datatype LogicalOperator = Op (op_of: op_info) (children: "LogicalOperator list")

text \<open>All operators of a plan, the root first.\<close>

fun operators :: "LogicalOperator \<Rightarrow> LogicalOperator list" where
  "operators (Op info cs) = Op info cs # concat (map operators cs)"

lemma size_child_le: "i < length cs \<Longrightarrow> size (cs ! i) \<le> size_list size cs"
  by (rule size_list_estimation' [OF nth_mem order.refl])

lemma size_member_le: "c \<in> set cs \<Longrightarrow> size c \<le> size_list size cs"
  by (rule size_list_estimation' [OF _ order.refl])

lemma children_induct [case_names Op]:
  assumes "\<And>info cs. (\<And>c. c \<in> set cs \<Longrightarrow> P c) \<Longrightarrow> P (Op info cs)"
  shows "P plan"
  using assms by (induction plan) auto

section \<open>Accessors\<close>

definition GetTableIndex :: "LogicalOperator \<Rightarrow> nat list" where
  "GetTableIndex op =
     (let info = op_of op
      in case op_type info of
           LOGICAL_AGGREGATE_AND_GROUP_BY \<Rightarrow>
             [group_index info, aggregate_index info] @
             (if groupings_index info \<noteq> INVALID_INDEX then [groupings_index info] else [])
         | LOGICAL_GET \<Rightarrow> [table_idx info]
         | LOGICAL_DELIM_GET \<Rightarrow> [table_idx info]
         | LOGICAL_CHUNK_GET \<Rightarrow> [table_idx info]
         | LOGICAL_EXPRESSION_GET \<Rightarrow> [table_idx info]
         | LOGICAL_DUMMY_SCAN \<Rightarrow> [table_idx info]
         | LOGICAL_CTE_REF \<Rightarrow> [table_idx info]
         | LOGICAL_PROJECTION \<Rightarrow> [table_idx info]
         | LOGICAL_WINDOW \<Rightarrow> [table_idx info]
         | LOGICAL_UNNEST \<Rightarrow> [table_idx info]
         | LOGICAL_PIVOT \<Rightarrow> [table_idx info]
         | LOGICAL_UNION \<Rightarrow> [table_idx info]
         | LOGICAL_EXCEPT \<Rightarrow> [table_idx info]
         | LOGICAL_INTERSECT \<Rightarrow> [table_idx info]
         | LOGICAL_RECURSIVE_CTE \<Rightarrow> [table_idx info]
         | LOGICAL_MATERIALIZED_CTE \<Rightarrow> [table_idx info]
         | LOGICAL_INSERT \<Rightarrow> [table_idx info]
         | LOGICAL_DELETE \<Rightarrow> [table_idx info]
         | _ \<Rightarrow> [])"

definition AddChild :: "LogicalOperator \<Rightarrow> LogicalOperator \<Rightarrow> LogicalOperator" where
  "AddChild child op = Op (op_of op) (children op @ [child])"

end
