(* ===== verification/Nodes_Manager.thy ===== *)
theory Nodes_Manager
  imports Logical_Plan
begin

text \<open>
  \<open>class NodesManager\<close> (nodes_manager.hpp, nodes_manager.cpp): the vertices of the
  join graph are collected from the plan, together with the renaming of columns by
  projections and aggregates, and sorted by cardinality.

  The parameter \<open>E\<close> gives what \<open>EstimateCardinality\<close> returns for an operator, which
  depends on statistics outside the model; the member \<open>estimated_cardinality\<close> the
  code writes is the map \<open>card_of\<close> from operator identities. The order in which a hash
  map is iterated is a function from its set of keys to a list.
\<close>

section \<open>State\<close>

record NodesManager =
  nodes :: "nat \<rightharpoonup> LogicalOperator"
  duplicate_nodes :: "nat \<rightharpoonup> LogicalOperator"
  sort_nodes :: "LogicalOperator list"
  rename_cols :: "ColumnBinding \<rightharpoonup> ColumnBinding"
  card_of :: "nat \<Rightarrow> nat"
  can_add_mark :: bool

definition NodesManager_new :: NodesManager where
  "NodesManager_new = \<lparr>nodes = Map.empty, duplicate_nodes = Map.empty, sort_nodes = [],
     rename_cols = Map.empty, card_of = (\<lambda>_. 0), can_add_mark = True\<rparr>"

definition NumNodes :: "NodesManager \<Rightarrow> nat" where
  "NumNodes m = card (dom (nodes m))"

definition getNode :: "nat \<Rightarrow> NodesManager \<Rightarrow> LogicalOperator option" where
  "getNode table_binding m = nodes m table_binding"

definition EraseNode :: "nat \<Rightarrow> NodesManager \<Rightarrow> NodesManager" where
  "EraseNode key m = m\<lparr>nodes := (nodes m)(key := None)\<rparr>"

definition DuplicateNodes :: "NodesManager \<Rightarrow> NodesManager" where
  "DuplicateNodes m = m\<lparr>duplicate_nodes := nodes m\<rparr>"

definition RecoverNodes :: "NodesManager \<Rightarrow> NodesManager" where
  "RecoverNodes m = m\<lparr>nodes := duplicate_nodes m\<rparr>"

section \<open>Identification of nodes\<close>

text \<open>\<open>None\<close>: the cast to \<open>LogicalGet\<close> throws, or there is no such child or index.\<close>

definition cast_get_index :: "LogicalOperator \<Rightarrow> nat option" where
  "cast_get_index op = (if op_type (op_of op) = LOGICAL_GET then Some (GetTableIndex op ! 0) else None)"

definition GetTableIndexinFilter :: "LogicalOperator \<Rightarrow> nat option" where
  "GetTableIndexinFilter op =
     (case children op of
        [] \<Rightarrow> None
      | c # _ \<Rightarrow>
          if op_type (op_of c) = LOGICAL_GET then cast_get_index c
          else if op_type (op_of c) = LOGICAL_COMPARISON_JOIN then
            (case children c of [] \<Rightarrow> None | g # _ \<Rightarrow> cast_get_index g)
          else if op_type (op_of c) = LOGICAL_AGGREGATE_AND_GROUP_BY then Some (GetTableIndex c ! 0)
          else cast_get_index op)"

text \<open>The \<open>switch\<close> that finds the table of a node, and the types it handles.\<close>

definition table_node_types :: "LogicalOperatorType list" where
  "table_node_types = [LOGICAL_GET, LOGICAL_DELIM_GET, LOGICAL_PROJECTION, LOGICAL_UNION, LOGICAL_EXCEPT,
     LOGICAL_INTERSECT]"

definition node_types :: "LogicalOperatorType list" where
  "node_types = table_node_types @ [LOGICAL_FILTER, LOGICAL_AGGREGATE_AND_GROUP_BY]"

definition op_node_id :: "LogicalOperator \<Rightarrow> nat option" where
  "op_node_id op =
     (if op_type (op_of op) \<in> set table_node_types then Some (GetTableIndex op ! 0)
      else if op_type (op_of op) = LOGICAL_FILTER then GetTableIndexinFilter op
      else if op_type (op_of op) = LOGICAL_AGGREGATE_AND_GROUP_BY then Some (GetTableIndex op ! 1)
      else None)"

definition AddNode :: "(LogicalOperator \<Rightarrow> nat) \<Rightarrow> LogicalOperator \<Rightarrow> NodesManager \<Rightarrow> NodesManager option" where
  "AddNode E op m =
     (let m1 = m\<lparr>card_of := (card_of m)(op_id (op_of op) := E op)\<rparr>
      in if op_type (op_of op) \<in> set node_types then
           (case op_node_id op of
              None \<Rightarrow> None
            | Some k \<Rightarrow> Some (if nodes m1 k = None then m1\<lparr>nodes := (nodes m1)(k \<mapsto> op)\<rparr> else m1))
         else Some m1)"

section \<open>Renamed columns\<close>

partial_function (option) follow_rename ::
  "(ColumnBinding \<rightharpoonup> ColumnBinding) \<Rightarrow> ColumnBinding \<Rightarrow> ColumnBinding option" where
  "follow_rename r res = (case r res of None \<Rightarrow> Some res | Some res' \<Rightarrow> follow_rename r res')"

definition FindRename :: "NodesManager \<Rightarrow> ColumnBinding \<Rightarrow> ColumnBinding option" where
  "FindRename m col =
     (case rename_cols m col of None \<Rightarrow> Some col | Some res \<Rightarrow> follow_rename (rename_cols m) res)"

text \<open>The columns of table \<open>t\<close> that just pass on a column, first come first served.\<close>

definition insert_rename :: "nat \<Rightarrow> nat \<times> Expression \<Rightarrow> NodesManager \<Rightarrow> NodesManager" where
  "insert_rename t ie m =
     (case ie of (i, expr) \<Rightarrow>
        if is_colref expr then
          let key = \<lparr>table_index = t, column_index = i\<rparr>
          in if rename_cols m key = None
             then m\<lparr>rename_cols := (rename_cols m)(key \<mapsto> colref_binding expr)\<rparr> else m
        else m)"

section \<open>Sorting\<close>

definition SortNodes :: "(nat set \<Rightarrow> nat list) \<Rightarrow> NodesManager \<Rightarrow> NodesManager" where
  "SortNodes order m =
     m\<lparr>sort_nodes := sort_key (\<lambda>op. card_of m (op_id (op_of op)))
         (sort_nodes m @ map (\<lambda>k. the (nodes m k)) (order (dom (nodes m))))\<rparr>"

definition ReSortNodes :: "(nat set \<Rightarrow> nat list) \<Rightarrow> NodesManager \<Rightarrow> NodesManager" where
  "ReSortNodes order m =
     (let m1 = m\<lparr>sort_nodes := []\<rparr>
      in m1\<lparr>sort_nodes := sort_key (\<lambda>op. card_of m1 (op_id (op_of op)))
           (map (\<lambda>k. the (nodes m1 k)) (order (dom (nodes m1))))\<rparr>)"

section \<open>Extraction\<close>

definition OperatorNeedsRelation :: "LogicalOperatorType \<Rightarrow> bool" where
  "OperatorNeedsRelation t \<longleftrightarrow>
     t \<in> set [LOGICAL_PROJECTION, LOGICAL_EXPRESSION_GET, LOGICAL_GET, LOGICAL_DELIM_GET,
              LOGICAL_AGGREGATE_AND_GROUP_BY, LOGICAL_WINDOW]"

definition has_equality :: "op_info \<Rightarrow> bool" where
  "has_equality join \<longleftrightarrow>
     list_ex (\<lambda>jc. cond_comparison jc = COMPARE_EQUAL \<and> is_colref (cond_left jc) \<and> is_colref (cond_right jc))
       (conditions join)"

type_synonym extraction = "NodesManager \<times> LogicalOperator list"

text \<open>A join contributes edges when its type allows it and it compares two columns.\<close>

definition add_filter_operator :: "LogicalOperator \<Rightarrow> extraction \<Rightarrow> extraction" where
  "add_filter_operator op s =
     (case s of (m, filter_operators) \<Rightarrow>
        let join = op_of op;
            m' = m\<lparr>can_add_mark := True\<rparr>
        in if join_type join \<in> set [JT_INNER, JT_LEFT, JT_RIGHT, JT_SEMI, JT_RIGHT_SEMI]
           then (m', if has_equality join then filter_operators @ [op] else filter_operators)
           else if join_type join = JT_MARK \<and> can_add_mark m
           then (m', if has_equality join then filter_operators @ [op] else filter_operators)
           else (m', filter_operators))"

fun is_not :: "Expression \<Rightarrow> bool" where
  "is_not (BoundOperator_NOT es) = True"
| "is_not _ = False"

lemma for_opt_cong [fundef_cong]:
  "\<lbrakk>xs = ys; s = t; \<And>x u. x \<in> set ys \<Longrightarrow> f x u = g x u\<rbrakk> \<Longrightarrow> for_opt f xs s = for_opt g ys t"
  by (induction xs arbitrary: ys s t) (auto split: option.splits)

definition join_types :: "LogicalOperatorType list" where
  "join_types = [LOGICAL_COMPARISON_JOIN, LOGICAL_DELIM_JOIN]"

definition two_child_types :: "LogicalOperatorType list" where
  "two_child_types = [LOGICAL_COMPARISON_JOIN, LOGICAL_DELIM_JOIN, LOGICAL_CROSS_PRODUCT, LOGICAL_ANY_JOIN,
     LOGICAL_ASOF_JOIN]"

definition set_op_types :: "LogicalOperatorType list" where
  "set_op_types = [LOGICAL_UNION, LOGICAL_EXCEPT, LOGICAL_INTERSECT]"

definition leaf_types :: "LogicalOperatorType list" where
  "leaf_types = [LOGICAL_DUMMY_SCAN, LOGICAL_EXPRESSION_GET, LOGICAL_GET, LOGICAL_DELIM_GET,
     LOGICAL_EMPTY_RESULT]"

definition add_node :: "(LogicalOperator \<Rightarrow> nat) \<Rightarrow> LogicalOperator \<Rightarrow> extraction \<Rightarrow> extraction option" where
  "add_node E op s = map_option (\<lambda>m. (m, snd s)) (AddNode E op (fst s))"

definition rename_outputs :: "nat \<Rightarrow> Expression list \<Rightarrow> extraction \<Rightarrow> extraction" where
  "rename_outputs t es s = (fold (insert_rename t) (enumerate 0 es) (fst s), snd s)"

text \<open>
  \<open>ExtractNodes\<close>. The first test is the loop over operators with a single child: going
  on with the child is the recursive call.
\<close>

function ExtractNodes :: "(LogicalOperator \<Rightarrow> nat) \<Rightarrow> LogicalOperator \<Rightarrow> extraction \<Rightarrow> extraction option" where
  "ExtractNodes E (Op info cs) s =
     (let op = Op info cs; t = op_type info in
      if length cs = 1 \<and> \<not> OperatorNeedsRelation t then
        (if t = LOGICAL_FILTER then
           (if op_type (op_of (cs ! 0)) = LOGICAL_GET then add_node E op s
            else if expressions info = [] then None
            else if is_not (expressions info ! 0) \<and> op_type (op_of (cs ! 0)) = LOGICAL_COMPARISON_JOIN
            then ExtractNodes E (cs ! 0) ((fst s)\<lparr>can_add_mark := False\<rparr>, snd s)
            else ExtractNodes E (cs ! 0) ((fst s)\<lparr>can_add_mark := True\<rparr>, snd s))
         else ExtractNodes E (cs ! 0) s)
      else
        let s1 = (if t \<in> set join_types then add_filter_operator op s else s) in
        if t = LOGICAL_AGGREGATE_AND_GROUP_BY then
          (if groups info = [] \<and> num_grouping_sets info \<le> 1 then
             (if cs = [] then None
              else case ExtractNodes E (cs ! 0) s1 of None \<Rightarrow> None | Some s2 \<Rightarrow> add_node E op s2)
           else if cs = [] then None
           else ExtractNodes E (cs ! 0) (rename_outputs (group_index info) (groups info) s1))
        else if t = LOGICAL_WINDOW then
          (case add_node E op s1 of
             None \<Rightarrow> None
           | Some s2 \<Rightarrow> if cs = [] then None else ExtractNodes E (cs ! 0) s2)
        else if t \<in> set two_child_types then
          (if length cs < 2 then None
           else case ExtractNodes E (cs ! 0) s1 of None \<Rightarrow> None | Some s2 \<Rightarrow> ExtractNodes E (cs ! 1) s2)
        else if t \<in> set leaf_types then add_node E op s1
        else if t = LOGICAL_PROJECTION then
          (if cs = [] then None
           else ExtractNodes E (cs ! 0) (rename_outputs (table_idx info) (expressions info) s1))
        else if t \<in> set set_op_types then
          (case add_node E op s1 of
             None \<Rightarrow> None
           | Some s2 \<Rightarrow>
               if length cs < 2 then None
               else case ExtractNodes E (cs ! 0) s2 of None \<Rightarrow> None | Some s3 \<Rightarrow> ExtractNodes E (cs ! 1) s3)
        else for_opt (\<lambda>c. ExtractNodes E c) cs s1)"
  by pat_completeness auto
termination
  by (relation "measure (\<lambda>(E, op, s). size op)") (auto simp: not_less less_Suc_eq_le intro!: size_child_le intro: size_member_le)

declare ExtractNodes.simps [simp del]

section \<open>The effects of an extraction\<close>

text \<open>
  The elementary effects of \<open>ExtractNodes\<close>, each for some operator of the plan. Every
  extraction is a sequence of them, so an invariant of each is one of the extraction.
\<close>

inductive extract_step :: "(LogicalOperator \<Rightarrow> nat) \<Rightarrow> LogicalOperator \<Rightarrow> extraction \<Rightarrow> extraction \<Rightarrow> bool"
  for E plan where
  node: "\<lbrakk>op \<in> set (operators plan); add_node E op s = Some s'\<rbrakk> \<Longrightarrow> extract_step E plan s s'"
| join: "\<lbrakk>op \<in> set (operators plan); op_type (op_of op) \<in> set join_types\<rbrakk> \<Longrightarrow>
    extract_step E plan s (add_filter_operator op s)"
| mark: "extract_step E plan s ((fst s)\<lparr>can_add_mark := b\<rparr>, snd s)"
| projection: "\<lbrakk>op \<in> set (operators plan); op_type (op_of op) = LOGICAL_PROJECTION\<rbrakk> \<Longrightarrow>
    extract_step E plan s (rename_outputs (table_idx (op_of op)) (expressions (op_of op)) s)"
| aggregate: "\<lbrakk>op \<in> set (operators plan); op_type (op_of op) = LOGICAL_AGGREGATE_AND_GROUP_BY\<rbrakk> \<Longrightarrow>
    extract_step E plan s (rename_outputs (group_index (op_of op)) (groups (op_of op)) s)"

lemma operators_child: "c \<in> set cs \<Longrightarrow> set (operators c) \<subseteq> set (operators (Op info cs))"
  by auto

lemma operators_self [simp]: "plan \<in> set (operators plan)"
  by (cases plan) simp

lemma extract_step_mono:
  assumes "set (operators c) \<subseteq> set (operators plan)" and "extract_step E c s s'"
  shows "extract_step E plan s s'"
  using assms(2,1) by (induction rule: extract_step.induct) (auto intro: extract_step.intros)

lemma extract_steps_mono:
  assumes "set (operators c) \<subseteq> set (operators plan)" and "(extract_step E c)\<^sup>*\<^sup>* s s'"
  shows "(extract_step E plan)\<^sup>*\<^sup>* s s'"
  using assms(2)
  by (induction rule: rtranclp_induct) (auto intro: rtranclp.rtrancl_into_rtrancl extract_step_mono [OF assms(1)])

lemma for_opt_steps:
  assumes "for_opt f xs s = Some s'" and "\<And>x s s'. \<lbrakk>x \<in> set xs; f x s = Some s'\<rbrakk> \<Longrightarrow> R\<^sup>*\<^sup>* s s'"
  shows "R\<^sup>*\<^sup>* s s'"
  using assms
proof (induction xs arbitrary: s)
  case (Cons x xs)
  then obtain s1 where "f x s = Some s1" "for_opt f xs s1 = Some s'" by (auto split: option.splits)
  then show ?case using Cons by (meson list.set_intros rtranclp_trans)
qed simp

lemma ExtractNodes_steps:
  "ExtractNodes E plan s = Some s' \<Longrightarrow> (extract_step E plan)\<^sup>*\<^sup>* s s'"
proof (induction plan arbitrary: s s' rule: children_induct)
  case (Op info cs)
  let ?op = "Op info cs"
  let ?R = "(extract_step E ?op)\<^sup>*\<^sup>*"
  let ?t = "op_type info"
  have member: "?R s s'" if "c \<in> set cs" "ExtractNodes E c s = Some s'" for c s s'
    by (rule extract_steps_mono [OF operators_child [OF that(1)] Op.IH [OF that]])
  have child: "?R s s'" if "i < length cs" "ExtractNodes E (cs ! i) s = Some s'" for i s s'
    by (rule member [OF nth_mem [OF that(1)] that(2)])
  have two: "?R s s'" if "\<not> length cs < 2" "ExtractNodes E (cs ! 0) s = Some s2"
      "ExtractNodes E (cs ! Suc 0) s2 = Some s'" for s s2 s'
    using child [of 0 s s2] child [of "Suc 0" s2 s'] that by (force intro: rtranclp_trans)
  have node: "?R s s'" if "add_node E ?op s = Some s'" for s s'
    using that by (intro r_into_rtranclp extract_step.node) auto
  have mark: "?R s s'" if "ExtractNodes E (cs ! 0) ((fst s)\<lparr>can_add_mark := b\<rparr>, snd s) = Some s'"
      "0 < length cs" for b s s'
    using converse_rtranclp_into_rtranclp [of "extract_step E ?op", OF extract_step.mark child [OF that(2,1)]] .
  define s1 where "s1 = (if ?t \<in> set join_types then add_filter_operator ?op s else s)"
  have s1: "?R s s1"
    using extract_step.join [of ?op ?op E s] by (auto simp: s1_def simp del: operators.simps)
  have agg: "?R s s'" if "?t = LOGICAL_AGGREGATE_AND_GROUP_BY"
      "?R (rename_outputs (group_index info) (groups info) s) s'" for s s'
    using extract_step.aggregate [of ?op ?op E s] that
    by (auto simp del: operators.simps intro: converse_rtranclp_into_rtranclp)
  have proj: "?R s s'" if "?t = LOGICAL_PROJECTION"
      "?R (rename_outputs (table_idx info) (expressions info) s) s'" for s s'
    using extract_step.projection [of ?op ?op E s] that
    by (auto simp del: operators.simps intro: converse_rtranclp_into_rtranclp)
  note trans = rtranclp_trans [of "extract_step E ?op"]
  show ?case
  proof (cases "length cs = 1 \<and> \<not> OperatorNeedsRelation ?t")
    case True
    then show ?thesis
      using Op.prems by (auto simp: ExtractNodes.simps split: if_splits intro: node mark child)
  next
    case False
    have "?R s1 s'"
      using Op.prems False unfolding ExtractNodes.simps Let_def s1_def [symmetric]
      by (auto split: if_splits option.splits
          intro: node child agg proj two trans [OF node child] trans [OF child node] trans [OF node two]
            for_opt_steps [OF _ member])
    with s1 show ?thesis by (rule trans)
  qed
qed

section \<open>Invariants\<close>

text \<open>Every vertex is an operator of the plan, registered under its own table.\<close>

definition nodes_inv :: "LogicalOperator \<Rightarrow> NodesManager \<Rightarrow> bool" where
  "nodes_inv plan m \<longleftrightarrow> finite (dom (nodes m)) \<and>
     (\<forall>k op. nodes m k = Some op \<longrightarrow>
        op \<in> set (operators plan) \<and> op_type (op_of op) \<in> set node_types \<and> op_node_id op = Some k)"

text \<open>Every operator that contributes edges is a join of the plan that compares two columns.\<close>

definition edge_join_types :: "JoinType list" where
  "edge_join_types = [JT_INNER, JT_LEFT, JT_RIGHT, JT_SEMI, JT_RIGHT_SEMI, JT_MARK]"

definition filters_inv :: "LogicalOperator \<Rightarrow> LogicalOperator list \<Rightarrow> bool" where
  "filters_inv plan fs \<longleftrightarrow> (\<forall>op \<in> set fs. op \<in> set (operators plan) \<and> op_type (op_of op) \<in> set join_types \<and>
     join_type (op_of op) \<in> set edge_join_types \<and> has_equality (op_of op))"

lemma rename_outputs_simps [simp]:
  "nodes (fst (rename_outputs t es s)) = nodes (fst s)" "snd (rename_outputs t es s) = snd s"
proof -
  have "nodes (fold (insert_rename t) ies m) = nodes m" for ies m
    by (induction ies arbitrary: m) (auto simp: insert_rename_def Let_def split: prod.splits)
  then show "nodes (fst (rename_outputs t es s)) = nodes (fst s)" "snd (rename_outputs t es s) = snd s"
    by (simp_all add: rename_outputs_def)
qed

lemma add_filter_operator_simps [simp]:
  "nodes (fst (add_filter_operator op s)) = nodes (fst s)"
  "rename_cols (fst (add_filter_operator op s)) = rename_cols (fst s)"
  by (auto simp: add_filter_operator_def Let_def split: prod.splits)

lemma nodes_inv_AddNode:
  "\<lbrakk>AddNode E op m = Some m'; nodes_inv plan m; op \<in> set (operators plan)\<rbrakk> \<Longrightarrow> nodes_inv plan m'"
  by (auto simp: AddNode_def nodes_inv_def Let_def split: if_splits option.splits)

lemma nodes_inv_step:
  "\<lbrakk>extract_step E plan s s'; nodes_inv plan (fst s)\<rbrakk> \<Longrightarrow> nodes_inv plan (fst s')"
proof (induction rule: extract_step.induct)
  case (node op s s')
  then show ?case by (auto simp: add_node_def intro: nodes_inv_AddNode)
qed (auto simp: nodes_inv_def)

lemma filters_inv_step:
  "\<lbrakk>extract_step E plan s s'; filters_inv plan (snd s)\<rbrakk> \<Longrightarrow> filters_inv plan (snd s')"
proof (induction rule: extract_step.induct)
  case (join op s)
  then show ?case
    by (auto simp: filters_inv_def add_filter_operator_def edge_join_types_def Let_def split: prod.splits)
qed (auto simp: add_node_def)

lemma ExtractNodes_inv:
  assumes "ExtractNodes E plan s = Some s'" and "nodes_inv plan (fst s)" and "filters_inv plan (snd s)"
  shows "nodes_inv plan (fst s') \<and> filters_inv plan (snd s')"
  using ExtractNodes_steps [OF assms(1)] assms(2,3)
  by (induction rule: rtranclp_induct) (auto dest: nodes_inv_step filters_inv_step)

text \<open>
  A plan in which a passed on column comes from a table of lower rank than the
  operator's own: the tables an operator can refer to are bound below it.
\<close>

definition ranked_outputs :: "(nat \<Rightarrow> nat) \<Rightarrow> nat \<Rightarrow> Expression list \<Rightarrow> bool" where
  "ranked_outputs rank t es \<longleftrightarrow> list_all (\<lambda>e. is_colref e \<longrightarrow> rank (table_index (colref_binding e)) < rank t) es"

definition ranked_plan :: "(nat \<Rightarrow> nat) \<Rightarrow> LogicalOperator \<Rightarrow> bool" where
  "ranked_plan rank plan \<longleftrightarrow> list_all (\<lambda>op. let info = op_of op in
     (op_type info = LOGICAL_PROJECTION \<longrightarrow> ranked_outputs rank (table_idx info) (expressions info)) \<and>
     (op_type info = LOGICAL_AGGREGATE_AND_GROUP_BY \<longrightarrow> ranked_outputs rank (group_index info) (groups info)))
     (operators plan)"

definition ranked_renames :: "(nat \<Rightarrow> nat) \<Rightarrow> (ColumnBinding \<rightharpoonup> ColumnBinding) \<Rightarrow> bool" where
  "ranked_renames rank r \<longleftrightarrow> (\<forall>c d. r c = Some d \<longrightarrow> rank (table_index d) < rank (table_index c))"

lemma ranked_rename_outputs:
  assumes "ranked_outputs rank t es" and "ranked_renames rank (rename_cols (fst s))"
  shows "ranked_renames rank (rename_cols (fst (rename_outputs t es s)))"
proof -
  have "ranked_renames rank (rename_cols (fold (insert_rename t) ies m))"
    if "\<forall>(i, e) \<in> set ies. is_colref e \<longrightarrow> rank (table_index (colref_binding e)) < rank t"
      "ranked_renames rank (rename_cols m)" for ies m
    using that
  proof (induction ies arbitrary: m)
    case (Cons ie ies)
    then have "ranked_renames rank (rename_cols (insert_rename t ie m))"
      by (auto simp: insert_rename_def Let_def ranked_renames_def split: prod.splits)
    then show ?case using Cons by simp
  qed simp
  moreover have "\<forall>(i, e) \<in> set (enumerate 0 es). is_colref e \<longrightarrow> rank (table_index (colref_binding e)) < rank t"
    using assms(1) by (auto simp: ranked_outputs_def list_all_length in_set_enumerate_eq)
  ultimately show ?thesis
    using assms(2) by (simp add: rename_outputs_def)
qed

lemma ranked_step:
  assumes "extract_step E plan s s'" and "ranked_plan rank plan" and "ranked_renames rank (rename_cols (fst s))"
  shows "ranked_renames rank (rename_cols (fst s'))"
  using assms
proof (induction rule: extract_step.induct)
  case (node op s s')
  then show ?case
    by (auto simp: add_node_def AddNode_def Let_def ranked_renames_def split: if_splits option.splits)
next
  case (projection op s)
  then show ?case by (intro ranked_rename_outputs) (auto simp: ranked_plan_def list_all_iff Let_def)
next
  case (aggregate op s)
  then show ?case by (intro ranked_rename_outputs) (auto simp: ranked_plan_def list_all_iff Let_def)
qed auto

lemma ExtractNodes_ranked:
  assumes "ExtractNodes E plan s = Some s'" and "ranked_plan rank plan" and "ranked_renames rank (rename_cols (fst s))"
  shows "ranked_renames rank (rename_cols (fst s'))"
  using ExtractNodes_steps [OF assms(1)] assms(2,3)
  by (induction rule: rtranclp_induct) (auto dest: ranked_step)

text \<open>Following the renames ends, in a column that is not renamed.\<close>

lemma follow_rename_total:
  assumes "ranked_renames rank r"
  shows "\<exists>d. follow_rename r c = Some d \<and> r d = None"
proof (induction "rank (table_index c)" arbitrary: c rule: less_induct)
  case less
  show ?case
  proof (cases "r c")
    case None
    then show ?thesis by (simp add: follow_rename.simps)
  next
    case (Some c')
    then have "rank (table_index c') < rank (table_index c)" using assms by (simp add: ranked_renames_def)
    then show ?thesis using less [of c'] Some by (simp add: follow_rename.simps)
  qed
qed

lemma FindRename_eq_follow: "FindRename m c = follow_rename (rename_cols m) c"
  by (simp add: FindRename_def follow_rename.simps [of _ c] split: option.splits)

section \<open>Well-formed plans\<close>

fun plan_ok :: "LogicalOperator \<Rightarrow> bool" where
  "plan_ok (Op info cs) \<longleftrightarrow> list_all plan_ok cs \<and>
     (op_type info \<in> set (two_child_types @ set_op_types) \<longrightarrow> 2 \<le> length cs) \<and>
     (op_type info \<in> set [LOGICAL_AGGREGATE_AND_GROUP_BY, LOGICAL_WINDOW, LOGICAL_PROJECTION] \<longrightarrow> cs \<noteq> []) \<and>
     (op_type info = LOGICAL_FILTER \<longrightarrow> expressions info \<noteq> [])"

lemma add_node_total:
  "op_type (op_of op) \<noteq> LOGICAL_FILTER \<Longrightarrow> \<exists>s'. add_node E op s = Some s'"
  by (auto simp: add_node_def AddNode_def op_node_id_def node_types_def Let_def)

lemma add_node_filter_total:
  "\<lbrakk>cs \<noteq> []; op_type (op_of (cs ! 0)) = LOGICAL_GET\<rbrakk> \<Longrightarrow> \<exists>s'. add_node E (Op info cs) s = Some s'"
  by (cases cs) (auto simp: add_node_def AddNode_def op_node_id_def node_types_def Let_def
      GetTableIndexinFilter_def cast_get_index_def)

lemma for_opt_total: "(\<And>x s. x \<in> set xs \<Longrightarrow> \<exists>s'. f x s = Some s') \<Longrightarrow> \<exists>s'. for_opt f xs s = Some s'"
proof (induction xs arbitrary: s)
  case (Cons x xs)
  then obtain s1 where "f x s = Some s1" by (meson list.set_intros(1))
  then show ?case using Cons by simp
qed simp

lemma ExtractNodes_total: "plan_ok plan \<Longrightarrow> \<exists>s'. ExtractNodes E plan s = Some s'"
proof (induction plan arbitrary: s rule: children_induct)
  case (Op info cs)
  define ex where "ex c s = the (ExtractNodes E c s)" for c s
  have child: "ExtractNodes E c s = Some (ex c s)" if "c \<in> set cs" for c s
    using Op.IH [OF that, of s] Op.prems that by (auto simp: list_all_iff ex_def)
  then have nth: "ExtractNodes E (cs ! i) s = Some (ex (cs ! i) s)" if "i < length cs" for i s
    using nth_mem [OF that] by blast
  have first: "ExtractNodes E (cs ! 0) s = Some (ex (cs ! 0) s)" if "cs \<noteq> []" for s
    using that nth [of 0] by simp
  have pair: "cs \<noteq> []" "ExtractNodes E (cs ! Suc 0) s = Some (ex (cs ! Suc 0) s)" if "2 \<le> length cs" for s
    using that nth [of "Suc 0"] by auto
  define s1 where "s1 = (if op_type info \<in> set join_types then add_filter_operator (Op info cs) s else s)"
  show ?case
  proof (cases "length cs = 1 \<and> \<not> OperatorNeedsRelation (op_type info)")
    case True
    then have "cs \<noteq> []" by auto
    then show ?thesis
      using Op.prems nth [of 0] add_node_filter_total [of cs E info s] True
      by (auto simp: ExtractNodes.simps Let_def)
  next
    case False
    define an where "an s = the (add_node E (Op info cs) s)" for s
    have an: "add_node E (Op info cs) s = Some (an s)" if "op_type info \<noteq> LOGICAL_FILTER" for s
      using add_node_total [of "Op info cs" E s] that by (auto simp: an_def)
    have rest: "\<exists>s'. for_opt (ExtractNodes E) cs s1 = Some s'"
      using child by (intro for_opt_total) blast
    note body = ExtractNodes.simps [of E info cs s, unfolded Let_def if_not_P [OF False], folded s1_def]
    note kinds = two_child_types_def set_op_types_def leaf_types_def
    consider "op_type info \<in> set two_child_types" | "op_type info \<in> set set_op_types"
      | "op_type info \<in> set leaf_types"
      | "op_type info \<in> set [LOGICAL_AGGREGATE_AND_GROUP_BY, LOGICAL_WINDOW, LOGICAL_PROJECTION]"
      | (other) "op_type info \<notin> set (two_child_types @ set_op_types @ leaf_types @
          [LOGICAL_AGGREGATE_AND_GROUP_BY, LOGICAL_WINDOW, LOGICAL_PROJECTION])"
      by auto
    then show ?thesis
    proof cases
      case 1
      then have len: "2 \<le> length cs" using Op.prems by simp
      have "op_type info \<noteq> LOGICAL_AGGREGATE_AND_GROUP_BY" "op_type info \<noteq> LOGICAL_WINDOW"
        using 1 by (auto simp: two_child_types_def)
      then show ?thesis using len 1 by (simp add: body first pair [OF len])
    next
      case 2
      then have len: "2 \<le> length cs" using Op.prems by simp
      have "op_type info = LOGICAL_UNION \<or> op_type info = LOGICAL_EXCEPT \<or> op_type info = LOGICAL_INTERSECT"
        using 2 by (simp add: set_op_types_def)
      then show ?thesis using len by (elim disjE) (simp_all add: body kinds first pair [OF len] an)
    next
      case 3
      then have "op_type info \<in> {LOGICAL_DUMMY_SCAN, LOGICAL_EXPRESSION_GET, LOGICAL_GET, LOGICAL_DELIM_GET,
          LOGICAL_EMPTY_RESULT}" by (simp add: leaf_types_def)
      then show ?thesis
        by (elim insertE emptyE) (simp_all add: body kinds an)
    next
      case 4
      then have cs: "cs \<noteq> []" using Op.prems by simp
      from 4 have "op_type info = LOGICAL_AGGREGATE_AND_GROUP_BY \<or> op_type info = LOGICAL_WINDOW \<or>
          op_type info = LOGICAL_PROJECTION" by simp
      then show ?thesis
        using cs by (elim disjE) (simp_all add: body kinds first an OperatorNeedsRelation_def)
    next
      case other
      then show ?thesis using rest by (simp add: body)
    qed
  qed
qed

section \<open>Completeness\<close>

text \<open>The joins whose conditions are turned into edges, and the arity of operators in a bound plan.\<close>

definition edge_join :: "LogicalOperator \<Rightarrow> bool" where
  "edge_join op \<longleftrightarrow> op_type (op_of op) \<in> set join_types \<and>
     join_type (op_of op) \<in> set [JT_INNER, JT_LEFT, JT_RIGHT, JT_SEMI, JT_RIGHT_SEMI] \<and> has_equality (op_of op)"

fun plan_arity :: "LogicalOperator \<Rightarrow> bool" where
  "plan_arity (Op info cs) \<longleftrightarrow> list_all plan_arity cs \<and>
     (op_type info \<in> set (two_child_types @ set_op_types) \<longrightarrow> length cs = 2) \<and>
     (op_type info \<in> set [LOGICAL_AGGREGATE_AND_GROUP_BY, LOGICAL_WINDOW, LOGICAL_PROJECTION, LOGICAL_FILTER] \<longrightarrow>
        length cs = 1) \<and>
     (op_type info \<in> set leaf_types \<longrightarrow> cs = []) \<and>
     (op_type info \<in> set join_types \<longrightarrow> join_type info \<noteq> JT_MARK)"

lemma snd_add_filter_operator:
  assumes "join_type (op_of op) \<noteq> JT_MARK" and "op_type (op_of op) \<in> set join_types"
  shows "snd (add_filter_operator op s) = snd s @ (if edge_join op then [op] else [])"
  using assms by (auto simp: add_filter_operator_def edge_join_def Let_def split: prod.splits)

lemma snd_add_node: "add_node E op s = Some s' \<Longrightarrow> snd s' = snd s"
  by (auto simp: add_node_def)

lemma for_opt_snd:
  assumes "for_opt f xs s = Some s'" and "\<And>x s s'. \<lbrakk>x \<in> set xs; f x s = Some s'\<rbrakk> \<Longrightarrow> snd s' = snd s @ g x"
  shows "snd s' = snd s @ concat (map g xs)"
  using assms
proof (induction xs arbitrary: s)
  case (Cons x xs)
  then obtain s1 where "f x s = Some s1" "for_opt f xs s1 = Some s'" by (auto split: option.splits)
  then show ?case using Cons.IH [of s1] Cons.prems(2) by simp
qed simp

lemma nodes_add_node_mono: "add_node E op s = Some s' \<Longrightarrow> dom (nodes (fst s)) \<subseteq> dom (nodes (fst s'))"
  by (auto simp: add_node_def AddNode_def Let_def split: if_splits option.splits)

lemma nodes_add_node:
  assumes "add_node E op s = Some s'" and "op_node_id op = Some k"
  shows "k \<in> dom (nodes (fst s'))"
  using assms
  by (auto simp: add_node_def AddNode_def Let_def op_node_id_def node_types_def split: if_splits option.splits)

lemma nodes_extract_step_mono: "extract_step E plan s s' \<Longrightarrow> dom (nodes (fst s)) \<subseteq> dom (nodes (fst s'))"
  by (induction rule: extract_step.induct) (use nodes_add_node_mono in auto)

lemma nodes_extract_mono: "ExtractNodes E plan s = Some s' \<Longrightarrow> dom (nodes (fst s)) \<subseteq> dom (nodes (fst s'))"
  by (drule ExtractNodes_steps, induction rule: rtranclp_induct) (use nodes_extract_step_mono in blast)+

text \<open>
  The shape of an extraction: a filter over a scan is a vertex; any other operator has
  some effect of its own, then its children are extracted from left to right, and a
  vertex may be added last.
\<close>

definition own_effect :: "(LogicalOperator \<Rightarrow> nat) \<Rightarrow> LogicalOperator \<Rightarrow> extraction \<Rightarrow> extraction \<Rightarrow> bool" where
  "own_effect E op s s1 \<longleftrightarrow> snd s1 = snd s @ (if edge_join op then [op] else []) \<and>
     dom (nodes (fst s)) \<subseteq> dom (nodes (fst s1)) \<and>
     (op_type (op_of op) \<in> set (leaf_types @ set_op_types) \<longrightarrow> (\<exists>s0. add_node E op s0 = Some s1))"

lemma ExtractNodes_shape:
  assumes ex: "ExtractNodes E (Op info cs) s = Some s'" and ar: "plan_arity (Op info cs)"
  shows "(\<exists>c. cs = [c] \<and> op_type info = LOGICAL_FILTER \<and> op_type (op_of c) = LOGICAL_GET \<and>
      add_node E (Op info cs) s = Some s') \<or>
    (\<exists>s1 s2. own_effect E (Op info cs) s s1 \<and> for_opt (ExtractNodes E) cs s1 = Some s2 \<and>
      (s' = s2 \<or> add_node E (Op info cs) s2 = Some s'))"
proof (cases "length cs = 1 \<and> \<not> OperatorNeedsRelation (op_type info)")
  case True
  then obtain c where cs: "cs = [c]" by (cases cs) auto
  then have t: "op_type info \<notin> set (join_types @ leaf_types @ set_op_types)"
    using ar by (auto simp: join_types_def two_child_types_def)
  have own: "own_effect E (Op info cs) s (fst s\<lparr>can_add_mark := b\<rparr>, snd s)"
    "own_effect E (Op info cs) s s" for b
    using t by (auto simp: own_effect_def edge_join_def)
  consider "op_type info = LOGICAL_FILTER" "op_type (op_of c) = LOGICAL_GET" "add_node E (Op info cs) s = Some s'"
    | s1 where "own_effect E (Op info cs) s s1" "ExtractNodes E c s1 = Some s'"
    using ex True own by (auto simp: ExtractNodes.simps Let_def cs split: if_splits)
  then show ?thesis
  proof cases
    case (2 s1)
    then have "for_opt (ExtractNodes E) cs s1 = Some s'" by (simp add: cs)
    with 2(1) show ?thesis by blast
  qed (use cs in blast)
next
  case False
  let ?op = "Op info cs" and ?t = "op_type info"
  define s1 where "s1 = (if ?t \<in> set join_types then add_filter_operator ?op s else s)"
  have s1: "snd s1 = snd s @ (if edge_join ?op then [?op] else [])" "nodes (fst s1) = nodes (fst s)"
    using ar snd_add_filter_operator [of ?op s] by (auto simp: s1_def edge_join_def)
  then have own: "own_effect E ?op s s1" "own_effect E ?op s (rename_outputs k es s1)"
    if "?t \<notin> set (leaf_types @ set_op_types)" for k es
    using that by (simp_all add: own_effect_def)
  have own_node: "own_effect E ?op s s2" if "add_node E ?op s1 = Some s2" for s2
    using that s1 snd_add_node [OF that] nodes_add_node_mono [OF that]
    by (auto simp: own_effect_def simp del: split_paired_Ex)
  have step: ?thesis if "own_effect E ?op s s2" "for_opt (ExtractNodes E) cs s2 = Some s3"
      "s' = s3 \<or> add_node E ?op s3 = Some s'" for s2 s3
    using that by blast
  note body = ex [unfolded ExtractNodes.simps Let_def if_not_P [OF False], folded s1_def]
  note kinds = two_child_types_def set_op_types_def leaf_types_def
  consider (pair) "?t \<in> set two_child_types" | (sets) "?t \<in> set set_op_types" | (leaf) "?t \<in> set leaf_types"
    | (unary) "?t \<in> set [LOGICAL_AGGREGATE_AND_GROUP_BY, LOGICAL_WINDOW, LOGICAL_PROJECTION]"
    | (other) "?t \<notin> set (two_child_types @ set_op_types @ leaf_types @
        [LOGICAL_AGGREGATE_AND_GROUP_BY, LOGICAL_WINDOW, LOGICAL_PROJECTION])"
    by auto
  then show ?thesis
  proof cases
    case pair
    then obtain c d where cs: "cs = [c, d]" using ar by (auto simp: length_Suc_conv numeral_2_eq_2)
    have "?t \<notin> set [LOGICAL_AGGREGATE_AND_GROUP_BY, LOGICAL_WINDOW]" "?t \<notin> set (leaf_types @ set_op_types)"
      using pair by (auto simp: kinds)
    then have "own_effect E ?op s s1" "for_opt (ExtractNodes E) cs s1 = Some s'"
      using body pair own(1) by (auto simp: cs split: option.splits)
    then show ?thesis by (rule step) simp
  next
    case sets
    then obtain c d where cs: "cs = [c, d]" using ar by (auto simp: length_Suc_conv numeral_2_eq_2)
    have "?t \<notin> set [LOGICAL_AGGREGATE_AND_GROUP_BY, LOGICAL_WINDOW, LOGICAL_PROJECTION]"
      "?t \<notin> set (two_child_types @ leaf_types)" using sets by (auto simp: kinds)
    then obtain s2 where "own_effect E ?op s s2" "for_opt (ExtractNodes E) cs s2 = Some s'"
      using body sets own_node by (auto simp: cs split: option.splits)
    then show ?thesis by (rule step) simp
  next
    case leaf
    then have cs: "cs = []" using ar by simp
    have "?t \<notin> set [LOGICAL_AGGREGATE_AND_GROUP_BY, LOGICAL_WINDOW]" "?t \<notin> set two_child_types"
      using leaf by (auto simp: kinds)
    then show ?thesis using body leaf own_node step [of s' s'] by (simp add: cs)
  next
    case unary
    then obtain c where cs: "cs = [c]" using ar by (auto simp: length_Suc_conv)
    have t: "?t \<notin> set (two_child_types @ leaf_types @ set_op_types)" using unary by (auto simp: kinds)
    from unary have "?t = LOGICAL_AGGREGATE_AND_GROUP_BY \<or> ?t = LOGICAL_WINDOW \<or> ?t = LOGICAL_PROJECTION"
      by simp
    moreover define P where "P \<longleftrightarrow> ?thesis"
    have child: P if "own_effect E ?op s s2" "ExtractNodes E c s2 = Some s3"
        "s' = s3 \<or> add_node E ?op s3 = Some s'" for s2 s3
      using step [OF that(1) _ that(3)] that(2) by (simp add: cs P_def)
    ultimately have P
      using body t
      by (elim disjE) (auto simp: cs split: if_splits option.splits intro: child [OF own(1)] child [OF own(2)]
          child [OF own_node])
    then show ?thesis by (simp only: P_def)
  next
    case other
    then show ?thesis using body own(1) step [of s1 s'] by simp
  qed
qed

lemma ExtractNodes_shapeE [consumes 2, case_names scan children]:
  assumes "ExtractNodes E (Op info cs) s = Some s'" and "plan_arity (Op info cs)"
  obtains (scan) c where "cs = [c]" "op_type info = LOGICAL_FILTER" "op_type (op_of c) = LOGICAL_GET"
      "add_node E (Op info cs) s = Some s'"
  | (children) s1 s2 where "own_effect E (Op info cs) s s1" "for_opt (ExtractNodes E) cs s1 = Some s2"
      "s' = s2 \<or> add_node E (Op info cs) s2 = Some s'"
  using ExtractNodes_shape [OF assms] by blast

text \<open>The operators that contribute edges are exactly the edge joins of the plan, in preorder.\<close>

lemma ExtractNodes_filters:
  assumes "ExtractNodes E plan s = Some s'" and "plan_arity plan"
  shows "snd s' = snd s @ filter edge_join (operators plan)"
  using assms
proof (induction plan arbitrary: s s' rule: children_induct)
  case (Op info cs)
  have child: "snd s' = snd s @ filter edge_join (operators c)"
    if "c \<in> set cs" "ExtractNodes E c s = Some s'" for c s s'
    using Op.IH [OF that] Op.prems(2) that(1) by (auto simp: list_all_iff)
  from Op.prems show ?case
  proof (cases rule: ExtractNodes_shapeE)
    case c: (scan c)
    then have "filter edge_join (operators c) = []"
      using Op.prems(2) by (cases c) (auto simp: leaf_types_def edge_join_def join_types_def)
    moreover have "\<not> edge_join (Op info cs)" using c(2) by (simp add: edge_join_def join_types_def)
    ultimately show ?thesis using c(1) snd_add_node [OF c(4)] by simp
  next
    case (children s1 s2)
    then have "snd s1 = snd s @ (if edge_join (Op info cs) then [Op info cs] else [])" "snd s' = snd s2"
      using snd_add_node [of E "Op info cs" s2 s'] by (auto simp: own_effect_def)
    then show ?thesis
      using for_opt_snd [OF children(2) child] by (simp add: filter_concat comp_def)
  qed
qed

text \<open>
  Every scanned table has a vertex: a scan, a filter above it, or an operator met
  earlier under the same number.
\<close>

lemma for_opt_covers:
  assumes "for_opt f xs s = Some s'" and "x \<in> set xs"
    and "\<And>x s s'. \<lbrakk>x \<in> set xs; f x s = Some s'\<rbrakk> \<Longrightarrow> N s \<subseteq> N s' \<and> g x \<subseteq> N s'"
  shows "N s \<subseteq> N s' \<and> g x \<subseteq> N s'"
proof -
  have "N s \<subseteq> N s' \<and> \<Union> (g ` set xs) \<subseteq> N s'" if "set xs \<subseteq> Y" "for_opt f xs s = Some s'"
    "\<And>x s s'. \<lbrakk>x \<in> Y; f x s = Some s'\<rbrakk> \<Longrightarrow> N s \<subseteq> N s' \<and> g x \<subseteq> N s'" for Y s
    using that
  proof (induction xs arbitrary: s)
    case (Cons x xs)
    then obtain s1 where s1: "f x s = Some s1" "for_opt f xs s1 = Some s'" by (auto split: option.splits)
    have "N s \<subseteq> N s1 \<and> g x \<subseteq> N s1" using Cons.prems(1) by (intro Cons.prems(3) [OF _ s1(1)]) simp
    then show ?case using Cons.IH [OF _ s1(2) Cons.prems(3)] Cons.prems(1) by auto
  qed simp
  from this [of "set xs" s] show ?thesis using assms by auto
qed

lemma ExtractNodes_covers:
  assumes "ExtractNodes E plan s = Some s'" and "plan_arity plan" and "op \<in> set (operators plan)"
    and "op_type (op_of op) \<in> set [LOGICAL_GET, LOGICAL_DELIM_GET]"
  shows "table_idx (op_of op) \<in> dom (nodes (fst s'))"
  using assms(1-3)
proof (induction plan arbitrary: s s' rule: children_induct)
  case (Op info cs)
  let ?N = "\<lambda>s. dom (nodes (fst s))"
  have id: "op_node_id op = Some (table_idx (op_of op))"
    using assms(4) by (auto simp: op_node_id_def table_node_types_def GetTableIndex_def)
  from Op.prems(1,2) show ?case
  proof (cases rule: ExtractNodes_shapeE)
    case c: (scan c)
    have "op = c"
      using c(1-3) Op.prems(2,3) assms(4) by (cases c) (auto simp: leaf_types_def)
    then have "op_node_id (Op info cs) = Some (table_idx (op_of op))"
      using c by (simp add: op_node_id_def table_node_types_def GetTableIndexinFilter_def cast_get_index_def
          GetTableIndex_def)
    then show ?thesis by (rule nodes_add_node [OF c(4)])
  next
    case (children s1 s2)
    note own = children(1) and loop = children(2) and last = children(3)
    have step: "?N s \<subseteq> ?N s' \<and> (if op \<in> set (operators c) then {table_idx (op_of op)} else {}) \<subseteq> ?N s'"
      if "c \<in> set cs" "ExtractNodes E c s = Some s'" for c s s'
      using Op.IH [OF that] nodes_extract_mono [OF that(2)] Op.prems(2) that(1) by (auto simp: list_all_iff)
    have "table_idx (op_of op) \<in> ?N s2"
    proof (cases "op = Op info cs")
      case True
      then have "op_type info \<in> set leaf_types" using assms(4) by (auto simp: leaf_types_def)
      then obtain s0 where "add_node E op s0 = Some s1" "cs = []"
        using own True Op.prems(2) by (auto simp: own_effect_def simp del: split_paired_Ex)
      then show ?thesis using nodes_add_node [OF _ id] loop by auto
    next
      case False
      then obtain c where c: "c \<in> set cs" "op \<in> set (operators c)" using Op.prems(3) by auto
      have "?N s1 \<subseteq> ?N s2 \<and> (if op \<in> set (operators c) then {table_idx (op_of op)} else {}) \<subseteq> ?N s2"
        by (rule for_opt_covers [where N = ?N and g = "\<lambda>c. if op \<in> set (operators c) then {table_idx (op_of op)} else {}",
            OF loop c(1)]) (rule step)
      with c(2) show ?thesis by simp
    qed
    then show ?thesis using last nodes_add_node_mono by blast
  qed
qed

section \<open>Claims\<close>

text \<open>A plan for examples: a projection of a join of a filtered scan of table 0 with a scan of table 1.\<close>

definition blank_info :: op_info where
  "blank_info = \<lparr>op_id = 0, op_type = LOGICAL_GET, expressions = [], table_idx = 0, group_index = 0,
     aggregate_index = 0, groupings_index = 0, groups = [], num_grouping_sets = 0, join_type = JT_INVALID,
     conditions = [], bf_to_create = [], bf_to_use = [], related_create_bf = []\<rparr>"

definition sample_col :: "nat \<Rightarrow> nat \<Rightarrow> Expression" where
  "sample_col t c = BoundColumnRef \<lparr>table_index = t, column_index = c\<rparr>"

definition sample_get :: "nat \<Rightarrow> nat \<Rightarrow> LogicalOperator" where
  "sample_get i t = Op (blank_info\<lparr>op_id := i, table_idx := t\<rparr>) []"

definition sample_filter :: LogicalOperator where
  "sample_filter = Op (blank_info\<lparr>op_id := 4, op_type := LOGICAL_FILTER,
     expressions := [BoundComparison COMPARE_LESSTHAN (sample_col 0 1) (BoundOther 0 [])]\<rparr>) [sample_get 1 0]"

definition sample_join :: LogicalOperator where
  "sample_join = Op (blank_info\<lparr>op_id := 3, op_type := LOGICAL_COMPARISON_JOIN, join_type := JT_INNER,
     conditions := [\<lparr>cond_left = sample_col 0 0, cond_right = sample_col 1 0, cond_comparison = COMPARE_EQUAL\<rparr>]\<rparr>)
     [sample_filter, sample_get 2 1]"

definition sample_plan :: LogicalOperator where
  "sample_plan = Op (blank_info\<lparr>op_id := 5, op_type := LOGICAL_PROJECTION, table_idx := 2,
     expressions := [sample_col 1 0]\<rparr>) [sample_join]"

lemmas sample_defs = sample_plan_def sample_join_def sample_filter_def sample_get_def sample_col_def blank_info_def

lemma sample_plan_ok: "plan_ok sample_plan" "plan_arity sample_plan"
  by (simp_all add: sample_defs two_child_types_def set_op_types_def leaf_types_def join_types_def)



text \<open>
  C22. Looking up a renamed column terminates: when passed on columns come from tables
  bound below the operator that passes them on, the chain of renames collected from
  the plan ends, in a column that is not renamed further.
\<close>

theorem FindRename_terminates:
  assumes "ranked_plan rank plan" and "ExtractNodes E plan (NodesManager_new, []) = Some (m, fs)"
  shows "\<exists>d. FindRename m c = Some d \<and> rename_cols m d = None"
proof -
  have "ranked_renames rank (rename_cols m)"
    using ExtractNodes_ranked [OF assms(2,1)] by (simp add: ranked_renames_def NodesManager_new_def)
  then show ?thesis unfolding FindRename_eq_follow by (rule follow_rename_total)
qed

theorem FindRename_terminates_witness:
  "ranked_plan id sample_plan \<and>
   (\<exists>m fs. ExtractNodes (\<lambda>op. 10) sample_plan (NodesManager_new, []) = Some (m, fs) \<and>
      (\<exists>d. FindRename m \<lparr>table_index = 2, column_index = 0\<rparr> = Some d \<and> rename_cols m d = None))"
proof -
  have "ranked_plan id sample_plan"
    by (simp add: ranked_plan_def sample_defs ranked_outputs_def)
  moreover obtain m fs where "ExtractNodes (\<lambda>op. 10) sample_plan (NodesManager_new, []) = Some (m, fs)"
    using ExtractNodes_total [OF sample_plan_ok(1), of "\<lambda>op. 10" "(NodesManager_new, [])"] by auto
  ultimately show ?thesis using FindRename_terminates by blast
qed

end
