(* ===== verification/Dag.thy ===== *)
theory Dag
  imports Logical_Plan
begin

text \<open>
  The transfer graph (dag.hpp, dag.cpp): vertices with lists of incoming and outgoing
  edges for the forward and for the backward pass. An edge holds the join conditions
  that cause it and, during optimization, the Bloom filters sent along it, by handle.
\<close>

section \<open>Edges and vertices\<close>

record DAGEdge =
  edge_dest :: nat
  filters :: "Expression list"
  bloom_filters :: "nat list"

definition DAGEdge_new :: "nat \<Rightarrow> DAGEdge" where
  "DAGEdge_new i = \<lparr>edge_dest = i, filters = [], bloom_filters = []\<rparr>"

lemma edge_dest_new [simp]: "edge_dest (DAGEdge_new d) = d"
  by (simp add: DAGEdge_new_def)

definition Push :: "Expression \<Rightarrow> DAGEdge \<Rightarrow> DAGEdge" where
  "Push cond e = e\<lparr>filters := filters e @ [cond]\<rparr>"

definition Push_bf :: "nat \<Rightarrow> DAGEdge \<Rightarrow> DAGEdge" where
  "Push_bf bloom_filter e = e\<lparr>bloom_filters := bloom_filters e @ [bloom_filter]\<rparr>"

definition GetDest :: "DAGEdge \<Rightarrow> nat" where
  "GetDest e = edge_dest e"

record DAGNode =
  node_id :: nat
  node_size :: nat
  root :: bool
  priority :: int
  forward_in :: "DAGEdge list"
  backward_in :: "DAGEdge list"
  forward_out :: "DAGEdge list"
  backward_out :: "DAGEdge list"

definition DAGNode_new :: "nat \<Rightarrow> nat \<Rightarrow> bool \<Rightarrow> DAGNode" where
  "DAGNode_new i estimated_cardinality r =
     \<lparr>node_id = i, node_size = estimated_cardinality, root = r, priority = -1,
      forward_in = [], backward_in = [], forward_out = [], backward_out = []\<rparr>"

text \<open>
  The loop the four operations share: the first edge with the given destination is
  extended; without one, a new edge is appended.
\<close>

fun push_edge :: "(DAGEdge \<Rightarrow> DAGEdge) \<Rightarrow> nat \<Rightarrow> DAGEdge list \<Rightarrow> DAGEdge list" where
  "push_edge push d [] = [push (DAGEdge_new d)]"
| "push_edge push d (node # es) = (if GetDest node = d then push node # es else node # push_edge push d es)"

definition AddIn :: "nat \<Rightarrow> Expression \<Rightarrow> bool \<Rightarrow> DAGNode \<Rightarrow> DAGNode" where
  "AddIn from cond forward nd =
     (if forward then nd\<lparr>forward_in := push_edge (Push cond) from (forward_in nd)\<rparr>
      else nd\<lparr>backward_in := push_edge (Push cond) from (backward_in nd)\<rparr>)"

definition AddIn_bf :: "nat \<Rightarrow> nat \<Rightarrow> bool \<Rightarrow> DAGNode \<Rightarrow> DAGNode" where
  "AddIn_bf from bloom_filter forward nd =
     (if forward then nd\<lparr>forward_in := push_edge (Push_bf bloom_filter) from (forward_in nd)\<rparr>
      else nd\<lparr>backward_in := push_edge (Push_bf bloom_filter) from (backward_in nd)\<rparr>)"

definition AddOut :: "nat \<Rightarrow> Expression \<Rightarrow> bool \<Rightarrow> DAGNode \<Rightarrow> DAGNode" where
  "AddOut to cond forward nd =
     (if forward then nd\<lparr>forward_out := push_edge (Push cond) to (forward_out nd)\<rparr>
      else nd\<lparr>backward_out := push_edge (Push cond) to (backward_out nd)\<rparr>)"

definition AddOut_bf :: "nat \<Rightarrow> nat \<Rightarrow> bool \<Rightarrow> DAGNode \<Rightarrow> DAGNode" where
  "AddOut_bf to bloom_filter forward nd =
     (if forward then nd\<lparr>forward_out := push_edge (Push_bf bloom_filter) to (forward_out nd)\<rparr>
      else nd\<lparr>backward_out := push_edge (Push_bf bloom_filter) to (backward_out nd)\<rparr>)"

lemmas add_defs = AddIn_def AddIn_bf_def AddOut_def AddOut_bf_def

section \<open>Edge lists as multimaps\<close>

text \<open>
  A list of edges promises to be a multimap from destinations to what was pushed: one
  edge per destination, and a lookup returns the pushed items in order.
\<close>

locale edge_multimap =
  fixes push :: "'a \<Rightarrow> DAGEdge \<Rightarrow> DAGEdge" and items :: "DAGEdge \<Rightarrow> 'a list"
  assumes dest_push [simp]: "edge_dest (push x e) = edge_dest e"
    and items_push: "items (push x e) = items e @ [x]"
    and items_new: "items (DAGEdge_new d) = []"
begin

lemma dests_push_edge:
  "map edge_dest (push_edge (push x) d es) = (if d \<in> set (map edge_dest es) then map edge_dest es else map edge_dest es @ [d])"
  by (induction es) (auto simp: GetDest_def DAGEdge_new_def)

lemma distinct_push_edge:
  "distinct (map edge_dest es) \<Longrightarrow> distinct (map edge_dest (push_edge (push x) d es))"
  by (simp add: dests_push_edge)

lemma items_push_edge:
  assumes "distinct (map edge_dest es)"
  shows "concat (map items (filter (\<lambda>e. edge_dest e = d') (push_edge (push x) d es))) =
    concat (map items (filter (\<lambda>e. edge_dest e = d') es)) @ (if d = d' then [x] else [])"
  using assms
proof (induction es)
  case (Cons e es)
  have "filter (\<lambda>e. edge_dest e = d') es = []" if "edge_dest e = d'"
    using Cons.prems that by (simp add: filter_empty_conv image_iff) metis
  then show ?case using Cons by (auto simp: GetDest_def items_push)
qed (simp add: items_push items_new)

lemma push_edge_all:
  assumes "\<And>e. P e \<Longrightarrow> edge_dest e = d \<Longrightarrow> P (push x e)" and "P (push x (DAGEdge_new d))"
    and "list_all P es"
  shows "list_all P (push_edge (push x) d es)"
  using assms(3) by (induction es) (auto simp: GetDest_def assms)

end

interpretation filters_mm: edge_multimap Push filters
  by unfold_locales (simp_all add: Push_def DAGEdge_new_def)

interpretation bloom_mm: edge_multimap Push_bf bloom_filters
  by unfold_locales (simp_all add: Push_bf_def DAGEdge_new_def)

text \<open>The conditions on the edge to or from a vertex, and the Bloom filters sent along it.\<close>

definition edge_filters :: "nat \<Rightarrow> DAGEdge list \<Rightarrow> Expression list" where
  "edge_filters d es = concat (map filters (filter (\<lambda>e. edge_dest e = d) es))"

definition edge_bfs :: "nat \<Rightarrow> DAGEdge list \<Rightarrow> nat list" where
  "edge_bfs d es = concat (map bloom_filters (filter (\<lambda>e. edge_dest e = d) es))"

lemma edge_filters_Nil [simp]: "edge_filters d [] = []" "edge_bfs d [] = []"
  by (simp_all add: edge_filters_def edge_bfs_def)

lemma edge_filters_push:
  "distinct (map edge_dest es) \<Longrightarrow>
    edge_filters d' (push_edge (Push f) d es) = edge_filters d' es @ (if d = d' then [f] else [])"
  unfolding edge_filters_def by (rule filters_mm.items_push_edge)

lemma edge_bfs_push:
  "distinct (map edge_dest es) \<Longrightarrow>
    edge_bfs d' (push_edge (Push_bf b) d es) = edge_bfs d' es @ (if d = d' then [b] else [])"
  unfolding edge_bfs_def by (rule bloom_mm.items_push_edge)

lemma edge_filters_push_bf: "edge_filters d' (push_edge (Push_bf b) d es) = edge_filters d' es"
  by (induction es) (auto simp: edge_filters_def GetDest_def Push_bf_def DAGEdge_new_def)

lemma edge_bfs_push_filter: "edge_bfs d' (push_edge (Push f) d es) = edge_bfs d' es"
  by (induction es) (auto simp: edge_bfs_def GetDest_def Push_def DAGEdge_new_def)

text \<open>A vertex is well-formed when none of its lists has two edges for one destination.\<close>

definition dag_node_wf :: "DAGNode \<Rightarrow> bool" where
  "dag_node_wf nd \<longleftrightarrow> distinct (map edge_dest (forward_in nd)) \<and> distinct (map edge_dest (backward_in nd)) \<and>
     distinct (map edge_dest (forward_out nd)) \<and> distinct (map edge_dest (backward_out nd))"

lemma dag_node_wf_new [simp]: "dag_node_wf (DAGNode_new i c r)"
  by (simp add: dag_node_wf_def DAGNode_new_def)

lemma dag_node_wf_add [simp]:
  assumes "dag_node_wf nd"
  shows "dag_node_wf (AddIn d f fw nd)" "dag_node_wf (AddOut d f fw nd)"
    "dag_node_wf (AddIn_bf d b fw nd)" "dag_node_wf (AddOut_bf d b fw nd)"
  using assms
  by (simp_all add: dag_node_wf_def add_defs filters_mm.distinct_push_edge bloom_mm.distinct_push_edge)

lemma add_simps [simp]:
  "node_id (AddIn d f fw nd) = node_id nd" "node_id (AddOut d f fw nd) = node_id nd"
  "node_id (AddIn_bf d b fw nd) = node_id nd" "node_id (AddOut_bf d b fw nd) = node_id nd"
  "priority (AddIn d f fw nd) = priority nd" "priority (AddOut d f fw nd) = priority nd"
  "priority (AddIn_bf d b fw nd) = priority nd" "priority (AddOut_bf d b fw nd) = priority nd"
  by (simp_all add: add_defs)

end
