(* ===== verification/Dag_Manager.thy ===== *)
theory Dag_Manager
  imports Nodes_Manager Dag
begin

text \<open>
  \<open>class DAGManager\<close> (dag_manager.hpp, dag_manager.cpp): the join conditions become
  edges between vertices, a spanning forest is grown from the largest vertex, and the
  chosen edges are oriented by the order in which their ends were reached.

  The result is \<open>None\<close> where the code would dereference a null pointer, read an
  uninitialised variable or a destroyed expression, or not return. Tables are numbered
  by natural numbers; the code uses \<open>int\<close> keys, which hold every table number below
  \<open>2 ^ 31\<close>. The iteration orders of the hash containers are functions from their
  contents to lists.
\<close>

section \<open>State\<close>

record DAGEdgeInfo =
  ei_filter :: Expression
  large :: LogicalOperator
  small :: LogicalOperator
  large_protect :: bool
  small_protect :: bool

definition DAGEdgeInfo_new :: "Expression \<Rightarrow> LogicalOperator \<Rightarrow> LogicalOperator \<Rightarrow> DAGEdgeInfo" where
  "DAGEdgeInfo_new f l s = \<lparr>ei_filter = f, large = l, small = s, large_protect = False, small_protect = False\<rparr>"

text \<open>A null \<open>shared_ptr\<close> in one of the vectors of edges is \<open>None\<close>.\<close>

type_synonym edge_map = "nat \<times> nat \<rightharpoonup> DAGEdgeInfo option list"

record DAGManager =
  nodes_manager :: NodesManager
  dag_nodes :: "nat \<rightharpoonup> DAGNode"
  ExecOrder :: "LogicalOperator list"
  filters_and_bindings :: edge_map
  selected_filters_and_bindings :: "DAGEdgeInfo option list"
  draws :: nat

definition DAGManager_new :: DAGManager where
  "DAGManager_new = \<lparr>nodes_manager = NodesManager_new, dag_nodes = Map.empty, ExecOrder = [],
     filters_and_bindings = Map.empty, selected_filters_and_bindings = [], draws = 0\<rparr>"

record hash_orders =
  ord_nodes :: "nat set \<Rightarrow> nat list"
  ord_constructed :: "nat set \<Rightarrow> nat list"
  ord_unconstructed :: "nat set \<Rightarrow> nat list"
  ord_edges :: "(nat \<times> nat) set \<Rightarrow> (nat \<times> nat) list"

text \<open>Pointer equality of operators.\<close>

definition same_op :: "LogicalOperator \<Rightarrow> LogicalOperator \<Rightarrow> bool" where
  "same_op a b \<longleftrightarrow> op_id (op_of a) = op_id (op_of b)"

definition estimated_cardinality :: "NodesManager \<Rightarrow> LogicalOperator \<Rightarrow> nat" where
  "estimated_cardinality m op = card_of m (op_id (op_of op))"

section \<open>Edges\<close>

definition node_in_order :: "LogicalOperator list \<Rightarrow> LogicalOperator \<Rightarrow> nat" where
  "node_in_order sorted_nodes node =
     (let i = length (takeWhile (\<lambda>n. \<not> same_op n node) sorted_nodes)
      in if i < length sorted_nodes then i else 0)"

text \<open>
  Which of two vertices is the large one, and which is protected: the preserved side
  of an outer join. \<open>None\<close>: a join type that has no edges.
\<close>

definition edge_info :: "JoinType \<Rightarrow> Expression \<Rightarrow> LogicalOperator \<Rightarrow> LogicalOperator \<Rightarrow> nat \<Rightarrow> nat \<Rightarrow>
    DAGEdgeInfo option" where
  "edge_info jt comparison left_node right_node left_order right_order =
     (if jt \<in> set [JT_INNER, JT_SEMI, JT_RIGHT_SEMI, JT_MARK] then
        (if left_order > right_order then Some (DAGEdgeInfo_new comparison left_node right_node)
         else Some (DAGEdgeInfo_new comparison right_node left_node))
      else if jt = JT_LEFT then
        (if left_order > right_order
         then Some ((DAGEdgeInfo_new comparison left_node right_node)\<lparr>large_protect := True\<rparr>)
         else Some ((DAGEdgeInfo_new comparison right_node left_node)\<lparr>small_protect := True\<rparr>))
      else if jt = JT_RIGHT then
        (if left_order > right_order
         then Some ((DAGEdgeInfo_new comparison left_node right_node)\<lparr>small_protect := True\<rparr>)
         else Some ((DAGEdgeInfo_new comparison right_node left_node)\<lparr>large_protect := True\<rparr>))
      else None)"

text \<open>\<open>m[k].emplace_back(v)\<close> on a map of vectors.\<close>

definition append_at :: "'k \<Rightarrow> 'v \<Rightarrow> ('k \<rightharpoonup> 'v list) \<Rightarrow> ('k \<rightharpoonup> 'v list)" where
  "append_at k v m = m(k \<mapsto> (case m k of None \<Rightarrow> [] | Some vs \<Rightarrow> vs) @ [v])"

definition insert_edge :: "nat \<Rightarrow> nat \<Rightarrow> DAGEdgeInfo \<Rightarrow> edge_map \<Rightarrow> edge_map" where
  "insert_edge left_table right_table info fb =
     (let key1 = (right_table, left_table); key2 = (left_table, right_table);
          fb1 = (if fb key1 = None then fb(key1 \<mapsto> [], key2 \<mapsto> []) else fb)
      in append_at key2 (Some info) (append_at key1 (Some info) fb1))"

text \<open>
  The set of comparisons seen so far holds references. A comparison that gave no edge
  is destroyed at once, and its reference dangles: those are marked \<open>False\<close>, and
  finding one of them reads a destroyed object.
\<close>

type_synonym filter_set = "(Expression \<times> bool) list"

definition extract_condition :: "LogicalOperator list \<Rightarrow> NodesManager \<Rightarrow> JoinType \<Rightarrow> JoinCondition \<Rightarrow>
    filter_set \<times> edge_map \<Rightarrow> (filter_set \<times> edge_map) option" where
  "extract_condition sorted_nodes m jt cond s =
     (case s of (filter_set, fb) \<Rightarrow>
      if cond_comparison cond \<noteq> COMPARE_EQUAL then Some s
      else
        let comparison = BoundComparison (cond_comparison cond) (cond_left cond) (cond_right cond)
        in if (comparison, False) \<in> set filter_set then None
           else if (comparison, True) \<in> set filter_set then Some s
           else
             case (FindRename m (colref_binding (cond_left cond)), FindRename m (colref_binding (cond_right cond))) of
               (Some l, Some r) \<Rightarrow>
                 let left_table = table_index l; right_table = table_index r
                 in case (getNode left_table m, getNode right_table m) of
                      (Some left_node, Some right_node) \<Rightarrow>
                        (case edge_info jt comparison left_node right_node
                                (node_in_order sorted_nodes left_node) (node_in_order sorted_nodes right_node) of
                           None \<Rightarrow> Some ((comparison, False) # filter_set, fb)
                         | Some info \<Rightarrow>
                             Some ((comparison, True) # filter_set, insert_edge left_table right_table info fb))
                    | _ \<Rightarrow> Some ((comparison, False) # filter_set, fb)
             | _ \<Rightarrow> None)"

definition ExtractEdges :: "LogicalOperator list \<Rightarrow> DAGManager \<Rightarrow> DAGManager option" where
  "ExtractEdges filter_operators D =
     (let m = nodes_manager D; sorted_nodes = sort_nodes m
      in map_option (\<lambda>(fs, fb). D\<lparr>filters_and_bindings := fb\<rparr>)
           (for_opt (\<lambda>f_op s.
               if op_type (op_of f_op) \<in> set join_types
               then for_opt (extract_condition sorted_nodes m (join_type (op_of f_op))) (conditions (op_of f_op)) s
               else Some s)
             filter_operators ([], filters_and_bindings D)))"

section \<open>Growing the forest\<close>

type_synonym best_edge = "nat \<times> nat \<times> (nat \<times> nat) option"

definition better_edge :: "nat \<times> nat \<Rightarrow> nat \<Rightarrow> nat \<Rightarrow> best_edge \<Rightarrow> best_edge" where
  "better_edge key c weight best =
     (case best of (max_weight, max_card, result) \<Rightarrow>
        if weight > max_weight then (weight, c, Some key)
        else if weight = max_weight \<and> c > max_card then (max_weight, c, Some key)
        else best)"

text \<open>The pair \<open>(-1, -1)\<close> is \<open>None\<close>.\<close>

definition FindEdge :: "hash_orders \<Rightarrow> nat set \<Rightarrow> nat set \<Rightarrow> DAGManager \<Rightarrow> (nat \<times> nat) option option" where
  "FindEdge H constructed_set unconstructed_set D =
     map_option (\<lambda>best. snd (snd best))
       (for_opt (\<lambda>(i, j) best.
           case filters_and_bindings D (j, i) of
             None \<Rightarrow> Some best
           | Some v \<Rightarrow>
               (case getNode i (nodes_manager D) of
                  None \<Rightarrow> None
                | Some op \<Rightarrow>
                    Some (better_edge (j, i) (estimated_cardinality (nodes_manager D) op) (length v) best)))
         (List.product (ord_unconstructed H unconstructed_set) (ord_constructed H constructed_set)) (0, 0, None))"

text \<open>The variant with random cardinalities; \<open>dist\<close> gives the numbers drawn.\<close>

definition FindEdgeRandom :: "(nat \<Rightarrow> nat) \<Rightarrow> hash_orders \<Rightarrow> nat set \<Rightarrow> nat set \<Rightarrow> DAGManager \<Rightarrow>
    (nat \<times> nat) option \<times> DAGManager" where
  "FindEdgeRandom dist H constructed_set unconstructed_set D =
     (let (best, n) = fold (\<lambda>(i, j) (best, n).
            case filters_and_bindings D (j, i) of
              None \<Rightarrow> (best, n)
            | Some v \<Rightarrow> (better_edge (j, i) (dist n) (length v) best, Suc n))
          (List.product (ord_unconstructed H unconstructed_set) (ord_constructed H constructed_set))
          ((0, 0, None), draws D)
      in (snd (snd best), D\<lparr>draws := n\<rparr>))"

text \<open>Creation of the vertices; the vertex of the last sorted operator becomes the root.\<close>

record vertex_sets =
  constructed :: "nat set"
  unconstructed :: "nat set"
  prior_flag :: int
  root_id :: "nat option"

definition create_vertex :: "LogicalOperator \<Rightarrow> nat \<times> LogicalOperator \<Rightarrow> DAGManager \<times> vertex_sets \<Rightarrow>
    DAGManager \<times> vertex_sets" where
  "create_vertex last_op vertex s =
     (case (vertex, s) of ((k, op), (D, V)) \<Rightarrow>
        let c = estimated_cardinality (nodes_manager D) op
        in if same_op op last_op
           then (D\<lparr>dag_nodes := (dag_nodes D)(k \<mapsto> (DAGNode_new k c True)\<lparr>priority := prior_flag V\<rparr>)\<rparr>,
                 V\<lparr>prior_flag := prior_flag V - 1, constructed := insert k (constructed V), root_id := Some k\<rparr>)
           else (D\<lparr>dag_nodes := (dag_nodes D)(k \<mapsto> DAGNode_new k c False)\<rparr>,
                 V\<lparr>unconstructed := insert k (unconstructed V)\<rparr>))"

text \<open>The edges of a key move to the selected ones and leave null pointers behind.\<close>

definition select_edges :: "nat \<times> nat \<Rightarrow> DAGManager \<Rightarrow> DAGManager" where
  "select_edges key D =
     (case filters_and_bindings D key of
        None \<Rightarrow> D
      | Some v \<Rightarrow> D\<lparr>selected_filters_and_bindings := selected_filters_and_bindings D @ v,
                    filters_and_bindings := (filters_and_bindings D)(key \<mapsto> map (\<lambda>_. None) v)\<rparr>)"

text \<open>The next operator of the execution order; \<open>None\<close> when it would be a null pointer.\<close>

definition emit_node :: "nat \<Rightarrow> DAGManager \<Rightarrow> DAGManager option" where
  "emit_node k D =
     map_option (\<lambda>op. D\<lparr>ExecOrder := ExecOrder D @ [op], nodes_manager := EraseNode k (nodes_manager D)\<rparr>)
       (getNode k (nodes_manager D))"

type_synonym edge_finder = "nat set \<Rightarrow> nat set \<Rightarrow> DAGManager \<Rightarrow> ((nat \<times> nat) option \<times> DAGManager) option"

definition attach_vertex :: "int \<Rightarrow> nat \<times> nat \<Rightarrow> DAGManager \<Rightarrow> DAGManager option" where
  "attach_vertex p selected_edge D =
     (let D1 = select_edges selected_edge D
      in case dag_nodes D1 (snd selected_edge) of
           None \<Rightarrow> None
         | Some node \<Rightarrow>
             emit_node (node_id node) (D1\<lparr>dag_nodes := (dag_nodes D1)(snd selected_edge \<mapsto> node\<lparr>priority := p\<rparr>)\<rparr>))"

partial_function (option) grow_tree :: "edge_finder \<Rightarrow> nat set \<Rightarrow> nat set \<Rightarrow> int \<Rightarrow> DAGManager \<Rightarrow> DAGManager option" where
  "grow_tree fe C U p D =
     (if U = {} then Some D
      else case fe C U D of
             None \<Rightarrow> None
           | Some (None, D') \<Rightarrow> Some D'
           | Some (Some e, D') \<Rightarrow>
               (case attach_vertex p e D' of
                  None \<Rightarrow> None
                | Some D'' \<Rightarrow> grow_tree fe (insert (snd e) C) (U - {snd e}) (p - 1) D''))"

definition root_tree :: "edge_finder \<Rightarrow> hash_orders \<Rightarrow> LogicalOperator list \<Rightarrow> DAGManager \<Rightarrow> DAGManager option" where
  "root_tree fe H sorted_nodes D =
     (if sorted_nodes = [] then None
      else
        let vs = map (\<lambda>k. (k, the (nodes (nodes_manager D) k))) (ord_nodes H (dom (nodes (nodes_manager D))));
            (D1, V) = fold (create_vertex (last sorted_nodes)) vs
              (D, \<lparr>constructed = {}, unconstructed = {}, prior_flag = int (NumNodes (nodes_manager D)) - 1, root_id = None\<rparr>)
        in case root_id V of
             None \<Rightarrow> None
           | Some r \<Rightarrow>
               (case emit_node r D1 of
                  None \<Rightarrow> None
                | Some D2 \<Rightarrow> grow_tree fe (constructed V) (unconstructed V) (prior_flag V) D2))"

definition LargestRoot :: "hash_orders \<Rightarrow> LogicalOperator list \<Rightarrow> DAGManager \<Rightarrow> DAGManager option" where
  "LargestRoot H = root_tree (\<lambda>C U D. map_option (\<lambda>e. (e, D)) (FindEdge H C U D)) H"

definition RandomRoot :: "(nat \<Rightarrow> nat) \<Rightarrow> hash_orders \<Rightarrow> LogicalOperator list \<Rightarrow> DAGManager \<Rightarrow> DAGManager option" where
  "RandomRoot dist H = root_tree (\<lambda>C U D. Some (FindEdgeRandom dist H C U D)) H"

definition Small2Large :: "hash_orders \<Rightarrow> LogicalOperator list \<Rightarrow> DAGManager \<Rightarrow> DAGManager" where
  "Small2Large H sorted_nodes D =
     (let m = nodes_manager D;
          D1 = fold (\<lambda>k D. let op = the (nodes m k); c = estimated_cardinality m op in
                 D\<lparr>dag_nodes := (dag_nodes D)(k \<mapsto>
                    (if same_op op (last sorted_nodes)
                     then (DAGNode_new k c True)\<lparr>priority := int (length sorted_nodes) - 1\<rparr>
                     else let i = length (takeWhile (\<lambda>n. \<not> same_op n op) sorted_nodes);
                              nd = DAGNode_new k c False
                          in if i < length sorted_nodes then nd\<lparr>priority := int i\<rparr> else nd))\<rparr>)
               (ord_nodes H (dom (nodes m))) D
      in D1\<lparr>ExecOrder := ExecOrder D1 @ rev sorted_nodes,
            selected_filters_and_bindings := selected_filters_and_bindings D1 @
              concat (map (\<lambda>k. the (filters_and_bindings D1 k)) (ord_edges H (dom (filters_and_bindings D1))))\<rparr>)"

section \<open>Orientation\<close>

definition update_node :: "nat \<Rightarrow> (DAGNode \<Rightarrow> DAGNode) \<Rightarrow> (nat \<rightharpoonup> DAGNode) \<Rightarrow> (nat \<rightharpoonup> DAGNode)" where
  "update_node k f ns = ns(k := map_option f (ns k))"

text \<open>
  The four kinds of edges: towards vertex \<open>b\<close> in the forward or in the backward pass,
  entered at both ends.
\<close>

definition orient_edge :: "DAGEdgeInfo \<Rightarrow> (nat \<rightharpoonup> DAGNode) \<Rightarrow> (nat \<rightharpoonup> DAGNode) option" where
  "orient_edge info ns =
     (case (op_node_id (large info), op_node_id (small info)) of
        (Some l, Some s) \<Rightarrow>
          (case (ns s, ns l) of
             (Some small_node, Some large_node) \<Rightarrow>
               (let f = ei_filter info; lid = node_id large_node; sid = node_id small_node in
                if priority small_node > priority large_node then
                  (if \<not> large_protect info \<and> \<not> small_protect info then
                     Some (update_node l (AddIn sid f False) (update_node l (AddOut sid f True)
                       (update_node s (AddOut lid f False) (update_node s (AddIn lid f True) ns))))
                   else if large_protect info \<and> \<not> small_protect info then
                     Some (update_node l (AddOut sid f True) (update_node s (AddIn lid f True) ns))
                   else if \<not> large_protect info \<and> small_protect info then
                     Some (update_node l (AddIn sid f False) (update_node s (AddOut lid f False) ns))
                   else Some ns)
                else
                  (if \<not> large_protect info \<and> \<not> small_protect info then
                     Some (update_node l (AddOut sid f False) (update_node l (AddIn sid f True)
                       (update_node s (AddIn lid f False) (update_node s (AddOut lid f True) ns))))
                   else if large_protect info \<and> \<not> small_protect info then
                     Some (update_node l (AddOut sid f False) (update_node s (AddIn lid f False) ns))
                   else if \<not> large_protect info \<and> small_protect info then
                     Some (update_node l (AddIn sid f True) (update_node s (AddOut lid f True) ns))
                   else Some ns))
           | _ \<Rightarrow> None)
      | _ \<Rightarrow> None)"

partial_function (option) grow_forest :: "hash_orders \<Rightarrow> DAGManager \<Rightarrow> DAGManager option" where
  "grow_forest H D =
     (if nodes (nodes_manager D) = Map.empty then Some D
      else case LargestRoot H (sort_nodes (nodes_manager D)) D of
             None \<Rightarrow> None
           | Some D' \<Rightarrow> grow_forest H (D'\<lparr>nodes_manager := ReSortNodes (ord_nodes H) (nodes_manager D')\<rparr>))"

definition CreateDAG :: "hash_orders \<Rightarrow> DAGManager \<Rightarrow> DAGManager option" where
  "CreateDAG H D =
     (case grow_forest H D of
        None \<Rightarrow> None
      | Some D1 \<Rightarrow>
          let D2 = D1\<lparr>nodes_manager := RecoverNodes (nodes_manager D1)\<rparr>
          in map_option (\<lambda>ns. D2\<lparr>dag_nodes := ns\<rparr>)
               (for_opt (\<lambda>e ns. case e of None \<Rightarrow> Some ns | Some info \<Rightarrow> orient_edge info ns)
                 (selected_filters_and_bindings D2) (dag_nodes D2)))"

definition Build :: "(LogicalOperator \<Rightarrow> nat) \<Rightarrow> hash_orders \<Rightarrow> LogicalOperator \<Rightarrow> DAGManager \<Rightarrow>
    (bool \<times> DAGManager) option" where
  "Build E H plan D =
     (case ExtractNodes E plan (nodes_manager D, []) of
        None \<Rightarrow> None
      | Some (m, filter_operators) \<Rightarrow>
          let m1 = DuplicateNodes m; D1 = D\<lparr>nodes_manager := m1\<rparr>
          in if NumNodes m1 < 2 then Some (False, D1)
             else
               case ExtractEdges filter_operators (D1\<lparr>nodes_manager := SortNodes (ord_nodes H) m1\<rparr>) of
                 None \<Rightarrow> None
               | Some D2 \<Rightarrow>
                   if filters_and_bindings D2 = Map.empty then Some (False, D2)
                   else map_option (\<lambda>D3. (True, D3)) (CreateDAG H D2))"

definition Add :: "nat \<Rightarrow> nat \<Rightarrow> ColumnBinding list \<Rightarrow> bool \<Rightarrow> DAGManager \<Rightarrow> DAGManager option" where
  "Add create_table use_bf col_applied reverse D =
     (case col_applied of
        [] \<Rightarrow> None
      | c # _ \<Rightarrow>
          (case dag_nodes D (table_index c) of
             None \<Rightarrow> None
           | Some nd \<Rightarrow>
               Some (D\<lparr>dag_nodes := (dag_nodes D)(table_index c \<mapsto> AddIn_bf create_table use_bf (\<not> reverse) nd)\<rparr>)))"

text \<open>The vertices an edge connects with a given one.\<close>

definition GetNeighbors :: "hash_orders \<Rightarrow> nat \<Rightarrow> DAGManager \<Rightarrow> DAGNode option list option" where
  "GetNeighbors H k D =
     for_opt (\<lambda>e result.
         case (e, getNode k (nodes_manager D)) of
           (None, _) \<Rightarrow> None
         | (Some info, None) \<Rightarrow> Some result
         | (Some info, Some node) \<Rightarrow>
             if same_op (large info) node
             then map_option (\<lambda>another. result @ [dag_nodes D another]) (op_node_id (small info))
             else if same_op (small info) node
             then map_option (\<lambda>another. result @ [dag_nodes D another]) (op_node_id (large info))
             else Some result)
       (concat (map (\<lambda>key. the (filters_and_bindings D key)) (ord_edges H (dom (filters_and_bindings D))))) []"

end
