(* ===== verification/Dag_Forest.thy ===== *)
theory Dag_Forest
  imports Dag_Manager
begin

text \<open>
  The growth of the spanning forest: the choice of the next edge is optimal, the
  loops terminate, every vertex is reached exactly once, priorities decrease along the
  execution order, and every selected edge joins a vertex with its parent.
\<close>

section \<open>Iteration orders\<close>

definition order_ok :: "('a set \<Rightarrow> 'a list) \<Rightarrow> bool" where
  "order_ok r \<longleftrightarrow> (\<forall>S. finite S \<longrightarrow> set (r S) = S \<and> distinct (r S))"

definition hash_ok :: "hash_orders \<Rightarrow> bool" where
  "hash_ok H \<longleftrightarrow> order_ok (ord_nodes H) \<and> order_ok (ord_constructed H) \<and> order_ok (ord_unconstructed H) \<and>
     order_ok (ord_edges H)"

lemma hash_okD:
  assumes "hash_ok H" and "finite S"
  shows "set (ord_nodes H S) = S" "distinct (ord_nodes H S)"
    "set (ord_constructed H S) = S" "set (ord_unconstructed H S) = S"
  using assms by (auto simp: hash_ok_def order_ok_def)

section \<open>The choice of an edge\<close>

text \<open>Weights and cardinalities compare lexicographically; the first best candidate wins.\<close>

definition edge_le :: "nat \<times> nat \<Rightarrow> nat \<times> nat \<Rightarrow> bool" where
  "edge_le x y \<longleftrightarrow> fst x < fst y \<or> fst x = fst y \<and> snd x \<le> snd y"

definition best_ok :: "(nat \<times> nat \<Rightarrow> (nat \<times> nat) option) \<Rightarrow> (nat \<times> nat) set \<Rightarrow> best_edge \<Rightarrow> bool" where
  "best_ok value_of K best \<longleftrightarrow>
     (case best of (w, c, r) \<Rightarrow>
        (\<forall>k \<in> K. \<forall>v. value_of k = Some v \<longrightarrow> edge_le v (w, c)) \<and>
        (case r of None \<Rightarrow> w = 0 \<and> c = 0 \<and> (\<forall>k \<in> K. value_of k = None)
         | Some k \<Rightarrow> k \<in> K \<and> value_of k = Some (w, c)))"

lemma edge_le_trans: "edge_le x y \<Longrightarrow> edge_le y z \<Longrightarrow> edge_le x z"
  by (auto simp: edge_le_def)

lemma best_ok_better:
  assumes "best_ok v K best" and "v k = Some (w, c)" and "0 < w"
  shows "best_ok v (insert k K) (better_edge k c w best)"
proof (cases best)
  case (fields mw mc r)
  then show ?thesis
    using assms
    by (auto simp: best_ok_def better_edge_def edge_le_def split: option.splits)
qed

lemma best_ok_skip: "best_ok v K best \<Longrightarrow> v k = None \<Longrightarrow> best_ok v (insert k K) best"
  by (cases best) (auto simp: best_ok_def split: option.splits)

definition edge_value :: "DAGManager \<Rightarrow> nat \<times> nat \<Rightarrow> (nat \<times> nat) option" where
  "edge_value D k =
     (case filters_and_bindings D k of
        None \<Rightarrow> None
      | Some v \<Rightarrow> Some (length v, estimated_cardinality (nodes_manager D) (the (nodes (nodes_manager D) (snd k)))))"

lemma FindEdge_loop:
  assumes "best_ok (edge_value D) K best" and "[] \<notin> ran (filters_and_bindings D)"
    and "\<forall>(i, j) \<in> set ps. i \<in> dom (nodes (nodes_manager D))"
  shows "\<exists>best'. for_opt (\<lambda>(i, j) best.
           case filters_and_bindings D (j, i) of
             None \<Rightarrow> Some best
           | Some v \<Rightarrow>
               (case getNode i (nodes_manager D) of
                  None \<Rightarrow> None
                | Some op \<Rightarrow>
                    Some (better_edge (j, i) (estimated_cardinality (nodes_manager D) op) (length v) best))) ps best =
      Some best' \<and> best_ok (edge_value D) (K \<union> prod.swap ` set ps) best'"
  using assms(1,3)
proof (induction ps arbitrary: best K)
  case (Cons p ps)
  obtain i j where p: "p = (i, j)" by (cases p)
  show ?case
  proof (cases "filters_and_bindings D (j, i)")
    case None
    then have "best_ok (edge_value D) (insert (j, i) K) best"
      by (intro best_ok_skip Cons.prems) (simp add: edge_value_def)
    then show ?thesis using Cons.IH [of "insert (j, i) K" best] Cons.prems None by (simp add: p)
  next
    case (Some v)
    then have "v \<noteq> []" using assms(2) by (auto simp: ran_def)
    obtain op where op: "nodes (nodes_manager D) i = Some op" using Cons.prems p by auto
    let ?b = "better_edge (j, i) (estimated_cardinality (nodes_manager D) op) (length v) best"
    have "best_ok (edge_value D) (insert (j, i) K) ?b"
      using Some op \<open>v \<noteq> []\<close> by (intro best_ok_better Cons.prems) (auto simp: edge_value_def)
    then show ?thesis
      using Cons.IH [of "insert (j, i) K" ?b] Cons.prems Some op by (simp add: p getNode_def)
  qed
qed simp

lemma FindEdge_spec:
  assumes "hash_ok H" and "finite C" and "finite U" and "[] \<notin> ran (filters_and_bindings D)"
    and "U \<subseteq> dom (nodes (nodes_manager D))"
  shows "\<exists>w c r. FindEdge H C U D = Some r \<and> best_ok (edge_value D) (C \<times> U) (w, c, r)"
proof -
  let ?ps = "List.product (ord_unconstructed H U) (ord_constructed H C)"
  have "prod.swap ` set ?ps = C \<times> U" using hash_okD [OF assms(1)] assms(2,3) by force
  moreover have "best_ok (edge_value D) {} (0, 0, None)" by (simp add: best_ok_def)
  moreover have "\<forall>(i, j) \<in> set ?ps. i \<in> dom (nodes (nodes_manager D))"
    using hash_okD [OF assms(1)] assms(3,5) by auto
  ultimately show ?thesis
    using FindEdge_loop [OF _ assms(4), of "{}" "(0, 0, None)" ?ps] unfolding FindEdge_def by fastforce
qed

text \<open>The random variant also finds an edge whenever there is one.\<close>

definition found_ok :: "edge_map \<Rightarrow> (nat \<times> nat) set \<Rightarrow> best_edge \<Rightarrow> bool" where
  "found_ok fb K best \<longleftrightarrow> (case snd (snd best) of None \<Rightarrow> fst best = 0 \<and> (\<forall>k \<in> K. fb k = None)
     | Some k \<Rightarrow> k \<in> K \<and> fb k \<noteq> None)"

lemma found_ok_skip: "found_ok fb K best \<Longrightarrow> fb k = None \<Longrightarrow> found_ok fb (insert k K) best"
  by (auto simp: found_ok_def split: option.splits)

lemma found_ok_better:
  "found_ok fb K best \<Longrightarrow> fb k = Some v \<Longrightarrow> v \<noteq> [] \<Longrightarrow> found_ok fb (insert k K) (better_edge k c (length v) best)"
  by (cases best) (auto simp: found_ok_def better_edge_def split: option.splits)

lemma FindEdgeRandom_loop:
  assumes "[] \<notin> ran fb" and "found_ok fb K best"
  shows "found_ok fb (K \<union> prod.swap ` set ps) (fst (fold (\<lambda>(i, j) (best, n).
      case fb (j, i) of None \<Rightarrow> (best, n)
      | Some v \<Rightarrow> (better_edge (j, i) (dist n) (length v) best, Suc n)) ps (best, n)))"
  using assms(2)
proof (induction ps arbitrary: best n K)
  case (Cons p ps)
  obtain i j where p: "p = (i, j)" by (cases p)
  show ?case
  proof (cases "fb (j, i)")
    case None
    then show ?thesis
      using Cons.IH [OF found_ok_skip [OF Cons.prems None]] by (simp add: p)
  next
    case (Some v)
    then have "v \<noteq> []" using assms(1) by (auto simp: ran_def)
    then show ?thesis
      using Cons.IH [OF found_ok_better [OF Cons.prems Some]] Some by (simp add: p)
  qed
qed simp

lemma FindEdgeRandom_spec:
  assumes "hash_ok H" and "finite C" and "finite U" and "[] \<notin> ran (filters_and_bindings D)"
  shows "\<exists>r n. FindEdgeRandom dist H C U D = (r, D\<lparr>draws := n\<rparr>) \<and>
    (case r of None \<Rightarrow> \<forall>k \<in> C \<times> U. filters_and_bindings D k = None
     | Some k \<Rightarrow> k \<in> C \<times> U \<and> filters_and_bindings D k \<noteq> None)"
proof -
  let ?ps = "List.product (ord_unconstructed H U) (ord_constructed H C)"
  have "prod.swap ` set ?ps = C \<times> U" using hash_okD [OF assms(1)] assms(2,3) by force
  moreover have "found_ok (filters_and_bindings D) {} (0, 0, None)" by (simp add: found_ok_def)
  ultimately show ?thesis
    using FindEdgeRandom_loop [OF assms(4), of "{}" "(0, 0, None)" ?ps dist "draws D"]
    by (auto simp: FindEdgeRandom_def Let_def found_ok_def split: prod.splits option.splits)
qed

section \<open>Finders\<close>

text \<open>
  What the growth of a tree relies on: a finder returns an edge from the constructed to
  the unconstructed vertices if there is one, and changes nothing but the state of the
  random generator.
\<close>

locale finder =
  fixes ready :: bool and fe :: edge_finder
  assumes finds: "\<lbrakk>ready; finite C; finite U; [] \<notin> ran (filters_and_bindings D); U \<subseteq> dom (nodes (nodes_manager D))\<rbrakk> \<Longrightarrow>
    \<exists>r n. fe C U D = Some (r, D\<lparr>draws := n\<rparr>) \<and>
      (case r of None \<Rightarrow> \<forall>k \<in> C \<times> U. filters_and_bindings D k = None
       | Some k \<Rightarrow> k \<in> C \<times> U \<and> filters_and_bindings D k \<noteq> None)"

interpretation largest: finder "hash_ok H" "\<lambda>C U D. map_option (\<lambda>e. (e, D)) (FindEdge H C U D)" for H
proof
  fix C U :: "nat set" and D :: DAGManager
  assume a: "hash_ok H" "finite C" "finite U" "[] \<notin> ran (filters_and_bindings D)" "U \<subseteq> dom (nodes (nodes_manager D))"
  from FindEdge_spec [OF a] obtain w c r where
    "FindEdge H C U D = Some r" and best: "best_ok (edge_value D) (C \<times> U) (w, c, r)" by blast
  moreover have "D = D\<lparr>draws := draws D\<rparr>" by simp
  moreover have "case r of None \<Rightarrow> \<forall>k \<in> C \<times> U. filters_and_bindings D k = None
       | Some k \<Rightarrow> k \<in> C \<times> U \<and> filters_and_bindings D k \<noteq> None"
    using best by (auto simp: best_ok_def edge_value_def split: option.splits)
  ultimately have "map_option (\<lambda>e. (e, D)) (FindEdge H C U D) = Some (r, D\<lparr>draws := draws D\<rparr>) \<and>
      (case r of None \<Rightarrow> \<forall>k \<in> C \<times> U. filters_and_bindings D k = None
       | Some k \<Rightarrow> k \<in> C \<times> U \<and> filters_and_bindings D k \<noteq> None)" by simp
  then show "\<exists>r n. map_option (\<lambda>e. (e, D)) (FindEdge H C U D) = Some (r, D\<lparr>draws := n\<rparr>) \<and>
      (case r of None \<Rightarrow> \<forall>k \<in> C \<times> U. filters_and_bindings D k = None
       | Some k \<Rightarrow> k \<in> C \<times> U \<and> filters_and_bindings D k \<noteq> None)" by blast
qed

interpretation rand: finder "hash_ok H" "\<lambda>C U D. Some (FindEdgeRandom dist H C U D)" for H dist
  by unfold_locales (use FindEdgeRandom_spec in fastforce)

section \<open>The forest invariant\<close>

definition edge_between :: "(nat \<rightharpoonup> LogicalOperator) \<Rightarrow> nat \<Rightarrow> nat \<Rightarrow> DAGEdgeInfo \<Rightarrow> bool" where
  "edge_between N a b info \<longleftrightarrow> N a = Some (large info) \<and> N b = Some (small info) \<or>
     N b = Some (large info) \<and> N a = Some (small info)"

definition good_edge :: "(DAGEdgeInfo \<Rightarrow> bool) \<Rightarrow> (nat \<rightharpoonup> LogicalOperator) \<Rightarrow> nat \<Rightarrow> nat \<Rightarrow> DAGEdgeInfo \<Rightarrow> bool" where
  "good_edge Q N a b info \<longleftrightarrow> edge_between N a b info \<and> Q info"

definition before :: "nat list \<Rightarrow> nat \<Rightarrow> nat \<Rightarrow> bool" where
  "before ks a b \<longleftrightarrow> (\<exists>i j. i < j \<and> j < length ks \<and> ks ! i = a \<and> ks ! j = b)"

text \<open>
  \<open>N\<close> is the complete map of vertices, \<open>U\<close> the vertices not reached yet, \<open>ks\<close> the
  reached ones in order, and \<open>par\<close> the parents of the reached ones that are no roots.
  The edges that lead to a vertex of \<open>U\<close> have not been moved. \<open>Q\<close> is any property all
  edges have; \<open>rn\<close> are the renamed columns, which stay as they are.
\<close>

definition pending_ok :: "(DAGEdgeInfo \<Rightarrow> bool) \<Rightarrow> (nat \<rightharpoonup> LogicalOperator) \<Rightarrow> nat set \<Rightarrow> edge_map \<Rightarrow> bool" where
  "pending_ok Q N U fb \<longleftrightarrow> [] \<notin> ran fb \<and>
     (\<forall>a b v. b \<in> U \<longrightarrow> fb (a, b) = Some v \<longrightarrow> (\<forall>e \<in> set v. \<exists>info. e = Some info \<and> good_edge Q N a b info))"

definition vertex_new :: "nat \<Rightarrow> int \<Rightarrow> DAGNode \<Rightarrow> bool" where
  "vertex_new k p nd \<longleftrightarrow> (\<exists>c r. nd = (DAGNode_new k c r)\<lparr>priority := p\<rparr>)"

definition selected_ok :: "(DAGEdgeInfo \<Rightarrow> bool) \<Rightarrow> (nat \<rightharpoonup> LogicalOperator) \<Rightarrow> (nat \<rightharpoonup> nat) \<Rightarrow> DAGEdgeInfo option list \<Rightarrow> bool" where
  "selected_ok Q N par es \<longleftrightarrow>
     (\<forall>e \<in> set es. \<exists>info a b. e = Some info \<and> par b = Some a \<and> good_edge Q N a b info)"

definition forest_inv :: "(ColumnBinding \<rightharpoonup> ColumnBinding) \<Rightarrow> (DAGEdgeInfo \<Rightarrow> bool) \<Rightarrow> (nat \<rightharpoonup> LogicalOperator) \<Rightarrow> nat set \<Rightarrow> nat list \<Rightarrow> (nat \<rightharpoonup> nat) \<Rightarrow> DAGManager \<Rightarrow> bool" where
  "forest_inv rn Q N U ks par D \<longleftrightarrow> finite (dom N) \<and> U \<subseteq> dom N \<and>
     nodes (nodes_manager D) = N |` U \<and> duplicate_nodes (nodes_manager D) = N \<and> rename_cols (nodes_manager D) = rn \<and>
     distinct ks \<and> set ks = dom N - U \<and> ExecOrder D = map (\<lambda>k. the (N k)) ks \<and>
     (\<forall>i < length ks. \<exists>nd. dag_nodes D (ks ! i) = Some nd \<and> vertex_new (ks ! i) (int (card (dom N)) - 1 - int i) nd) \<and>
     pending_ok Q N U (filters_and_bindings D) \<and>
     (\<forall>a b. par b = Some a \<longrightarrow> before ks a b) \<and>
     selected_ok Q N par (selected_filters_and_bindings D)"

definition fresh_vertices :: "nat set \<Rightarrow> DAGManager \<Rightarrow> bool" where
  "fresh_vertices U D \<longleftrightarrow> (\<forall>k \<in> U. \<exists>nd. dag_nodes D k = Some nd \<and> vertex_new k (-1) nd)"

lemma vertex_new_priority: "vertex_new k p nd \<Longrightarrow> vertex_new k q (nd\<lparr>priority := q\<rparr>)"
  unfolding vertex_new_def by (elim exE, intro exI) simp

lemma before_append: "before ks a b \<Longrightarrow> before (ks @ ls) a b"
proof -
  assume "before ks a b"
  then obtain i j where "i < j" "j < length ks" "ks ! i = a" "ks ! j = b" by (auto simp: before_def)
  then show ?thesis unfolding before_def by (intro exI [of _ i] exI [of _ j]) (simp add: nth_append)
qed

lemma before_snoc: "a \<in> set ks \<Longrightarrow> before (ks @ [b]) a b"
  unfolding before_def
  by (metis in_set_conv_nth length_append_singleton lessI nth_append nth_append_length)

lemma before_mem: "before ks a b \<Longrightarrow> a \<in> set ks \<and> b \<in> set ks"
  by (auto simp: before_def)

lemma before_asym: "distinct ks \<Longrightarrow> before ks a b \<Longrightarrow> \<not> before ks b a"
  unfolding before_def by (metis nth_eq_iff_index_eq order.strict_trans less_asym)

lemma forest_invD:
  assumes "forest_inv rn Q N U ks par D"
  shows "finite (dom N)" "U \<subseteq> dom N" "nodes (nodes_manager D) = N |` U" "duplicate_nodes (nodes_manager D) = N"
    "distinct ks" "set ks = dom N - U" "ExecOrder D = map (\<lambda>k. the (N k)) ks"
    "pending_ok Q N U (filters_and_bindings D)" "par b = Some a \<Longrightarrow> before ks a b"
    "selected_ok Q N par (selected_filters_and_bindings D)" "rename_cols (nodes_manager D) = rn"
  using assms by (simp_all add: forest_inv_def)

lemma forest_card:
  assumes "forest_inv rn Q N U ks par D"
  shows "finite U" "card (dom N) = length ks + card U"
proof -
  show "finite U" using assms by (auto simp: forest_inv_def intro: finite_subset)
  moreover have "dom N = set ks \<union> U" "set ks \<inter> U = {}" using assms by (auto simp: forest_inv_def)
  ultimately show "card (dom N) = length ks + card U"
    using assms by (simp add: card_Un_disjoint distinct_card forest_inv_def)
qed

lemma pending_ok_mono: "pending_ok Q N U fb \<Longrightarrow> U' \<subseteq> U \<Longrightarrow> pending_ok Q N U' fb"
  unfolding pending_ok_def by blast

lemma pending_ok_select:
  assumes "pending_ok Q N U fb" and "fb (a, b) = Some v"
  shows "pending_ok Q N (U - {b}) (fb((a, b) \<mapsto> map (\<lambda>_. None) v))"
  using assms by (auto simp: pending_ok_def ran_def split: if_splits)

text \<open>A vertex is moved from the unreached to the reached ones.\<close>

lemma emit_node_inv:
  assumes inv: "forest_inv rn Q N U ks par D" and b: "b \<in> U"
    and nd: "dag_nodes D b = Some nd" "vertex_new b (int (card U) - 1) nd"
  shows "\<exists>D'. emit_node b D = Some D' \<and> forest_inv rn Q N (U - {b}) (ks @ [b]) par D' \<and>
    dag_nodes D' = dag_nodes D \<and> filters_and_bindings D' = filters_and_bindings D \<and> selected_filters_and_bindings D' = selected_filters_and_bindings D"
proof -
  obtain op where op: "N b = Some op" using inv b by (auto simp: forest_inv_def)
  let ?D = "D\<lparr>ExecOrder := ExecOrder D @ [op], nodes_manager := EraseNode b (nodes_manager D)\<rparr>"
  have "emit_node b D = Some ?D"
    using inv b op by (simp add: emit_node_def getNode_def forest_inv_def restrict_map_def)
  moreover have "(N |` U)(b := None) = N |` (U - {b})" by (auto simp: restrict_map_def)
  moreover have "\<exists>nd. dag_nodes D ((ks @ [b]) ! i) = Some nd \<and> vertex_new ((ks @ [b]) ! i) (int (card (dom N)) - 1 - int i) nd"
    if "i < length (ks @ [b])" for i
  proof (cases "i < length ks")
    case True
    then show ?thesis using inv unfolding forest_inv_def nth_append by simp
  next
    case False
    then have "i = length ks" using that by simp
    moreover have "vertex_new b (int (card (dom N)) - 1 - int (length ks)) nd" using nd(2) forest_card [OF inv] by simp
    ultimately show ?thesis using nd(1) by simp
  qed
  moreover have "set (ks @ [b]) = dom N - (U - {b})" "b \<notin> set ks" using inv b by (auto simp: forest_inv_def)
  ultimately show ?thesis
    using inv op
    by (auto simp: forest_inv_def EraseNode_def before_append intro: pending_ok_mono)
qed

lemma selected_ok_append:
  assumes "selected_ok Q N par es" and "par b = Some a" and "\<forall>e \<in> set v. \<exists>info. e = Some info \<and> good_edge Q N a b info"
  shows "selected_ok Q N par (es @ v)"
  using assms unfolding selected_ok_def set_append by blast

lemma selected_ok_par:
  assumes "selected_ok Q N par es" and "par b = None"
  shows "selected_ok Q N (par(b \<mapsto> a)) es"
  using assms unfolding selected_ok_def by (metis fun_upd_other option.distinct(1))

lemma forest_inv_selected:
  assumes "forest_inv rn Q N U ks par D" and "par b = Some a"
    and "\<forall>e \<in> set v. \<exists>info. e = Some info \<and> good_edge Q N a b info" and "pending_ok Q N U fb"
  shows "forest_inv rn Q N U ks par (D\<lparr>selected_filters_and_bindings := selected_filters_and_bindings D @ v, filters_and_bindings := fb\<rparr>)"
  using assms(1,4) selected_ok_append [OF forest_invD(10) [OF assms(1)] assms(2,3)] unfolding forest_inv_def by simp

lemma forest_inv_par:
  assumes "forest_inv rn Q N U ks par D" and "par b = None" and "before ks a b"
  shows "forest_inv rn Q N U ks (par(b \<mapsto> a)) D"
  using assms(1,3) selected_ok_par [OF forest_invD(10) [OF assms(1)] assms(2)] unfolding forest_inv_def by simp

lemma forest_inv_draws: "forest_inv rn Q N U ks par D \<Longrightarrow> forest_inv rn Q N U ks par (D\<lparr>draws := n\<rparr>)"
  by (simp add: forest_inv_def)

lemma forest_inv_unreached:
  assumes "forest_inv rn Q N U ks par D" and "\<And>k. k \<notin> U \<Longrightarrow> ns k = dag_nodes D k"
  shows "forest_inv rn Q N U ks par (D\<lparr>dag_nodes := ns\<rparr>)"
proof -
  have "ks ! i \<notin> U" if "i < length ks" for i
    using assms(1) that nth_mem [OF that] by (auto simp: forest_inv_def)
  then show ?thesis using assms by (simp add: forest_inv_def)
qed

lemma attach_vertex_inv:
  assumes inv: "forest_inv rn Q N U ks par D" and fresh: "fresh_vertices U D"
    and e: "a \<in> set ks" "b \<in> U" "filters_and_bindings D (a, b) \<noteq> None"
  shows "\<exists>D'. attach_vertex (int (card U) - 1) (a, b) D = Some D' \<and>
    forest_inv rn Q N (U - {b}) (ks @ [b]) (par(b \<mapsto> a)) D' \<and> fresh_vertices (U - {b}) D'"
proof -
  obtain v where v: "filters_and_bindings D (a, b) = Some v" using e by auto
  obtain nd where nd: "dag_nodes D b = Some nd" "vertex_new b (-1) nd"
    using fresh e by (auto simp: fresh_vertices_def)
  let ?p = "int (card U) - 1" and ?fb = "(filters_and_bindings D)((a, b) \<mapsto> map (\<lambda>_. None) v)"
  let ?ns = "(dag_nodes D)(b \<mapsto> nd\<lparr>priority := ?p\<rparr>)"
  let ?sel = "selected_filters_and_bindings D @ v"
  let ?D0 = "D\<lparr>dag_nodes := ?ns\<rparr>"
  have id: "node_id nd = b" using nd(2) by (auto simp: vertex_new_def DAGNode_new_def)
  have "forest_inv rn Q N U ks par ?D0"
    using e by (intro forest_inv_unreached [OF inv]) auto
  moreover have "dag_nodes ?D0 b = Some (nd\<lparr>priority := ?p\<rparr>)" by simp
  moreover have "vertex_new b ?p (nd\<lparr>priority := ?p\<rparr>)" using nd(2) by (rule vertex_new_priority)
  ultimately obtain D1 where D1: "emit_node b ?D0 = Some D1" "forest_inv rn Q N (U - {b}) (ks @ [b]) par D1"
      "dag_nodes D1 = ?ns" "filters_and_bindings D1 = filters_and_bindings D" "selected_filters_and_bindings D1 = selected_filters_and_bindings D"
    using emit_node_inv [of rn Q N U ks par ?D0 b] e(2) by auto
  let ?D2 = "D1\<lparr>selected_filters_and_bindings := ?sel, filters_and_bindings := ?fb\<rparr>"
  have "b \<notin> set ks" using inv e by (auto simp: forest_inv_def)
  then have "par b = None" using forest_invD(9) [OF inv, of b] before_mem by (cases "par b") blast+
  then have "forest_inv rn Q N (U - {b}) (ks @ [b]) (par(b \<mapsto> a)) D1"
    by (rule forest_inv_par [OF D1(2) _ before_snoc [OF e(1)]])
  moreover have "pending_ok Q N U (filters_and_bindings D)" using inv by (simp add: forest_inv_def)
  then have "\<forall>e \<in> set v. \<exists>info. e = Some info \<and> good_edge Q N a b info" "pending_ok Q N (U - {b}) ?fb"
    using v e(2) pending_ok_select [of Q N U "filters_and_bindings D" a b v] by (auto simp: pending_ok_def)
  ultimately have "forest_inv rn Q N (U - {b}) (ks @ [b]) (par(b \<mapsto> a)) ?D2"
    using forest_inv_selected [of rn Q N "U - {b}" "ks @ [b]" "par(b \<mapsto> a)" D1 b a v ?fb] D1(5) by simp
  moreover have "attach_vertex ?p (a, b) D = Some ?D2"
    using D1(1) nd(1) v id by (auto simp: attach_vertex_def select_edges_def emit_node_def Let_def)
  moreover have "fresh_vertices (U - {b}) ?D2"
    using fresh D1(3) by (simp add: fresh_vertices_def)
  ultimately show ?thesis by blast
qed

context finder
begin

lemma grow_tree_inv:
  assumes "ready" and "forest_inv rn Q N U ks par D" and "fresh_vertices U D" and "C \<subseteq> set ks" and "finite C"
  shows "\<exists>D' U' ks' par'. grow_tree fe C U (int (card U) - 1) D = Some D' \<and> forest_inv rn Q N U' ks' par' D' \<and> U' \<subseteq> U"
  using assms(2-)
proof (induction "card U" arbitrary: U ks par D C)
  case 0
  then have "U = {}" using forest_card by auto
  then show ?case using 0 by (auto simp: grow_tree.simps)
next
  case (Suc n)
  have fin: "finite U" and ne: "U \<noteq> {}" using Suc.hyps(2) forest_card [OF Suc.prems(1)] by auto
  have "[] \<notin> ran (filters_and_bindings D)" "U \<subseteq> dom (nodes (nodes_manager D))"
    using Suc.prems(1) by (auto simp: forest_inv_def pending_ok_def)
  from finds [OF assms(1) Suc.prems(4) fin this] obtain r m where
    fe: "fe C U D = Some (r, D\<lparr>draws := m\<rparr>)" and
    r: "case r of None \<Rightarrow> \<forall>k \<in> C \<times> U. filters_and_bindings D k = None
       | Some k \<Rightarrow> k \<in> C \<times> U \<and> filters_and_bindings D k \<noteq> None" by blast
  show ?case
  proof (cases r)
    case None
    then have "grow_tree fe C U (int (card U) - 1) D = Some (D\<lparr>draws := m\<rparr>)"
      using fe ne by (simp add: grow_tree.simps)
    then show ?thesis using forest_inv_draws [OF Suc.prems(1)] by blast
  next
    case (Some e)
    obtain a b where e: "e = (a, b)" by (cases e)
    let ?D = "D\<lparr>draws := m\<rparr>"
    have ab: "a \<in> set ks" "b \<in> U" "filters_and_bindings ?D (a, b) \<noteq> None" using r Some e Suc.prems(3) by auto
    have "fresh_vertices U ?D" using Suc.prems(2) by (simp add: fresh_vertices_def)
    from attach_vertex_inv [OF forest_inv_draws [OF Suc.prems(1)] this ab] obtain D1 where
      D1: "attach_vertex (int (card U) - 1) (a, b) ?D = Some D1"
        "forest_inv rn Q N (U - {b}) (ks @ [b]) (par(b \<mapsto> a)) D1" "fresh_vertices (U - {b}) D1" by blast
    have card: "n = card (U - {b})" "int (card (U - {b})) - 1 = int (card U) - 1 - 1"
      using Suc.hyps(2) ab(2) fin by (auto simp: card_Diff_singleton)
    have "insert b C \<subseteq> set (ks @ [b])" "finite (insert b C)" using Suc.prems(3,4) by auto
    from Suc.hyps(1) [OF card(1) D1(2,3) this] obtain D' U' ks' par' where
      "grow_tree fe (insert b C) (U - {b}) (int (card U) - 1 - 1) D1 = Some D'" "forest_inv rn Q N U' ks' par' D'" "U' \<subseteq> U - {b}"
      unfolding card(2) by blast
    moreover from this(1) have "grow_tree fe C U (int (card U) - 1) D = Some D'"
      using fe Some e D1(1) ne by (simp add: grow_tree.simps [of fe C U])
    ultimately show ?thesis by blast
  qed
qed

end

section \<open>One tree\<close>

text \<open>Operators of one map of vertices are told apart by their addresses.\<close>

definition addresses_distinct :: "(nat \<rightharpoonup> LogicalOperator) \<Rightarrow> bool" where
  "addresses_distinct N \<longleftrightarrow> (\<forall>j k x y. N j = Some x \<longrightarrow> N k = Some y \<longrightarrow> same_op x y \<longrightarrow> j = k)"

lemma create_vertices_unconstructed:
  assumes "\<forall>(k, op) \<in> set vs. \<not> same_op op last_op"
  shows "\<exists>ns. fold (create_vertex last_op) vs (D, V) =
      (D\<lparr>dag_nodes := ns\<rparr>, V\<lparr>unconstructed := unconstructed V \<union> fst ` set vs\<rparr>) \<and>
    (\<forall>k. k \<notin> fst ` set vs \<longrightarrow> ns k = dag_nodes D k) \<and> (\<forall>k \<in> fst ` set vs. \<exists>nd. ns k = Some nd \<and> vertex_new k (-1) nd)"
  using assms
proof (induction vs arbitrary: D V)
  case Nil
  show ?case by (intro exI [of _ "dag_nodes D"]) simp
next
  case (Cons v vs)
  obtain k op where v: "v = (k, op)" by (cases v)
  let ?D = "D\<lparr>dag_nodes := (dag_nodes D)(k \<mapsto> DAGNode_new k (estimated_cardinality (nodes_manager D) op) False)\<rparr>"
  have new: "vertex_new k (-1) (DAGNode_new k c r)" for c r
    unfolding vertex_new_def by (intro exI [of _ c] exI [of _ r]) (simp add: DAGNode_new_def)
  have "create_vertex last_op v (D, V) = (?D, V\<lparr>unconstructed := insert k (unconstructed V)\<rparr>)"
    using Cons.prems v by (simp add: create_vertex_def Let_def)
  moreover obtain ns where "fold (create_vertex last_op) vs (?D, V\<lparr>unconstructed := insert k (unconstructed V)\<rparr>) =
      (D\<lparr>dag_nodes := ns\<rparr>, V\<lparr>unconstructed := insert k (unconstructed V) \<union> fst ` set vs\<rparr>)"
    "\<forall>j. j \<notin> fst ` set vs \<longrightarrow> ns j = dag_nodes ?D j" "\<forall>j \<in> fst ` set vs. \<exists>nd. ns j = Some nd \<and> vertex_new j (-1) nd"
    using Cons.IH [of ?D "V\<lparr>unconstructed := insert k (unconstructed V)\<rparr>"] Cons.prems by auto
  moreover from this(2,3) have "\<exists>nd. ns j = Some nd \<and> vertex_new j (-1) nd" if "j \<in> insert k (fst ` set vs)" for j
    using that new by (cases "j \<in> fst ` set vs") auto
  moreover have "insert k (unconstructed V) \<union> fst ` set vs = unconstructed V \<union> fst ` set (v # vs)" using v by auto
  ultimately show ?case
    using v by (intro exI [of _ ns]) simp
qed

lemma create_vertices:
  assumes "distinct (map fst vs)" and "(r, op) \<in> set vs" and "same_op op last_op"
    and "\<forall>(k, op') \<in> set vs. same_op op' last_op \<longrightarrow> k = r"
  shows "\<exists>ns nd. fold (create_vertex last_op) vs (D, \<lparr>constructed = {}, unconstructed = {}, prior_flag = p, root_id = None\<rparr>) =
      (D\<lparr>dag_nodes := ns\<rparr>, \<lparr>constructed = {r}, unconstructed = fst ` set vs - {r}, prior_flag = p - 1, root_id = Some r\<rparr>) \<and>
    (\<forall>k. k \<notin> fst ` set vs \<longrightarrow> ns k = dag_nodes D k) \<and> ns r = Some nd \<and> vertex_new r p nd \<and>
    (\<forall>k \<in> fst ` set vs - {r}. \<exists>nd. ns k = Some nd \<and> vertex_new k (-1) nd)"
proof -
  obtain xs ys where vs: "vs = xs @ (r, op) # ys" using assms(2) by (meson split_list)
  then have r: "r \<notin> fst ` set xs" "r \<notin> fst ` set ys" using assms(1) by auto
  let ?V = "\<lparr>constructed = {}, unconstructed = {}, prior_flag = p, root_id = None\<rparr> :: vertex_sets"
  have "\<forall>(k, op') \<in> set xs. \<not> same_op op' last_op" using assms(4) vs r by force
  from create_vertices_unconstructed [OF this, of D ?V] obtain ns1 where
    ns1: "fold (create_vertex last_op) xs (D, ?V) = (D\<lparr>dag_nodes := ns1\<rparr>, ?V\<lparr>unconstructed := fst ` set xs\<rparr>)"
      "\<forall>k. k \<notin> fst ` set xs \<longrightarrow> ns1 k = dag_nodes D k" "\<forall>k \<in> fst ` set xs. \<exists>nd. ns1 k = Some nd \<and> vertex_new k (-1) nd"
    by auto
  let ?nd = "(DAGNode_new r (estimated_cardinality (nodes_manager D) op) True)\<lparr>priority := p\<rparr>"
  let ?D1 = "D\<lparr>dag_nodes := ns1(r \<mapsto> ?nd)\<rparr>"
  let ?V1 = "?V\<lparr>constructed := {r}, unconstructed := fst ` set xs, prior_flag := p - 1, root_id := Some r\<rparr>"
  have step: "create_vertex last_op (r, op) (D\<lparr>dag_nodes := ns1\<rparr>, ?V\<lparr>unconstructed := fst ` set xs\<rparr>) = (?D1, ?V1)"
    using assms(3) by (simp add: create_vertex_def Let_def)
  have "\<forall>(k, op') \<in> set ys. \<not> same_op op' last_op" using assms(4) vs r by force
  from create_vertices_unconstructed [OF this, of ?D1 ?V1] obtain ns2 where
    ns2: "fold (create_vertex last_op) ys (?D1, ?V1) = (D\<lparr>dag_nodes := ns2\<rparr>, ?V1\<lparr>unconstructed := fst ` set xs \<union> fst ` set ys\<rparr>)"
      "\<forall>k. k \<notin> fst ` set ys \<longrightarrow> ns2 k = (ns1(r \<mapsto> ?nd)) k" "\<forall>k \<in> fst ` set ys. \<exists>nd. ns2 k = Some nd \<and> vertex_new k (-1) nd"
    by auto
  have "vertex_new r p ?nd" unfolding vertex_new_def by blast
  moreover have "fst ` set vs - {r} = fst ` set xs \<union> fst ` set ys" using vs r by auto
  moreover have "ns2 r = Some ?nd" using ns2(2) r(2) by simp
  moreover have "\<exists>nd. ns2 k = Some nd \<and> vertex_new k (-1) nd" if "k \<in> fst ` set xs \<union> fst ` set ys" for k
    using that ns1(3) ns2(2,3) r by (cases "k \<in> fst ` set ys") auto
  moreover have "ns2 k = dag_nodes D k" if "k \<notin> fst ` set vs" for k
  proof -
    have "k \<notin> fst ` set xs" "k \<notin> fst ` set ys" "k \<noteq> r" using that vs by auto
    then show ?thesis using ns1(2) ns2(2) by simp
  qed
  moreover have "fold (create_vertex last_op) vs (D, ?V) = (D\<lparr>dag_nodes := ns2\<rparr>, ?V1\<lparr>unconstructed := fst ` set xs \<union> fst ` set ys\<rparr>)"
    using ns1(1) step ns2(1) by (simp add: vs)
  ultimately show ?thesis by (intro exI [of _ ns2] exI [of _ ?nd]) simp
qed

context finder
begin

lemma root_tree_inv:
  assumes ready and H: "order_ok (ord_nodes H)" and inv: "forest_inv rn Q N U ks par D" and N: "addresses_distinct N"
    and sorted: "sorted_nodes \<noteq> []" "r \<in> U" "N r = Some (last sorted_nodes)"
  shows "\<exists>D' U' ks' par'. root_tree fe H sorted_nodes D = Some D' \<and> forest_inv rn Q N U' ks' par' D' \<and> U' \<subset> U"
proof -
  let ?last_op = "last sorted_nodes" and ?p = "int (card U) - 1"
  have fin: "finite U" using forest_card [OF inv] by simp
  have dom: "dom (nodes (nodes_manager D)) = U" using forest_invD(2,3) [OF inv] by auto
  let ?vs = "map (\<lambda>k. (k, the (nodes (nodes_manager D) k))) (ord_nodes H U)"
  have ks: "set (ord_nodes H U) = U" "distinct (ord_nodes H U)" using H fin by (auto simp: order_ok_def)
  have the: "nodes (nodes_manager D) k = N k" if "k \<in> U" for k using forest_invD(3) [OF inv] that by simp
  have fst: "fst ` set ?vs = U" "map fst ?vs = ord_nodes H U" using ks(1) by (simp_all add: image_image comp_def)
  have vs: "distinct (map fst ?vs)" "(r, ?last_op) \<in> set ?vs" "same_op ?last_op ?last_op"
    using ks sorted(2,3) the by (auto simp: comp_def same_op_def image_iff)
  have other: "\<forall>(k, op') \<in> set ?vs. same_op op' ?last_op \<longrightarrow> k = r"
  proof (clarsimp simp: ks)
    fix k assume "k \<in> U" "same_op (the (nodes (nodes_manager D) k)) ?last_op"
    then show "k = r"
      using N sorted the forest_invD(2) [OF inv] unfolding addresses_distinct_def by (metis domD option.sel subsetD)
  qed
  from create_vertices [OF vs other, of D ?p] obtain ns nd where
    cv: "fold (create_vertex ?last_op) ?vs (D, \<lparr>constructed = {}, unconstructed = {}, prior_flag = ?p, root_id = None\<rparr>) =
      (D\<lparr>dag_nodes := ns\<rparr>, \<lparr>constructed = {r}, unconstructed = U - {r}, prior_flag = ?p - 1, root_id = Some r\<rparr>)"
    and out: "\<And>k. k \<notin> U \<Longrightarrow> ns k = dag_nodes D k" and nd: "ns r = Some nd" "vertex_new r ?p nd"
    and rest: "\<forall>k \<in> U - {r}. \<exists>nd. ns k = Some nd \<and> vertex_new k (-1) nd" unfolding fst(1) by auto
  have "forest_inv rn Q N U ks par (D\<lparr>dag_nodes := ns\<rparr>)" using out by (rule forest_inv_unreached [OF inv])
  from emit_node_inv [OF this sorted(2)] nd obtain D1 where
    D1: "emit_node r (D\<lparr>dag_nodes := ns\<rparr>) = Some D1" "forest_inv rn Q N (U - {r}) (ks @ [r]) par D1" "dag_nodes D1 = ns"
    by auto
  have "fresh_vertices (U - {r}) D1" using rest D1(3) by (simp add: fresh_vertices_def)
  from grow_tree_inv [OF assms(1) D1(2) this, of "{r}"] obtain D' U' ks' par' where
    g: "grow_tree fe {r} (U - {r}) (int (card (U - {r})) - 1) D1 = Some D'" "forest_inv rn Q N U' ks' par' D'" "U' \<subseteq> U - {r}"
    by auto
  have "int (card (U - {r})) - 1 = int (card U) - 2" using fin sorted(2) card_Suc_Diff1 [of U r] by linarith
  with g(1) have "grow_tree fe {r} (U - {r}) (int (card U) - 2) D1 = Some D'" by simp
  then have "root_tree fe H sorted_nodes D = Some D'"
    using sorted(1) cv D1(1) by (simp add: root_tree_def NumNodes_def dom)
  moreover have "U' \<subset> U" using g(3) sorted(2) by auto
  ultimately show ?thesis using g(2) by blast
qed

end

section \<open>The forest\<close>

lemma last_sorted_vertex:
  assumes "order_ok r" and "finite (dom (nodes m))" and "nodes m \<noteq> Map.empty"
  shows "sort_nodes (ReSortNodes r m) \<noteq> [] \<and>
    (\<exists>k. k \<in> dom (nodes m) \<and> nodes m k = Some (last (sort_nodes (ReSortNodes r m))))"
proof -
  let ?l = "map (\<lambda>k. the (nodes m k)) (r (dom (nodes m)))"
  have ks: "set (r (dom (nodes m))) = dom (nodes m)" using assms by (simp add: order_ok_def)
  have sort: "sort_nodes (ReSortNodes r m) = sort_key (\<lambda>op. card_of m (op_id (op_of op))) ?l"
    by (simp add: ReSortNodes_def Let_def)
  have "r (dom (nodes m)) \<noteq> []" using ks assms(3) by (metis dom_eq_empty_conv list.set(1))
  then have "?l \<noteq> []" by simp
  then have ne: "sort_nodes (ReSortNodes r m) \<noteq> []" unfolding sort by (metis length_0_conv length_sort)
  then have "last (sort_nodes (ReSortNodes r m)) \<in> set ?l" using last_in_set sort by (metis set_sort)
  then show ?thesis using ne ks by auto
qed

lemma grow_forest_inv:
  assumes H: "hash_ok H" and N: "addresses_distinct N" and inv: "forest_inv rn Q N U ks par D"
    and sorted: "U \<noteq> {} \<Longrightarrow> sort_nodes (nodes_manager D) \<noteq> [] \<and> (\<exists>r \<in> U. N r = Some (last (sort_nodes (nodes_manager D))))"
  shows "\<exists>D' ks' par'. grow_forest H D = Some D' \<and> forest_inv rn Q N {} ks' par' D'"
  using inv sorted
proof (induction "card U" arbitrary: U ks par D rule: less_induct)
  case less
  have dom: "dom (nodes (nodes_manager D)) = U" using forest_invD(2,3) [OF less.prems(1)] by auto
  show ?case
  proof (cases "U = {}")
    case True
    then have "grow_forest H D = Some D" using dom by (simp add: grow_forest.simps)
    then show ?thesis using less.prems(1) True by blast
  next
    case False
    then have ne: "nodes (nodes_manager D) \<noteq> Map.empty" using dom by auto
    obtain r where r: "sort_nodes (nodes_manager D) \<noteq> []" "r \<in> U" "N r = Some (last (sort_nodes (nodes_manager D)))"
      using less.prems(2) [OF False] by blast
    have "order_ok (ord_nodes H)" using H by (simp add: hash_ok_def)
    from largest.root_tree_inv [OF H this less.prems(1) N r] obtain D1 U1 ks1 par1 where
      D1: "LargestRoot H (sort_nodes (nodes_manager D)) D = Some D1" "forest_inv rn Q N U1 ks1 par1 D1" "U1 \<subset> U"
      unfolding LargestRoot_def by blast
    let ?D = "D1\<lparr>nodes_manager := ReSortNodes (ord_nodes H) (nodes_manager D1)\<rparr>"
    have "card U1 < card U" using D1(3) forest_card [OF less.prems(1)] by (simp add: psubset_card_mono)
    moreover have "forest_inv rn Q N U1 ks1 par1 ?D" using D1(2) by (simp add: forest_inv_def ReSortNodes_def Let_def)
    moreover have "sort_nodes (nodes_manager ?D) \<noteq> [] \<and> (\<exists>r \<in> U1. N r = Some (last (sort_nodes (nodes_manager ?D))))"
      if "U1 \<noteq> {}"
    proof -
      have n1: "nodes (nodes_manager D1) = N |` U1" "dom (nodes (nodes_manager D1)) = U1"
        using forest_invD(2,3) [OF D1(2)] by auto
      have "nodes (nodes_manager D1) \<noteq> Map.empty" using that n1(2) by (metis dom_empty)
      from last_sorted_vertex [OF _ _ this, of "ord_nodes H"] H n1 forest_card [OF D1(2)] show ?thesis
        by (auto simp: hash_ok_def)
    qed
    ultimately obtain D' ks' par' where "grow_forest H ?D = Some D'" "forest_inv rn Q N {} ks' par' D'"
      using less.hyps by blast
    moreover have "grow_forest H D = grow_forest H ?D"
      using ne D1(1) by (simp add: grow_forest.simps [of H D])
    ultimately show ?thesis by auto
  qed
qed

end
