(* ===== verification/Dag_Orient.thy ===== *)
theory Dag_Orient
  imports Dag_Forest
begin

text \<open>
  The orientation of the selected edges and the properties of the finished transfer
  graph: the conditions on every edge are known exactly, forward edges lead from
  children to parents, backward edges from parents to children, and nothing flows into
  the preserved side of an outer join.
\<close>

section \<open>Flows\<close>

definition incoming :: "bool \<Rightarrow> DAGNode \<Rightarrow> DAGEdge list" where
  "incoming fw nd = (if fw then forward_in nd else backward_in nd)"

definition outgoing :: "bool \<Rightarrow> DAGNode \<Rightarrow> DAGEdge list" where
  "outgoing fw nd = (if fw then forward_out nd else backward_out nd)"

lemma edge_filters_AddIn:
  assumes "dag_node_wf nd"
  shows "edge_filters d (incoming fw' (AddIn x f fw nd)) =
      edge_filters d (incoming fw' nd) @ (if fw = fw' \<and> d = x then [f] else [])"
    "outgoing fw' (AddIn x f fw nd) = outgoing fw' nd"
  using assms by (auto simp: incoming_def outgoing_def AddIn_def edge_filters_push dag_node_wf_def)

lemma edge_filters_AddOut:
  assumes "dag_node_wf nd"
  shows "edge_filters d (outgoing fw' (AddOut x f fw nd)) =
      edge_filters d (outgoing fw' nd) @ (if fw = fw' \<and> d = x then [f] else [])"
    "incoming fw' (AddOut x f fw nd) = incoming fw' nd"
  using assms by (auto simp: incoming_def outgoing_def AddOut_def edge_filters_push dag_node_wf_def)

text \<open>A condition that lets vertex \<open>x\<close> filter vertex \<open>y\<close> is entered at both ends.\<close>

definition flow_step :: "nat \<Rightarrow> nat \<Rightarrow> Expression \<Rightarrow> bool \<Rightarrow> (nat \<rightharpoonup> DAGNode) \<Rightarrow> (nat \<rightharpoonup> DAGNode)" where
  "flow_step x y f fw ns = update_node y (AddIn x f fw) (update_node x (AddOut y f fw) ns)"

definition receives :: "DAGEdgeInfo \<Rightarrow> nat \<Rightarrow> bool" where
  "receives info k \<longleftrightarrow> op_node_id (large info) = Some k \<and> \<not> large_protect info \<or>
     op_node_id (small info) = Some k \<and> \<not> small_protect info"

lemma AddIn_AddOut_commute: "AddIn x f fw (AddOut y g fw' nd) = AddOut y g fw' (AddIn x f fw nd)"
  by (simp add: AddIn_def AddOut_def)

definition nodes_named :: "(nat \<rightharpoonup> LogicalOperator) \<Rightarrow> bool" where
  "nodes_named N \<longleftrightarrow> (\<forall>k op. N k = Some op \<longrightarrow> op_node_id op = Some k)"

lemma nodes_named_inj: "nodes_named N \<Longrightarrow> N a = Some op \<Longrightarrow> N b = Some op \<Longrightarrow> a = b"
  unfolding nodes_named_def by (metis option.inject)

text \<open>An edge between a parent \<open>p\<close> and its child \<open>q\<close> is oriented by the protections alone.\<close>

lemma orient_edge_flow:
  assumes N: "nodes_named N" and e: "edge_between N p q info" and pq: "p \<noteq> q"
    and ns: "ns p = Some np" "ns q = Some nq" "node_id np = p" "node_id nq = q" "priority nq < priority np"
  shows "orient_edge info ns = Some
    ((if receives info q then flow_step p q (ei_filter info) False else id)
      ((if receives info p then flow_step q p (ei_filter info) True else id) ns))"
proof -
  consider "N p = Some (large info)" "N q = Some (small info)" | "N q = Some (large info)" "N p = Some (small info)"
    using e by (auto simp: edge_between_def)
  then show ?thesis
  proof cases
    case 1
    then have ids: "op_node_id (large info) = Some p" "op_node_id (small info) = Some q"
      using N by (auto simp: nodes_named_def)
    then have rec: "receives info p \<longleftrightarrow> \<not> large_protect info" "receives info q \<longleftrightarrow> \<not> small_protect info"
      using pq by (auto simp: receives_def)
    show ?thesis
      using ns pq by (auto simp: orient_edge_def ids rec flow_step_def update_node_def AddIn_AddOut_commute
          Let_def fun_upd_twist [OF pq])
  next
    case 2
    then have ids: "op_node_id (large info) = Some q" "op_node_id (small info) = Some p"
      using N by (auto simp: nodes_named_def)
    then have rec: "receives info q \<longleftrightarrow> \<not> large_protect info" "receives info p \<longleftrightarrow> \<not> small_protect info"
      using pq by (auto simp: receives_def)
    show ?thesis
      using ns pq by (auto simp: orient_edge_def ids rec flow_step_def update_node_def AddIn_AddOut_commute
          Let_def fun_upd_twist [OF pq])
  qed
qed

section \<open>The finished graph\<close>

text \<open>The conditions by which \<open>a\<close> filters \<open>b\<close>, forward if \<open>b\<close> is the parent of \<open>a\<close>, backward if it is its child.\<close>

definition infos :: "DAGEdgeInfo option list \<Rightarrow> DAGEdgeInfo list" where
  "infos es = map the (filter (\<lambda>e. e \<noteq> None) es)"

definition flow :: "(nat \<rightharpoonup> LogicalOperator) \<Rightarrow> (nat \<rightharpoonup> nat) \<Rightarrow> DAGEdgeInfo option list \<Rightarrow> nat \<Rightarrow> nat \<Rightarrow> bool \<Rightarrow>
    Expression list" where
  "flow N par es a b fw =
     (if (if fw then par a = Some b else par b = Some a)
      then map ei_filter (filter (\<lambda>i. edge_between N a b i \<and> receives i b) (infos es)) else [])"

definition fresh_edge :: "DAGEdge \<Rightarrow> bool" where
  "fresh_edge e \<longleftrightarrow> filters e \<noteq> [] \<and> bloom_filters e = []"

definition edges_full :: "DAGNode \<Rightarrow> bool" where
  "edges_full nd \<longleftrightarrow> (\<forall>fw. list_all fresh_edge (incoming fw nd @ outgoing fw nd))"

definition vertex_spec :: "(nat \<rightharpoonup> LogicalOperator) \<Rightarrow> (nat \<rightharpoonup> nat) \<Rightarrow> DAGEdgeInfo option list \<Rightarrow> nat \<Rightarrow> int \<Rightarrow> DAGNode \<Rightarrow> bool" where
  "vertex_spec N par es b p nd \<longleftrightarrow> node_id nd = b \<and> priority nd = p \<and> dag_node_wf nd \<and> edges_full nd \<and>
     (\<forall>fw a. edge_filters a (incoming fw nd) = flow N par es a b fw \<and>
             edge_filters a (outgoing fw nd) = flow N par es b a fw)"

definition dag_spec :: "(nat \<rightharpoonup> LogicalOperator) \<Rightarrow> (nat \<rightharpoonup> nat) \<Rightarrow> nat list \<Rightarrow> DAGEdgeInfo option list \<Rightarrow>
    (nat \<rightharpoonup> DAGNode) \<Rightarrow> bool" where
  "dag_spec N par ks es ns \<longleftrightarrow>
     (\<forall>i < length ks. \<exists>nd. ns (ks ! i) = Some nd \<and> vertex_spec N par es (ks ! i) (int (length ks) - 1 - int i) nd)"

lemma edges_full_add:
  assumes "edges_full nd"
  shows "edges_full (AddIn x f fw nd)" "edges_full (AddOut x f fw nd)"
proof -
  have push: "list_all fresh_edge (push_edge (Push f) x es)" if "list_all fresh_edge es" for es
    by (rule filters_mm.push_edge_all [OF _ _ that]) (simp_all add: Push_def DAGEdge_new_def fresh_edge_def)
  have lists: "list_all fresh_edge (forward_in nd)" "list_all fresh_edge (forward_out nd)"
    "list_all fresh_edge (backward_in nd)" "list_all fresh_edge (backward_out nd)"
    using assms [unfolded edges_full_def, rule_format, of True] assms [unfolded edges_full_def, rule_format, of False]
    by (simp_all add: incoming_def outgoing_def)
  then show "edges_full (AddIn x f fw nd)" "edges_full (AddOut x f fw nd)"
    by (simp_all add: edges_full_def incoming_def outgoing_def AddIn_def AddOut_def push)
qed

text \<open>What one more selected edge between parent \<open>p\<close> and child \<open>q\<close> adds to the flows.\<close>

lemma flow_snoc:
  assumes "nodes_named N" and "edge_between N p q info" and "par q = Some p" and "par p \<noteq> Some q"
  shows "flow N par (es @ [Some info]) a b fw = flow N par es a b fw @
    (if fw \<and> a = q \<and> b = p \<and> receives info p \<or> \<not> fw \<and> a = p \<and> b = q \<and> receives info q then [ei_filter info] else [])"
proof -
  have ab: "(a = p \<and> b = q) \<or> (a = q \<and> b = p)" if "edge_between N a b info"
    using that assms(2) nodes_named_inj [OF assms(1)] unfolding edge_between_def by blast
  have ba: "edge_between N q p info" using assms(2) unfolding edge_between_def by blast
  have up: "edge_between N a b info \<longleftrightarrow> a = q \<and> b = p" if "par a = Some b" using ab ba that assms(4) by metis
  have down: "edge_between N a b info \<longleftrightarrow> a = p \<and> b = q" if "par b = Some a" using ab assms(2,4) that by metis
  have snoc: "infos (es @ [Some info]) = infos es @ [info]" by (simp add: infos_def)
  show ?thesis
  proof (cases fw)
    case True
    then show ?thesis
      using assms(3) up by (cases "par a = Some b") (auto simp: flow_def snoc)
  next
    case False
    then show ?thesis
      using assms(3) down by (cases "par b = Some a") (auto simp: flow_def snoc)
  qed
qed

lemma vertex_spec_update:
  assumes "vertex_spec N par es b p nd"
    and "\<And>fw a. flow N par es' a b fw = flow N par es a b fw @ (if ri \<and> fw = fi \<and> a = x then [f] else [])"
    and "\<And>fw a. flow N par es' b a fw = flow N par es b a fw @ (if ro \<and> fw = fo \<and> a = x then [f] else [])"
  shows "vertex_spec N par es' b p ((if ro then AddOut x f fo else id) ((if ri then AddIn x f fi else id) nd))"
proof -
  have wf: "dag_node_wf nd" "edges_full nd" using assms(1) by (simp_all add: vertex_spec_def)
  then show ?thesis
    using assms by (auto simp: vertex_spec_def edges_full_add edge_filters_AddIn edge_filters_AddOut)
qed

text \<open>The invariant of the loop over the selected edges.\<close>

lemma dag_spec_orient:
  assumes N: "nodes_named N" and ks: "distinct ks" and spec: "dag_spec N par ks es ns"
    and par: "\<And>a b. par b = Some a \<Longrightarrow> before ks a b" and e: "par q = Some p" "edge_between N p q info"
  shows "\<exists>ns'. orient_edge info ns = Some ns' \<and> dag_spec N par ks (es @ [Some info]) ns'"
proof -
  obtain i j where ij: "i < j" "j < length ks" "ks ! i = p" "ks ! j = q" using par [OF e(1)] by (auto simp: before_def)
  have asym: "par p \<noteq> Some q" using par [OF e(1)] par [of p q] before_asym [OF ks] by blast
  have pq: "p \<noteq> q" using ij ks by (auto simp: nth_eq_iff_index_eq)
  define spec_at where "spec_at es k nd \<longleftrightarrow> vertex_spec N par es (ks ! k) (int (length ks) - 1 - int k) nd" for es k nd
  obtain np nq where np: "ns p = Some np" "spec_at es i np" and nq: "ns q = Some nq" "spec_at es j nq"
    using spec ij unfolding dag_spec_def spec_at_def by (metis order.strict_trans)
  let ?es = "es @ [Some info]" and ?f = "ei_filter info"
  note snoc = flow_snoc [OF N e(2,1) asym, of es]
  let ?ns1 = "if receives info p then flow_step q p ?f True ns else ns"
  let ?ns2 = "if receives info q then flow_step p q ?f False ?ns1 else ?ns1"
  let ?np = "(if receives info q then AddOut q ?f False else id) ((if receives info p then AddIn q ?f True else id) np)"
  let ?nq = "(if receives info p then AddOut p ?f True else id) ((if receives info q then AddIn p ?f False else id) nq)"
  have ns2: "?ns2 = ns(p \<mapsto> ?np, q \<mapsto> ?nq)"
    using pq np(1) nq(1) by (auto simp: flow_step_def update_node_def fun_eq_iff AddIn_AddOut_commute)
  have "orient_edge info ns = Some ?ns2"
    using orient_edge_flow [OF N e(2) pq np(1) nq(1)] np(2) nq(2) ij
    by (simp add: spec_at_def vertex_spec_def)
  moreover have "dag_spec N par ks ?es ?ns2"
    unfolding dag_spec_def
  proof (intro allI impI)
    fix k assume k: "k < length ks"
    then obtain nd where nd: "ns (ks ! k) = Some nd" "vertex_spec N par es (ks ! k) (int (length ks) - 1 - int k) nd"
      using spec unfolding dag_spec_def by blast
    consider "k = i" | "k = j" | "ks ! k \<noteq> p" "ks ! k \<noteq> q"
      using k ij ks by (metis nth_eq_iff_index_eq order.strict_trans)
    then have "\<exists>nd. (ns(p \<mapsto> ?np, q \<mapsto> ?nq)) (ks ! k) = Some nd \<and> spec_at ?es k nd"
    proof cases
      case 1
      have "spec_at ?es i ?np"
        unfolding spec_at_def by (rule vertex_spec_update [OF np(2) [unfolded spec_at_def]]) (use ij pq snoc in auto)
      then show ?thesis using 1 ij pq by simp
    next
      case 2
      have "spec_at ?es j ?nq"
        unfolding spec_at_def by (rule vertex_spec_update [OF nq(2) [unfolded spec_at_def]]) (use ij pq snoc in auto)
      then show ?thesis using 2 ij by simp
    next
      case 3
      then have "spec_at ?es k nd"
        using nd(2) snoc by (simp add: spec_at_def vertex_spec_def)
      then show ?thesis using 3 nd(1) by simp
    qed
    then show "\<exists>nd. ?ns2 (ks ! k) = Some nd \<and> vertex_spec N par ?es (ks ! k) (int (length ks) - 1 - int k) nd"
      unfolding ns2 spec_at_def .
  qed
  ultimately show ?thesis by blast
qed

lemma dag_spec_loop:
  assumes N: "nodes_named N" and ks: "distinct ks" and spec: "dag_spec N par ks es ns"
    and par: "\<And>a b. par b = Some a \<Longrightarrow> before ks a b" and sel: "selected_ok Q N par es'"
  shows "\<exists>ns'. for_opt (\<lambda>e ns. case e of None \<Rightarrow> Some ns | Some info \<Rightarrow> orient_edge info ns) es' ns = Some ns' \<and>
    dag_spec N par ks (es @ es') ns'"
  using spec sel
proof (induction es' arbitrary: es ns)
  case (Cons e es')
  obtain info a b where e: "e = Some info" "par b = Some a" "edge_between N a b info" and sel: "selected_ok Q N par es'"
    using Cons.prems(2) unfolding selected_ok_def good_edge_def by auto
  obtain ns1 where "orient_edge info ns = Some ns1" "dag_spec N par ks (es @ [Some info]) ns1"
    using dag_spec_orient [OF N ks Cons.prems(1) par e(2,3)] by blast
  then show ?case using Cons.IH [OF _ sel, of "es @ [Some info]" ns1] e(1) by simp
qed simp

text \<open>
  A finished transfer graph over the vertices \<open>N\<close>: the execution order visits every
  vertex once, parents come before their children, and the edges are the ones the
  selected conditions call for.
\<close>

definition transfer_graph :: "(ColumnBinding \<rightharpoonup> ColumnBinding) \<Rightarrow> (DAGEdgeInfo \<Rightarrow> bool) \<Rightarrow>
    (nat \<rightharpoonup> LogicalOperator) \<Rightarrow> nat list \<Rightarrow> (nat \<rightharpoonup> nat) \<Rightarrow> DAGManager \<Rightarrow> bool" where
  "transfer_graph rn Q N ks par D \<longleftrightarrow> nodes (nodes_manager D) = N \<and> rename_cols (nodes_manager D) = rn \<and>
     distinct ks \<and> set ks = dom N \<and> ExecOrder D = map (\<lambda>k. the (N k)) ks \<and>
     (\<forall>a b. par b = Some a \<longrightarrow> before ks a b) \<and> selected_ok Q N par (selected_filters_and_bindings D) \<and>
     dag_spec N par ks (selected_filters_and_bindings D) (dag_nodes D)"

lemma vertex_new_spec: "vertex_new k p nd \<Longrightarrow> vertex_spec N par [] k p nd"
  by (auto simp: vertex_new_def vertex_spec_def DAGNode_new_def dag_node_wf_def edges_full_def incoming_def
      outgoing_def flow_def infos_def)

lemma CreateDAG_spec:
  assumes H: "hash_ok H" and N: "nodes_named N" "addresses_distinct N"
    and inv: "forest_inv rn Q N (dom N) [] Map.empty D"
    and sorted: "dom N \<noteq> {} \<Longrightarrow> sort_nodes (nodes_manager D) \<noteq> [] \<and>
      (\<exists>r \<in> dom N. N r = Some (last (sort_nodes (nodes_manager D))))"
  shows "\<exists>D' ks par. CreateDAG H D = Some D' \<and> transfer_graph rn Q N ks par D'"
proof -
  obtain D1 ks par where D1: "grow_forest H D = Some D1" and inv1: "forest_inv rn Q N {} ks par D1"
    using grow_forest_inv [OF H N(2) inv sorted] by blast
  have len: "int (card (dom N)) = int (length ks)" using forest_card [OF inv1] by simp
  have "dag_spec N par ks [] (dag_nodes D1)"
    using inv1 vertex_new_spec unfolding forest_inv_def dag_spec_def len by blast
  from dag_spec_loop [OF N(1) forest_invD(5) [OF inv1] this forest_invD(9) [OF inv1] forest_invD(10) [OF inv1]]
  obtain ns where ns: "for_opt (\<lambda>e ns. case e of None \<Rightarrow> Some ns | Some info \<Rightarrow> orient_edge info ns)
      (selected_filters_and_bindings D1) (dag_nodes D1) = Some ns"
    and spec: "dag_spec N par ks (selected_filters_and_bindings D1) ns" by auto
  let ?D = "D1\<lparr>nodes_manager := RecoverNodes (nodes_manager D1), dag_nodes := ns\<rparr>"
  have "CreateDAG H D = Some ?D" using D1 ns by (simp add: CreateDAG_def Let_def)
  moreover have "transfer_graph rn Q N ks par ?D"
    using forest_invD [OF inv1] spec by (auto simp: transfer_graph_def RecoverNodes_def)
  ultimately show ?thesis by blast
qed

end
