(* ===== verification/Dag_Build.thy ===== *)
theory Dag_Build
  imports Dag_Orient "HOL-Library.Product_Lexorder"
begin

text \<open>
  Where edges come from, and the whole of \<open>DAGManager::Build\<close>: every edge stems from
  an equality of a join and protects the preserved side of an outer join, and building
  the graph of a well-formed plan succeeds.
\<close>

section \<open>Origin of edges\<close>

text \<open>The vertices of the two columns of a condition, if they have one.\<close>

definition condition_vertices :: "NodesManager \<Rightarrow> JoinCondition \<Rightarrow> (nat \<times> nat) option" where
  "condition_vertices m cond =
     (case (FindRename m (colref_binding (cond_left cond)), FindRename m (colref_binding (cond_right cond))) of
        (Some l, Some r) \<Rightarrow>
          if table_index l \<in> dom (nodes m) \<and> table_index r \<in> dom (nodes m)
          then Some (table_index l, table_index r) else None
      | _ \<Rightarrow> None)"

definition comparison_of :: "JoinCondition \<Rightarrow> Expression" where
  "comparison_of cond = BoundComparison (cond_comparison cond) (cond_left cond) (cond_right cond)"

text \<open>
  The edge of an equality condition of a join of type \<open>jt\<close>: it joins the two vertices
  and protects the left one in a left outer join, the right one in a right outer join.
\<close>

definition edge_for :: "NodesManager \<Rightarrow> JoinType \<Rightarrow> JoinCondition \<Rightarrow> DAGEdgeInfo \<Rightarrow> bool" where
  "edge_for m jt cond info \<longleftrightarrow> cond_comparison cond = COMPARE_EQUAL \<and> ei_filter info = comparison_of cond \<and>
     (\<exists>l r ln rn. condition_vertices m cond = Some (l, r) \<and> nodes m l = Some ln \<and> nodes m r = Some rn \<and>
        (large info = ln \<and> small info = rn \<and> large_protect info = (jt = JT_LEFT) \<and> small_protect info = (jt = JT_RIGHT) \<or>
         large info = rn \<and> small info = ln \<and> large_protect info = (jt = JT_RIGHT) \<and> small_protect info = (jt = JT_LEFT)))"

definition edge_origin :: "NodesManager \<Rightarrow> LogicalOperator list \<Rightarrow> DAGEdgeInfo \<Rightarrow> bool" where
  "edge_origin m ops info \<longleftrightarrow>
     (\<exists>op \<in> set ops. \<exists>cond \<in> set (conditions (op_of op)). edge_for m (join_type (op_of op)) cond info)"

lemma edge_info_protects:
  assumes "edge_info jt c ln rn lo ro = Some info"
  shows "ei_filter info = c \<and>
    (large info = ln \<and> small info = rn \<and> large_protect info = (jt = JT_LEFT) \<and> small_protect info = (jt = JT_RIGHT) \<or>
     large info = rn \<and> small info = ln \<and> large_protect info = (jt = JT_RIGHT) \<and> small_protect info = (jt = JT_LEFT))"
  using assms by (auto simp: edge_info_def DAGEdgeInfo_new_def split: if_splits)

lemma append_at_entry:
  "append_at k v m j = Some w \<Longrightarrow> x \<in> set w \<Longrightarrow> j = k \<and> x = v \<or> (\<exists>w'. m j = Some w' \<and> x \<in> set w')"
  by (auto simp: append_at_def split: if_splits option.splits)

lemma append_at_empty: "append_at k v m j = Some [] \<Longrightarrow> j \<noteq> k \<and> m j = Some []"
  by (auto simp: append_at_def split: if_splits)

lemma insert_edge_entry:
  assumes "insert_edge a b info fb k = Some v" and "e \<in> set v"
  shows "(k = (a, b) \<or> k = (b, a)) \<and> e = Some info \<or> (\<exists>v'. fb k = Some v' \<and> e \<in> set v')"
proof -
  let ?fb = "if fb (b, a) = None then fb((b, a) \<mapsto> [], (a, b) \<mapsto> []) else fb"
  have "\<exists>v'. fb k = Some v' \<and> e \<in> set v'" if "?fb k = Some w" "e \<in> set w" for w
    using that by (auto split: if_splits)
  then show ?thesis
    using append_at_entry [OF assms(1) [unfolded insert_edge_def Let_def] assms(2)] append_at_entry [of _ _ ?fb k _ e]
    by blast
qed

lemma insert_edge_ran:
  assumes "[] \<notin> ran fb"
  shows "[] \<notin> ran (insert_edge a b info fb)"
proof
  assume "[] \<in> ran (insert_edge a b info fb)"
  then obtain k where "insert_edge a b info fb k = Some []" by (auto simp: ran_def)
  then have "k \<noteq> (a, b) \<and> k \<noteq> (b, a) \<and> (if fb (b, a) = None then fb((b, a) \<mapsto> [], (a, b) \<mapsto> []) else fb) k = Some []"
    unfolding insert_edge_def Let_def by (blast dest: append_at_empty)
  then have "fb k = Some []" by (simp split: if_splits)
  with assms show False using ranI by fast
qed

lemma pending_ok_insert_edge:
  assumes "pending_ok Q N UNIV fb" and "good_edge Q N a b info"
  shows "pending_ok Q N UNIV (insert_edge a b info fb)"
proof -
  have sym: "good_edge Q N b a info" using assms(2) by (auto simp: good_edge_def edge_between_def)
  have "\<exists>info'. e = Some info' \<and> good_edge Q N x y info'"
    if "insert_edge a b info fb (x, y) = Some v" "e \<in> set v" for x y v e
    using insert_edge_entry [OF that] assms sym unfolding pending_ok_def by blast
  then show ?thesis
    using insert_edge_ran [of fb a b info] assms(1) unfolding pending_ok_def by blast
qed

lemma extract_condition_cases:
  assumes "extract_condition sorted_nodes m jt cond (fs, fb) = Some (fs', fb')"
  shows "fb' = fb \<or> (\<exists>l r info. condition_vertices m cond = Some (l, r) \<and> edge_for m jt cond info \<and>
    fb' = insert_edge l r info fb)"
proof (cases "fb' = fb")
  case False
  then obtain l r ln rn info where
    "cond_comparison cond = COMPARE_EQUAL"
    "FindRename m (colref_binding (cond_left cond)) = Some l" "FindRename m (colref_binding (cond_right cond)) = Some r"
    "nodes m (table_index l) = Some ln" "nodes m (table_index r) = Some rn"
    "edge_info jt (comparison_of cond) ln rn (node_in_order sorted_nodes ln) (node_in_order sorted_nodes rn) = Some info"
    "fb' = insert_edge (table_index l) (table_index r) info fb"
    using assms by (auto simp: extract_condition_def Let_def getNode_def comparison_of_def split: if_splits option.splits)
  then show ?thesis
    using edge_info_protects [of jt "comparison_of cond" ln rn] by (auto simp: edge_for_def condition_vertices_def)
qed simp

lemma edge_for_good:
  assumes "edge_for m jt cond info" and "condition_vertices m cond = Some (l, r)"
  shows "edge_between (nodes m) l r info"
  using assms by (auto simp: edge_for_def edge_between_def)

section \<open>Extraction of edges\<close>

definition all_conditions :: "LogicalOperator list \<Rightarrow> (JoinType \<times> JoinCondition) list" where
  "all_conditions ops = concat (map (\<lambda>op. if op_type (op_of op) \<in> set join_types
     then map (Pair (join_type (op_of op))) (conditions (op_of op)) else []) ops)"

lemma ExtractEdges_flat:
  "ExtractEdges ops D = map_option (\<lambda>(fs, fb). D\<lparr>filters_and_bindings := fb\<rparr>)
     (for_opt (\<lambda>(jt, cond). extract_condition (sort_nodes (nodes_manager D)) (nodes_manager D) jt cond)
       (all_conditions ops) ([], filters_and_bindings D))"
proof -
  let ?f = "extract_condition (sort_nodes (nodes_manager D)) (nodes_manager D)"
  have inner: "for_opt (\<lambda>(jt, cond). ?f jt cond) (map (Pair j) cs) s = for_opt (?f j) cs s" for j cs s
    by (induction cs arbitrary: s) (auto split: option.splits)
  have "for_opt (\<lambda>f_op s. if op_type (op_of f_op) \<in> set join_types
        then for_opt (?f (join_type (op_of f_op))) (conditions (op_of f_op)) s else Some s) ops s =
      for_opt (\<lambda>(jt, cond). ?f jt cond) (all_conditions ops) s" for s
    by (induction ops arbitrary: s) (auto simp: all_conditions_def inner split: option.splits)
  then show ?thesis by (simp add: ExtractEdges_def Let_def)
qed

lemma ExtractEdges_pending:
  assumes "ExtractEdges ops D = Some D'" and "filters_and_bindings D = Map.empty"
  shows "pending_ok (edge_origin (nodes_manager D) ops) (nodes (nodes_manager D)) UNIV (filters_and_bindings D') \<and>
    D' = D\<lparr>filters_and_bindings := filters_and_bindings D'\<rparr>"
proof -
  let ?m = "nodes_manager D" and ?Q = "edge_origin (nodes_manager D) ops"
  have step: "pending_ok ?Q (nodes ?m) UNIV (snd s')"
    if "(jt, cond) \<in> set (all_conditions ops)" "extract_condition (sort_nodes ?m) ?m jt cond s = Some s'"
      "pending_ok ?Q (nodes ?m) UNIV (snd s)" for jt cond s s'
  proof -
    have "?Q info" if "edge_for ?m jt cond info" for info
      using that \<open>(jt, cond) \<in> set (all_conditions ops)\<close> by (auto simp: edge_origin_def all_conditions_def split: if_splits)
    then have good: "good_edge ?Q (nodes ?m) l r info"
      if "condition_vertices ?m cond = Some (l, r)" "edge_for ?m jt cond info" for l r info
      using that edge_for_good by (auto simp: good_edge_def)
    have "snd s' = snd s \<or> (\<exists>l r info. condition_vertices ?m cond = Some (l, r) \<and> edge_for ?m jt cond info \<and>
        snd s' = insert_edge l r info (snd s))"
      using that(2) by (intro extract_condition_cases [of "sort_nodes ?m" ?m jt cond "fst s" "snd s" "fst s'"]) simp
    then show ?thesis using that(3) pending_ok_insert_edge [OF _ good] by auto
  qed
  have "pending_ok ?Q (nodes ?m) UNIV (snd s')"
    if "for_opt (\<lambda>(jt, cond). extract_condition (sort_nodes ?m) ?m jt cond) cs s = Some s'"
      "set cs \<subseteq> set (all_conditions ops)" "pending_ok ?Q (nodes ?m) UNIV (snd s)" for cs s s'
    using that
  proof (induction cs arbitrary: s)
    case (Cons c cs)
    obtain jt cond where c: "c = (jt, cond)" by (cases c)
    obtain s1 where s1: "extract_condition (sort_nodes ?m) ?m jt cond s = Some s1"
      "for_opt (\<lambda>(jt, cond). extract_condition (sort_nodes ?m) ?m jt cond) cs s1 = Some s'"
      using Cons.prems(1) c by (auto split: option.splits)
    show ?case using Cons.IH [OF s1(2)] step [OF _ s1(1)] Cons.prems c by simp
  qed simp
  then show ?thesis
    using assms by (auto simp: ExtractEdges_flat pending_ok_def)
qed

text \<open>
  A comparison that gave no edge must not come up again, as its destroyed copy would be
  looked at: the comparisons without vertices are distinct.
\<close>

definition unresolved :: "NodesManager \<Rightarrow> LogicalOperator list \<Rightarrow> Expression list" where
  "unresolved m ops = map (comparison_of \<circ> snd)
     (filter (\<lambda>(jt, cond). cond_comparison cond = COMPARE_EQUAL \<and> condition_vertices m cond = None) (all_conditions ops))"

definition renames_total :: "NodesManager \<Rightarrow> bool" where
  "renames_total m \<longleftrightarrow> (\<forall>c. FindRename m c \<noteq> None)"

lemma extract_condition_total:
  assumes "renames_total m" and "jt \<in> set edge_join_types"
    and "cond_comparison cond = COMPARE_EQUAL \<Longrightarrow> (comparison_of cond, False) \<notin> set fs"
  shows "\<exists>fs' fb'. extract_condition sorted_nodes m jt cond (fs, fb) = Some (fs', fb') \<and>
    (\<forall>c. (c, False) \<in> set fs' \<longrightarrow> (c, False) \<in> set fs \<or>
       c = comparison_of cond \<and> cond_comparison cond = COMPARE_EQUAL \<and> condition_vertices m cond = None)"
proof (cases "cond_comparison cond = COMPARE_EQUAL \<and> (comparison_of cond, True) \<notin> set fs")
  case False
  then show ?thesis using assms(3) by (auto simp: extract_condition_def Let_def comparison_of_def)
next
  case True
  obtain l r where lr: "FindRename m (colref_binding (cond_left cond)) = Some l"
      "FindRename m (colref_binding (cond_right cond)) = Some r"
    using assms(1) unfolding renames_total_def by (metis not_Some_eq)
  define ei where "ei c ln rn lo ro = the (edge_info jt c ln rn lo ro)" for c ln rn lo ro
  have "edge_info jt c ln rn lo ro = Some (ei c ln rn lo ro)" for c ln rn lo ro
    using assms(2) by (auto simp: ei_def edge_info_def edge_join_types_def)
  then show ?thesis
    using True assms(3) lr
    by (auto simp: extract_condition_def Let_def comparison_of_def condition_vertices_def getNode_def split: option.splits)
qed

lemma comparison_of_inj: "comparison_of c = comparison_of d \<Longrightarrow> c = d"
  by (cases c; cases d) (simp add: comparison_of_def)

lemma extract_loop_total:
  assumes "renames_total m" and "list_all (\<lambda>(jt, cond). jt \<in> set edge_join_types) cs"
    and "distinct (map (comparison_of \<circ> snd) (filter (\<lambda>(jt, cond). cond_comparison cond = COMPARE_EQUAL \<and> condition_vertices m cond = None) cs))"
    and "\<forall>c. (c, False) \<in> set fs \<longrightarrow> (\<exists>cond. c = comparison_of cond \<and> condition_vertices m cond = None \<and>
       cond \<notin> snd ` set cs)"
  shows "for_opt (\<lambda>(jt, cond). extract_condition sorted_nodes m jt cond) cs (fs, fb) \<noteq> None"
  using assms(2-)
proof (induction cs arbitrary: fs fb)
  case (Cons c cs)
  obtain jt cond where c: "c = (jt, cond)" by (cases c)
  have fresh: "(comparison_of cond, False) \<notin> set fs"
    using Cons.prems(3) c by (auto dest!: comparison_of_inj)
  obtain fs' fb' where e: "extract_condition sorted_nodes m jt cond (fs, fb) = Some (fs', fb')"
    and fs': "\<And>d. (d, False) \<in> set fs' \<Longrightarrow> (d, False) \<in> set fs \<or>
       d = comparison_of cond \<and> cond_comparison cond = COMPARE_EQUAL \<and> condition_vertices m cond = None"
    using extract_condition_total [of m jt cond fs sorted_nodes fb] assms(1) Cons.prems(1) c fresh by auto
  have "cond \<notin> snd ` set cs" if "cond_comparison cond = COMPARE_EQUAL" "condition_vertices m cond = None"
    using Cons.prems(2) that c by (force simp: image_iff)
  then have "\<forall>d. (d, False) \<in> set fs' \<longrightarrow> (\<exists>cond. d = comparison_of cond \<and> condition_vertices m cond = None \<and>
       cond \<notin> snd ` set cs)"
    using fs' Cons.prems(3) c by fastforce
  moreover have "list_all (\<lambda>(jt, cond). jt \<in> set edge_join_types) cs" using Cons.prems(1) by simp
  ultimately show ?case
    using Cons.IH [of fs' fb'] Cons.prems(2) c e by (auto split: if_splits)
qed simp

lemma ExtractEdges_total:
  assumes "renames_total (nodes_manager D)" and "\<forall>op \<in> set ops. join_type (op_of op) \<in> set edge_join_types"
    and "distinct (unresolved (nodes_manager D) ops)"
  shows "ExtractEdges ops D \<noteq> None"
proof -
  have "list_all (\<lambda>(jt, cond). jt \<in> set edge_join_types) (all_conditions ops)"
    using assms(2) by (auto simp: all_conditions_def list_all_iff split: if_splits)
  then show ?thesis
    using extract_loop_total [OF assms(1), of "all_conditions ops" "[]"] assms(3)
    by (simp add: ExtractEdges_flat unresolved_def)
qed

section \<open>Building the graph\<close>

lemma rename_outputs_sort_nodes: "sort_nodes (fst (rename_outputs t es s)) = sort_nodes (fst s)"
proof -
  have "sort_nodes (fold (insert_rename t) ies m) = sort_nodes m" for ies m
    by (induction ies arbitrary: m) (auto simp: insert_rename_def Let_def split: prod.splits)
  then show ?thesis by (simp add: rename_outputs_def)
qed

lemma extract_step_sort_nodes: "extract_step E plan s s' \<Longrightarrow> sort_nodes (fst s') = sort_nodes (fst s)"
proof (induction rule: extract_step.induct)
  case (node op s s')
  then show ?case by (auto simp: add_node_def AddNode_def Let_def split: if_splits option.splits)
next
  case (join op s)
  then show ?case by (auto simp: add_filter_operator_def Let_def split: prod.splits)
qed (auto simp: rename_outputs_sort_nodes)

lemma ExtractNodes_sort_nodes:
  assumes "ExtractNodes E plan s = Some s'"
  shows "sort_nodes (fst s') = sort_nodes (fst s)"
  using ExtractNodes_steps [OF assms] by (induction rule: rtranclp_induct) (auto simp: extract_step_sort_nodes)

lemma edge_origin_cong:
  assumes "nodes m' = nodes m" and "rename_cols m' = rename_cols m"
  shows "edge_origin m' ops = edge_origin m ops" "unresolved m' ops = unresolved m ops" "renames_total m' = renames_total m"
proof -
  have r: "FindRename m' = FindRename m" by (rule ext) (simp only: FindRename_eq_follow assms(2))
  have c: "condition_vertices m' = condition_vertices m" by (rule ext) (simp only: condition_vertices_def assms(1) r)
  show "edge_origin m' ops = edge_origin m ops" using c assms(1) by (auto simp: edge_origin_def edge_for_def fun_eq_iff)
  show "unresolved m' ops = unresolved m ops" using c by (simp add: unresolved_def)
  show "renames_total m' = renames_total m" using r by (simp add: renames_total_def)
qed

lemma SortNodes_eq_ReSortNodes: "sort_nodes m = [] \<Longrightarrow> sort_nodes (SortNodes r m) = sort_nodes (ReSortNodes r m)"
  by (simp add: SortNodes_def ReSortNodes_def Let_def)

text \<open>The plan's operators have different addresses, and passed on columns come from below.\<close>

definition plan_wf :: "(nat \<Rightarrow> nat) \<Rightarrow> LogicalOperator \<Rightarrow> bool" where
  "plan_wf rank plan \<longleftrightarrow> plan_ok plan \<and> ranked_plan rank plan \<and> distinct (map (op_id \<circ> op_of) (operators plan))"

lemma nodes_inv_facts:
  assumes "nodes_inv plan m" and "distinct (map (op_id \<circ> op_of) (operators plan))"
  shows "nodes_named (nodes m)" "addresses_distinct (nodes m)" "finite (dom (nodes m))"
proof -
  show named: "nodes_named (nodes m)" "finite (dom (nodes m))" using assms(1) by (auto simp: nodes_inv_def nodes_named_def)
  have "x = y" if "x \<in> set (operators plan)" "y \<in> set (operators plan)" "same_op x y" for x y
    using assms(2) that by (simp add: distinct_map inj_on_def same_op_def)
  then show "addresses_distinct (nodes m)"
    using assms(1) nodes_named_inj [OF named(1)] unfolding addresses_distinct_def nodes_inv_def by blast
qed

lemma Build_spec:
  assumes H: "hash_ok H" and wf: "plan_wf rank plan"
    and ex: "ExtractNodes E plan (NodesManager_new, []) = Some (m, ops)" and un: "distinct (unresolved m ops)"
  shows "\<exists>b D. Build E H plan DAGManager_new = Some (b, D) \<and>
    (b \<longrightarrow> (\<exists>ks par. transfer_graph (rename_cols m) (edge_origin m ops) (nodes m) ks par D))"
proof -
  have inv: "nodes_inv plan m" "filters_inv plan ops"
    using ExtractNodes_inv [OF ex] by (auto simp: nodes_inv_def filters_inv_def NodesManager_new_def)
  have facts: "nodes_named (nodes m)" "addresses_distinct (nodes m)" "finite (dom (nodes m))"
    using nodes_inv_facts [OF inv(1)] wf by (auto simp: plan_wf_def)
  have "ranked_renames rank (rename_cols m)"
    using ExtractNodes_ranked [OF ex, of rank] wf by (simp add: plan_wf_def ranked_renames_def NodesManager_new_def)
  then have total: "renames_total m"
    using follow_rename_total unfolding renames_total_def FindRename_eq_follow by (metis option.distinct(1))
  define m1 where "m1 = SortNodes (ord_nodes H) (DuplicateNodes m)"
  have m1: "nodes m1 = nodes m" "rename_cols m1 = rename_cols m" "duplicate_nodes m1 = nodes m"
    by (simp_all add: m1_def SortNodes_def DuplicateNodes_def)
  note cong = edge_origin_cong [OF m1(1,2)]
  let ?D1 = "DAGManager_new\<lparr>nodes_manager := m1\<rparr>"
  have "\<forall>op \<in> set ops. join_type (op_of op) \<in> set edge_join_types" using inv(2) by (simp add: filters_inv_def)
  then obtain D2 where D2: "ExtractEdges ops ?D1 = Some D2"
    using ExtractEdges_total [of ?D1 ops] total un by (auto simp: cong)
  from ExtractEdges_pending [OF D2] have pend: "pending_ok (edge_origin m ops) (nodes m) UNIV (filters_and_bindings D2)"
      and D2_eq: "D2 = ?D1\<lparr>filters_and_bindings := filters_and_bindings D2\<rparr>"
    by (simp_all add: DAGManager_new_def cong m1)
  have "forest_inv (rename_cols m) (edge_origin m ops) (nodes m) (dom (nodes m)) [] Map.empty D2"
    using pend facts(3) by (subst D2_eq) (auto simp: forest_inv_def m1 DAGManager_new_def selected_ok_def pending_ok_def restrict_map_def fun_eq_iff)
  moreover have "sort_nodes (nodes_manager D2) \<noteq> [] \<and> (\<exists>r \<in> dom (nodes m). nodes m r = Some (last (sort_nodes (nodes_manager D2))))"
    if "dom (nodes m) \<noteq> {}"
  proof -
    let ?m = "DuplicateNodes m"
    have "sort_nodes ?m = []" using ExtractNodes_sort_nodes [OF ex] by (simp add: DuplicateNodes_def NodesManager_new_def)
    then have "sort_nodes (nodes_manager D2) = sort_nodes (ReSortNodes (ord_nodes H) ?m)"
      by (subst D2_eq) (simp add: m1_def SortNodes_eq_ReSortNodes)
    moreover have "nodes ?m = nodes m" by (simp add: DuplicateNodes_def)
    ultimately show ?thesis
      using last_sorted_vertex [of "ord_nodes H" ?m] H facts(3) that by (auto simp: hash_ok_def)
  qed
  ultimately obtain D3 ks par where "CreateDAG H D2 = Some D3"
      "transfer_graph (rename_cols m) (edge_origin m ops) (nodes m) ks par D3"
    using CreateDAG_spec [OF H facts(1,2)] by blast
  then show ?thesis
    using ex D2 by (auto simp: Build_def Let_def m1_def DAGManager_new_def)
qed

section \<open>Edges of the finished graph\<close>

lemma edge_filters_member: "e \<in> set es \<Longrightarrow> f \<in> set (filters e) \<Longrightarrow> f \<in> set (edge_filters (edge_dest e) es)"
  by (auto simp: edge_filters_def)

lemma transfer_graph_vertex:
  assumes "transfer_graph rn Q N ks par D" and "b \<in> dom N"
  shows "\<exists>i nd. i < length ks \<and> ks ! i = b \<and> dag_nodes D b = Some nd \<and>
    vertex_spec N par (selected_filters_and_bindings D) b (int (length ks) - 1 - int i) nd"
  using assms unfolding transfer_graph_def dag_spec_def by (metis in_set_conv_nth)

lemma transfer_graph_priority:
  assumes "transfer_graph rn Q N ks par D" and "par b = Some a"
  shows "a \<in> dom N" "b \<in> dom N" "a \<noteq> b"
    "dag_nodes D a = Some na \<Longrightarrow> dag_nodes D b = Some nb \<Longrightarrow> priority nb < priority na"
proof -
  have ks: "distinct ks" "set ks = dom N" "before ks a b" using assms by (auto simp: transfer_graph_def)
  then show ab: "a \<in> dom N" "b \<in> dom N" using before_mem by blast+
  show "a \<noteq> b" using ks before_asym by blast
  assume nd: "dag_nodes D a = Some na" "dag_nodes D b = Some nb"
  obtain i j where ij: "i < j" "j < length ks" "ks ! i = a" "ks ! j = b" using ks(3) by (auto simp: before_def)
  obtain i' where i': "i' < length ks" "ks ! i' = a" "priority na = int (length ks) - 1 - int i'"
    using transfer_graph_vertex [OF assms(1) ab(1)] nd by (auto simp: vertex_spec_def)
  obtain j' where j': "j' < length ks" "ks ! j' = b" "priority nb = int (length ks) - 1 - int j'"
    using transfer_graph_vertex [OF assms(1) ab(2)] nd by (auto simp: vertex_spec_def)
  have "i' = i" "j' = j" using ks(1) ij i' j' by (simp_all add: nth_eq_iff_index_eq [symmetric])
  then show "priority nb < priority na" using ij i' j' by simp
qed

text \<open>An incoming edge comes from a child in the forward pass, from the parent in the backward pass.\<close>

lemma transfer_graph_incoming:
  assumes g: "transfer_graph rn Q N ks par D" and b: "b \<in> dom N" "dag_nodes D b = Some nb"
    and e: "e \<in> set (incoming fw nb)" "f \<in> set (filters e)"
  shows "(if fw then par (edge_dest e) = Some b else par b = Some (edge_dest e)) \<and>
    (\<exists>info. Q info \<and> edge_between N (edge_dest e) b info \<and> receives info b \<and> ei_filter info = f)"
proof -
  have "f \<in> set (edge_filters (edge_dest e) (incoming fw nb))" using e by (rule edge_filters_member)
  then have "f \<in> set (flow N par (selected_filters_and_bindings D) (edge_dest e) b fw)"
    using transfer_graph_vertex [OF g b(1)] b(2) by (auto simp: vertex_spec_def)
  moreover have "Q info" if "info \<in> set (infos (selected_filters_and_bindings D))" for info
    using g that unfolding transfer_graph_def selected_ok_def infos_def good_edge_def by force
  ultimately show ?thesis by (auto simp: flow_def split: if_splits)
qed

lemma transfer_graph_edge:
  assumes g: "transfer_graph rn Q N ks par D" and b: "b \<in> dom N" "dag_nodes D b = Some nb"
    and e: "e \<in> set (incoming fw nb)"
  shows "if fw then par (edge_dest e) = Some b else par b = Some (edge_dest e)"
proof -
  have "filters e \<noteq> []"
    using transfer_graph_vertex [OF g b(1)] b(2) e by (auto simp: vertex_spec_def edges_full_def fresh_edge_def list_all_iff)
  then obtain f where "f \<in> set (filters e)" by (meson last_in_set)
  then show ?thesis using transfer_graph_incoming [OF g b e] by blast
qed

lemma transfer_graph_symmetric:
  assumes g: "transfer_graph rn Q N ks par D" and "a \<in> dom N" "b \<in> dom N" and "dag_nodes D a = Some na" "dag_nodes D b = Some nb"
  shows "edge_filters b (outgoing fw na) = edge_filters a (incoming fw nb)"
  using transfer_graph_vertex [OF g assms(2)] transfer_graph_vertex [OF g assms(3)] assms(4,5)
  by (auto simp: vertex_spec_def)

lemma distinct_same_length: "distinct (map g xs) \<Longrightarrow> (\<And>x. x \<in> set xs \<Longrightarrow> g x = c) \<Longrightarrow> length xs \<le> 1"
  by (cases xs; cases "tl xs") auto

lemma transfer_graph_single:
  assumes g: "transfer_graph rn Q N ks par D" and b: "b \<in> dom N" "dag_nodes D b = Some nb"
  shows "length (forward_out nb) \<le> 1" "length (backward_in nb) \<le> 1"
proof -
  have spec: "dag_node_wf nb" "edges_full nb" "edge_filters a (outgoing True nb) = flow N par (selected_filters_and_bindings D) b a True" for a
    using transfer_graph_vertex [OF g b(1)] b(2) by (auto simp: vertex_spec_def)
  have "par b = Some (edge_dest e)" if "e \<in> set (forward_out nb)" for e
  proof -
    have "e \<in> set (outgoing True nb)" using that by (simp add: outgoing_def)
    moreover have "filters e \<noteq> []"
      using spec(2) calculation unfolding edges_full_def fresh_edge_def list_all_iff by (metis Un_iff set_append)
    ultimately obtain f where "f \<in> set (edge_filters (edge_dest e) (outgoing True nb))"
      using edge_filters_member by (meson last_in_set)
    then show ?thesis using spec(3) by (auto simp: flow_def split: if_splits)
  qed
  then show "length (forward_out nb) \<le> 1"
    using spec(1) by (intro distinct_same_length [of edge_dest _ "the (par b)"]) (auto simp: dag_node_wf_def)
  have "par b = Some (edge_dest e)" if "e \<in> set (backward_in nb)" for e
    using transfer_graph_edge [OF g b, of e False] that by (simp add: incoming_def)
  then show "length (backward_in nb) \<le> 1"
    using spec(1) by (intro distinct_same_length [of edge_dest _ "the (par b)"]) (auto simp: dag_node_wf_def)
qed

text \<open>An edge that lets \<open>a\<close> filter \<open>b\<close> stems from an equality of a join that does not preserve \<open>b\<close>.\<close>

lemma edge_origin_protected:
  assumes named: "nodes_named (nodes m)" and info: "edge_origin m ops info" "edge_between (nodes m) a b info" "receives info b"
    and ab: "a \<noteq> b"
  shows "\<exists>op \<in> set ops. \<exists>cond \<in> set (conditions (op_of op)). \<exists>l r.
    ei_filter info = comparison_of cond \<and> cond_comparison cond = COMPARE_EQUAL \<and> condition_vertices m cond = Some (l, r) \<and>
    (b = l \<and> a = r \<and> join_type (op_of op) \<noteq> JT_LEFT \<or> b = r \<and> a = l \<and> join_type (op_of op) \<noteq> JT_RIGHT)"
proof -
  obtain op cond l r ln rn where o: "op \<in> set ops" "cond \<in> set (conditions (op_of op))"
    and c: "cond_comparison cond = COMPARE_EQUAL" "ei_filter info = comparison_of cond" "condition_vertices m cond = Some (l, r)"
    and n: "nodes m l = Some ln" "nodes m r = Some rn" and
    side: "large info = ln \<and> small info = rn \<and> large_protect info = (join_type (op_of op) = JT_LEFT) \<and>
        small_protect info = (join_type (op_of op) = JT_RIGHT) \<or>
      large info = rn \<and> small info = ln \<and> large_protect info = (join_type (op_of op) = JT_RIGHT) \<and>
        small_protect info = (join_type (op_of op) = JT_LEFT)"
    using info(1) unfolding edge_origin_def edge_for_def by auto
  have ids: "op_node_id ln = Some l" "op_node_id rn = Some r" using named n by (auto simp: nodes_named_def)
  have "b = l \<and> a = r \<and> join_type (op_of op) \<noteq> JT_LEFT \<or> b = r \<and> a = l \<and> join_type (op_of op) \<noteq> JT_RIGHT"
    using side info(2,3) ids ab named unfolding edge_between_def receives_def nodes_named_def by auto
  then show ?thesis using o c by blast
qed

section \<open>A sample graph\<close>

definition sample_orders :: hash_orders where
  "sample_orders = \<lparr>ord_nodes = sorted_list_of_set, ord_constructed = sorted_list_of_set,
     ord_unconstructed = sorted_list_of_set, ord_edges = sorted_list_of_set\<rparr>"

lemma sample_orders_ok: "hash_ok sample_orders"
  by (simp add: hash_ok_def order_ok_def sample_orders_def)

definition sample_manager :: NodesManager where
  "sample_manager = NodesManager_new\<lparr>nodes := [0 \<mapsto> sample_filter, 1 \<mapsto> sample_get 2 1],
     rename_cols := [\<lparr>table_index = 2, column_index = 0\<rparr> \<mapsto> \<lparr>table_index = 1, column_index = 0\<rparr>],
     card_of := (\<lambda>_. 0)(4 := 10, 2 := 10)\<rparr>"

lemmas kind_defs = two_child_types_def set_op_types_def leaf_types_def join_types_def node_types_def table_node_types_def

lemma sample_extract: "ExtractNodes (\<lambda>op. 10) sample_plan (NodesManager_new, []) = Some (sample_manager, [sample_join])"
  by (simp add: sample_defs kind_defs ExtractNodes.simps OperatorNeedsRelation_def rename_outputs_def insert_rename_def
      add_filter_operator_def has_equality_def add_node_def AddNode_def op_node_id_def GetTableIndexinFilter_def
      cast_get_index_def GetTableIndex_def sample_manager_def NodesManager_new_def Let_def)

lemma sample_plan_wf: "plan_wf id sample_plan"
  using sample_plan_ok by (simp add: plan_wf_def ranked_plan_def ranked_outputs_def sample_defs)

lemma sample_resolved: "distinct (unresolved sample_manager [sample_join])"
  by (simp add: unresolved_def all_conditions_def sample_defs)

text \<open>The graph of the sample plan, evaluated.\<close>

definition sample_sorted :: NodesManager where
  "sample_sorted = SortNodes sorted_list_of_set (DuplicateNodes sample_manager)"

definition sample_info :: DAGEdgeInfo where
  "sample_info = DAGEdgeInfo_new (BoundComparison COMPARE_EQUAL (sample_col 0 0) (sample_col 1 0)) (sample_get 2 1) sample_filter"

definition sample_edges :: DAGManager where
  "sample_edges = DAGManager_new\<lparr>nodes_manager := sample_sorted,
     filters_and_bindings := [(1, 0) \<mapsto> [Some sample_info], (0, 1) \<mapsto> [Some sample_info]]\<rparr>"

lemma sample_lists:
  "sorted_list_of_set {0, Suc 0} = [0, 1::nat]" "sorted_list_of_set {0::nat} = [0]" "sorted_list_of_set {Suc 0} = [1::nat]"
  by (simp_all add: insert_commute)

lemma sample_ids:
  "op_id (op_of sample_filter) = 4" "op_id (op_of (sample_get 2 (Suc 0))) = 2"
  "op_node_id sample_filter = Some 0" "op_node_id (sample_get 2 (Suc 0)) = Some 1"
  by (simp_all add: sample_filter_def sample_get_def blank_info_def op_node_id_def table_node_types_def GetTableIndex_def
      GetTableIndexinFilter_def cast_get_index_def)

lemma sample_sorted_nodes:
  "nodes sample_sorted = [0 \<mapsto> sample_filter, Suc 0 \<mapsto> sample_get 2 (Suc 0)]"
  "rename_cols sample_sorted = [\<lparr>table_index = 2, column_index = 0\<rparr> \<mapsto> \<lparr>table_index = 1, column_index = 0\<rparr>]"
  "dom (nodes sample_sorted) = {0, Suc 0}" "dom (nodes (DuplicateNodes sample_manager)) = {0, Suc 0}"
  by (auto simp: sample_sorted_def SortNodes_def DuplicateNodes_def sample_manager_def)

lemma sample_sort_nodes: "sort_nodes sample_sorted = [sample_filter, sample_get 2 1]"
  unfolding sample_sorted_def SortNodes_def sample_sorted_nodes(4) sample_lists
  by (simp add: sample_manager_def DuplicateNodes_def NodesManager_new_def sample_ids)

lemma sample_FindRename:
  "FindRename sample_sorted (colref_binding (sample_col 0 0)) = Some \<lparr>table_index = 0, column_index = 0\<rparr>"
  "FindRename sample_sorted (colref_binding (sample_col (Suc 0) 0)) = Some \<lparr>table_index = 1, column_index = 0\<rparr>"
  by (simp_all add: FindRename_def sample_sorted_nodes sample_col_def)

lemma sample_ExtractEdges:
  "ExtractEdges [sample_join] (DAGManager_new\<lparr>nodes_manager := sample_sorted\<rparr>) = Some sample_edges"
  by (simp add: ExtractEdges_flat all_conditions_def sample_join_def blank_info_def join_types_def extract_condition_def
      edge_info_def Let_def sample_FindRename getNode_def sample_sorted_nodes sample_sort_nodes node_in_order_def same_op_def
      sample_ids insert_edge_def append_at_def DAGManager_new_def sample_info_def sample_edges_def fun_eq_iff)

lemma sample_LargestRoot:
  "\<exists>D c d r s. LargestRoot sample_orders [sample_filter, sample_get 2 1] sample_edges = Some D \<and>
     nodes (nodes_manager D) = Map.empty \<and> selected_filters_and_bindings D = [Some sample_info] \<and>
     dag_nodes D = [0 \<mapsto> (DAGNode_new 0 c r)\<lparr>priority := 0\<rparr>, 1 \<mapsto> (DAGNode_new 1 d s)\<lparr>priority := 1\<rparr>]"
proof -
  have id: "node_id (DAGNode_new k c r) = k" for k c r by (simp add: DAGNode_new_def)
  show ?thesis
    by (simp add: LargestRoot_def root_tree_def sample_edges_def sample_sorted_nodes sample_orders_def sample_lists
        create_vertex_def same_op_def sample_ids Let_def NumNodes_def emit_node_def getNode_def EraseNode_def
        grow_tree.simps FindEdge_def better_edge_def attach_vertex_def select_edges_def id)
      (auto simp: DAGManager_new_def fun_upd_twist)
qed

lemma sample_CreateDAG:
  "\<exists>D nb. CreateDAG sample_orders sample_edges = Some D \<and> dag_nodes D 1 = Some nb \<and>
     forward_in nb = [\<lparr>edge_dest = 0, filters = [ei_filter sample_info], bloom_filters = []\<rparr>]"
proof -
  obtain D c d r s where D: "LargestRoot sample_orders (sort_nodes (nodes_manager sample_edges)) sample_edges = Some D"
    "nodes (nodes_manager D) = Map.empty" "selected_filters_and_bindings D = [Some sample_info]"
    "dag_nodes D = [0 \<mapsto> (DAGNode_new 0 c r)\<lparr>priority := 0\<rparr>, 1 \<mapsto> (DAGNode_new 1 d s)\<lparr>priority := 1\<rparr>]"
    using sample_LargestRoot by (auto simp: sample_edges_def sample_sort_nodes)
  have "nodes (nodes_manager sample_edges) \<noteq> Map.empty"
    by (simp add: sample_edges_def sample_sorted_nodes)
  then have "grow_forest sample_orders sample_edges =
      Some (D\<lparr>nodes_manager := ReSortNodes (ord_nodes sample_orders) (nodes_manager D)\<rparr>)"
    using D(1,2) by (simp add: grow_forest.simps ReSortNodes_def Let_def)
  then show ?thesis
    using D(3,4)
    by (simp add: CreateDAG_def Let_def orient_edge_def sample_info_def DAGEdgeInfo_new_def sample_ids update_node_def
        DAGNode_new_def AddIn_def AddOut_def Push_def DAGEdge_new_def)
qed

lemma sample_graph:
  "\<exists>D nb. Build (\<lambda>op. 10) sample_orders sample_plan DAGManager_new = Some (True, D) \<and> dag_nodes D 1 = Some nb \<and>
     forward_in nb = [\<lparr>edge_dest = 0, filters = [ei_filter sample_info], bloom_filters = []\<rparr>]"
proof -
  have "\<not> NumNodes (DuplicateNodes sample_manager) < 2" by (simp add: NumNodes_def sample_sorted_nodes)
  moreover have "SortNodes (ord_nodes sample_orders) (DuplicateNodes sample_manager) = sample_sorted"
    by (simp add: sample_orders_def sample_sorted_def)
  moreover have "filters_and_bindings sample_edges \<noteq> Map.empty" by (simp add: sample_edges_def)
  moreover have "nodes_manager DAGManager_new = NodesManager_new" by (simp add: DAGManager_new_def)
  ultimately show ?thesis
    using sample_CreateDAG sample_ExtractEdges sample_extract by (auto simp: Build_def Let_def)
qed

section \<open>Claims\<close>

text \<open>
  C21. The next edge of the forest: \<open>FindEdge\<close> never fails; it returns an edge from a
  reached to an unreached vertex whenever there is one, and no such edge has more
  conditions, nor as many conditions and an unreached end of larger cardinality.
\<close>

theorem FindEdge_optimal:
  assumes "hash_ok H" and "finite C" and "finite U" and "[] \<notin> ran (filters_and_bindings D)"
    and "U \<subseteq> dom (nodes (nodes_manager D))"
  shows "\<exists>r. FindEdge H C U D = Some r \<and>
    (case r of
       None \<Rightarrow> \<forall>a \<in> C. \<forall>b \<in> U. filters_and_bindings D (a, b) = None
     | Some (a, b) \<Rightarrow> a \<in> C \<and> b \<in> U \<and> (\<exists>v. filters_and_bindings D (a, b) = Some v \<and>
         (\<forall>a' \<in> C. \<forall>b' \<in> U. \<forall>v'. filters_and_bindings D (a', b') = Some v' \<longrightarrow>
            length v' < length v \<or> length v' = length v \<and>
              estimated_cardinality (nodes_manager D) (the (nodes (nodes_manager D) b')) \<le>
              estimated_cardinality (nodes_manager D) (the (nodes (nodes_manager D) b)))))"
proof -
  obtain w c r where r: "FindEdge H C U D = Some r" and best: "best_ok (edge_value D) (C \<times> U) (w, c, r)"
    using FindEdge_spec [OF assms] by blast
  show ?thesis
  proof (cases r)
    case None
    then show ?thesis using r best by (auto simp: best_ok_def edge_value_def split: option.splits)
  next
    case (Some e)
    obtain a b where e: "e = (a, b)" by (cases e)
    have "(a, b) \<in> C \<times> U" "edge_value D (a, b) = Some (w, c)"
      and max: "\<And>k v. k \<in> C \<times> U \<Longrightarrow> edge_value D k = Some v \<Longrightarrow> edge_le v (w, c)"
      using best Some e by (auto simp: best_ok_def)
    then obtain v where v: "a \<in> C" "b \<in> U" "filters_and_bindings D (a, b) = Some v" "w = length v"
        "c = estimated_cardinality (nodes_manager D) (the (nodes (nodes_manager D) b))"
      by (auto simp: edge_value_def split: option.splits)
    have "length v' < length v \<or> length v' = length v \<and>
        estimated_cardinality (nodes_manager D) (the (nodes (nodes_manager D) b')) \<le> c"
      if "a' \<in> C" "b' \<in> U" "filters_and_bindings D (a', b') = Some v'" for a' b' v'
      using max [of "(a', b')"] that v(4) by (simp add: edge_value_def edge_le_def)
    then show ?thesis using r Some e v by auto
  qed
qed

theorem FindEdge_optimal_witness:
  "hash_ok sample_orders \<and> finite {0::nat} \<and> finite {1::nat} \<and>
   (let D = DAGManager_new\<lparr>nodes_manager := sample_manager,
       filters_and_bindings := [(0, 1) \<mapsto> [Some (DAGEdgeInfo_new (sample_col 0 0) sample_filter (sample_get 2 1))]]\<rparr>
    in [] \<notin> ran (filters_and_bindings D) \<and> {1} \<subseteq> dom (nodes (nodes_manager D)) \<and>
       FindEdge sample_orders {0} {1} D = Some (Some (0, 1)))"
proof -
  let ?D = "DAGManager_new\<lparr>nodes_manager := sample_manager,
       filters_and_bindings := [(0, 1) \<mapsto> [Some (DAGEdgeInfo_new (sample_col 0 0) sample_filter (sample_get 2 1))]]\<rparr>"
  have h: "[] \<notin> ran (filters_and_bindings ?D)" "{1} \<subseteq> dom (nodes (nodes_manager ?D))"
    by (auto simp: ran_def sample_manager_def split: if_splits)
  obtain r where r: "FindEdge sample_orders {0} {1} ?D = Some r"
    "case r of None \<Rightarrow> \<forall>a \<in> {0}. \<forall>b \<in> {1}. filters_and_bindings ?D (a, b) = None | Some (a, b) \<Rightarrow> a \<in> {0} \<and> b \<in> {1}"
    using FindEdge_optimal [OF sample_orders_ok _ _ h, of "{0}"] by (fastforce split: option.splits)
  then have "r = Some (0, 1)" by (auto split: option.splits)
  then show ?thesis using r(1) h sample_orders_ok by (simp add: Let_def)
qed

text \<open>
  C17. Building the transfer graph of a plan returns, whatever the iteration orders of
  the hash containers. If it reports success, the execution order visits every vertex
  exactly once, and priorities fall by one from each vertex to the next.
\<close>

theorem Build_correct:
  assumes "hash_ok H" and "plan_wf rank plan"
    and "ExtractNodes E plan (NodesManager_new, []) = Some (m, ops)" and "distinct (unresolved m ops)"
  shows "\<exists>b D. Build E H plan DAGManager_new = Some (b, D) \<and>
    (b \<longrightarrow> (\<exists>ks. distinct ks \<and> set ks = dom (nodes m) \<and> ExecOrder D = map (\<lambda>k. the (nodes m k)) ks \<and>
       (\<forall>i < length ks. \<exists>nd. dag_nodes D (ks ! i) = Some nd \<and> node_id nd = ks ! i \<and>
          priority nd = int (length ks) - 1 - int i)))"
proof -
  obtain b D where D: "Build E H plan DAGManager_new = Some (b, D)"
    and g: "b \<Longrightarrow> \<exists>ks par. transfer_graph (rename_cols m) (edge_origin m ops) (nodes m) ks par D"
    using Build_spec [OF assms] by blast
  have "\<exists>ks. distinct ks \<and> set ks = dom (nodes m) \<and> ExecOrder D = map (\<lambda>k. the (nodes m k)) ks \<and>
       (\<forall>i < length ks. \<exists>nd. dag_nodes D (ks ! i) = Some nd \<and> node_id nd = ks ! i \<and>
          priority nd = int (length ks) - 1 - int i)" if b
    using g [OF that] unfolding transfer_graph_def dag_spec_def vertex_spec_def by meson
  then show ?thesis using D by blast
qed

theorem Build_correct_witness:
  "hash_ok sample_orders \<and> plan_wf id sample_plan \<and>
   ExtractNodes (\<lambda>op. 10) sample_plan (NodesManager_new, []) = Some (sample_manager, [sample_join]) \<and>
   distinct (unresolved sample_manager [sample_join]) \<and>
   (\<exists>D ks. Build (\<lambda>op. 10) sample_orders sample_plan DAGManager_new = Some (True, D) \<and>
      distinct ks \<and> set ks = dom (nodes sample_manager) \<and> ExecOrder D = map (\<lambda>k. the (nodes sample_manager k)) ks)"
  using Build_correct [OF sample_orders_ok sample_plan_wf sample_extract sample_resolved] sample_graph
    sample_orders_ok sample_plan_wf sample_extract sample_resolved by fastforce

text \<open>
  C18. The transfer graph has no cycles in either pass: forward edges lead to a vertex of
  higher priority, backward edges to one of lower priority; both ends of an edge hold
  the same conditions; and it is a forest: at most one forward edge leaves a vertex and
  at most one backward edge enters it.
\<close>

theorem transfer_graph_acyclic:
  assumes "hash_ok H" and "plan_wf rank plan"
    and "ExtractNodes E plan (NodesManager_new, []) = Some (m, ops)" and "distinct (unresolved m ops)"
    and "Build E H plan DAGManager_new = Some (True, D)" and "b \<in> dom (nodes m)"
  shows "\<exists>nb. dag_nodes D b = Some nb \<and>
    (\<forall>e \<in> set (forward_in nb). \<exists>na. dag_nodes D (edge_dest e) = Some na \<and> priority na < priority nb \<and>
       edge_filters b (forward_out na) = edge_filters (edge_dest e) (forward_in nb)) \<and>
    (\<forall>e \<in> set (backward_in nb). \<exists>na. dag_nodes D (edge_dest e) = Some na \<and> priority nb < priority na \<and>
       edge_filters b (backward_out na) = edge_filters (edge_dest e) (backward_in nb)) \<and>
    length (forward_out nb) \<le> 1 \<and> length (backward_in nb) \<le> 1"
proof -
  obtain ks par where g: "transfer_graph (rename_cols m) (edge_origin m ops) (nodes m) ks par D"
    using Build_spec [OF assms(1-4)] assms(5) by auto
  obtain nb where nb: "dag_nodes D b = Some nb" using transfer_graph_vertex [OF g assms(6)] by blast
  have "\<exists>na. dag_nodes D (edge_dest e) = Some na \<and> (if fw then priority na < priority nb else priority nb < priority na) \<and>
      edge_filters b (outgoing fw na) = edge_filters (edge_dest e) (incoming fw nb)" if e: "e \<in> set (incoming fw nb)" for fw e
  proof -
    have par: "if fw then par (edge_dest e) = Some b else par b = Some (edge_dest e)"
      by (rule transfer_graph_edge [OF g assms(6) nb e])
    then have a: "edge_dest e \<in> dom (nodes m)"
      using transfer_graph_priority(1,2) [OF g] by (metis (full_types))
    then obtain na where na: "dag_nodes D (edge_dest e) = Some na" using transfer_graph_vertex [OF g] by blast
    show ?thesis
      using par na nb transfer_graph_priority(4) [OF g] transfer_graph_symmetric [OF g a assms(6) na nb]
      by (auto split: if_splits)
  qed
  from this [of _ True] this [of _ False] show ?thesis
    using nb transfer_graph_single [OF g assms(6) nb] by (auto simp: incoming_def outgoing_def)
qed

theorem transfer_graph_acyclic_witness:
  "hash_ok sample_orders \<and> plan_wf id sample_plan \<and>
   ExtractNodes (\<lambda>op. 10) sample_plan (NodesManager_new, []) = Some (sample_manager, [sample_join]) \<and>
   distinct (unresolved sample_manager [sample_join]) \<and> 0 \<in> dom (nodes sample_manager) \<and>
   (\<exists>D nb. Build (\<lambda>op. 10) sample_orders sample_plan DAGManager_new = Some (True, D) \<and>
      dag_nodes D 0 = Some nb \<and> length (forward_out nb) \<le> 1)"
proof -
  obtain D where D: "Build (\<lambda>op. 10) sample_orders sample_plan DAGManager_new = Some (True, D)"
    using sample_graph by blast
  have "0 \<in> dom (nodes sample_manager)" by (simp add: sample_manager_def)
  from transfer_graph_acyclic [OF sample_orders_ok sample_plan_wf sample_extract sample_resolved D this] this
  show ?thesis using D sample_orders_ok sample_plan_wf sample_extract sample_resolved by blast
qed

text \<open>
  C19. Whatever filters a vertex is justified by a join: every condition on an edge into
  a vertex is an equality of some join of the plan between columns of the two ends, and
  the vertex is not on the preserved side of that join: not the left side of a left
  outer join, not the right side of a right outer join.
\<close>

theorem outer_joins_protected:
  assumes "hash_ok H" and "plan_wf rank plan"
    and "ExtractNodes E plan (NodesManager_new, []) = Some (m, ops)" and "distinct (unresolved m ops)"
    and "Build E H plan DAGManager_new = Some (True, D)" and "b \<in> dom (nodes m)" and "dag_nodes D b = Some nb"
    and "e \<in> set (forward_in nb) \<union> set (backward_in nb)" and "f \<in> set (filters e)"
  shows "\<exists>op \<in> set ops. \<exists>cond \<in> set (conditions (op_of op)). \<exists>l r.
    f = comparison_of cond \<and> cond_comparison cond = COMPARE_EQUAL \<and> condition_vertices m cond = Some (l, r) \<and>
    (b = l \<and> edge_dest e = r \<and> join_type (op_of op) \<noteq> JT_LEFT \<or>
     b = r \<and> edge_dest e = l \<and> join_type (op_of op) \<noteq> JT_RIGHT)"
proof -
  obtain ks par where g: "transfer_graph (rename_cols m) (edge_origin m ops) (nodes m) ks par D"
    using Build_spec [OF assms(1-4)] assms(5) by auto
  have named: "nodes_named (nodes m)"
    using ExtractNodes_inv [OF assms(3)] by (auto simp: nodes_inv_def nodes_named_def filters_inv_def NodesManager_new_def)
  obtain fw where "e \<in> set (incoming fw nb)" using assms(8) by (metis (full_types) Un_iff incoming_def)
  from transfer_graph_incoming [OF g assms(6,7) this assms(9)] obtain info where
    par: "if fw then par (edge_dest e) = Some b else par b = Some (edge_dest e)" and
    info: "edge_origin m ops info" "edge_between (nodes m) (edge_dest e) b info" "receives info b" "ei_filter info = f"
    by blast
  have "edge_dest e \<noteq> b" using par transfer_graph_priority(3) [OF g] by (metis (full_types))
  from edge_origin_protected [OF named info(1-3) this] show ?thesis unfolding info(4) .
qed

theorem outer_joins_protected_witness:
  "\<exists>D nb e f op cond. hash_ok sample_orders \<and> plan_wf id sample_plan \<and>
     ExtractNodes (\<lambda>op. 10) sample_plan (NodesManager_new, []) = Some (sample_manager, [sample_join]) \<and>
     distinct (unresolved sample_manager [sample_join]) \<and>
     Build (\<lambda>op. 10) sample_orders sample_plan DAGManager_new = Some (True, D) \<and>
     1 \<in> dom (nodes sample_manager) \<and> dag_nodes D 1 = Some nb \<and> e \<in> set (forward_in nb) \<union> set (backward_in nb) \<and>
     f \<in> set (filters e) \<and> op \<in> set [sample_join] \<and> cond \<in> set (conditions (op_of op)) \<and> f = comparison_of cond"
proof -
  obtain D nb where D: "Build (\<lambda>op. 10) sample_orders sample_plan DAGManager_new = Some (True, D)" "dag_nodes D 1 = Some nb"
    "forward_in nb = [\<lparr>edge_dest = 0, filters = [ei_filter sample_info], bloom_filters = []\<rparr>]"
    using sample_graph by blast
  let ?e = "\<lparr>edge_dest = 0, filters = [ei_filter sample_info], bloom_filters = []\<rparr>"
  have e: "1 \<in> dom (nodes sample_manager)" "?e \<in> set (forward_in nb) \<union> set (backward_in nb)"
    "ei_filter sample_info \<in> set (filters ?e)" using D(3) by (simp_all add: sample_manager_def)
  from outer_joins_protected [OF sample_orders_ok sample_plan_wf sample_extract sample_resolved D(1) e(1) D(2) e(2,3)]
  show ?thesis using sample_orders_ok sample_plan_wf sample_extract sample_resolved D e by blast
qed



end
