(* ===== verification/PT_Optimizer.thy ===== *)
theory PT_Optimizer
  imports Dag_Build Bloom_Filter
begin

text \<open>
  \<open>class PredicateTransferOptimizer\<close> (predicate_transfer_optimizer.hpp and .cpp): two
  passes over the execution order decide at which operators Bloom filters are created
  and used, and the operators that do so are inserted above them in the plan.

  Bloom filters are shared objects: the state holds them in a list, and everything
  else refers to them by their position. New operators get addresses from a counter.
  The two replacement maps hold \<open>unique_ptr\<close>s, which are null (\<open>None\<close>) once moved.
\<close>

section \<open>Results\<close>

text \<open>
  An exception the code throws, or behaviour that is not defined: a null pointer or an
  element that does not exist.
\<close>

datatype pt_error = InternalException_no_column_binding | InternalException_no_built_column | Undefined_behaviour

type_synonym 'a pt_result = "pt_error + 'a"

section \<open>State\<close>

type_synonym replace_map = "nat \<rightharpoonup> LogicalOperator option"

record PredicateTransferOptimizer =
  dag_manager :: DAGManager
  bloom_heap :: "BlockedBloomFilter list"
  next_op_id :: nat
  replace_map_forward :: replace_map
  replace_map_backward :: replace_map

text \<open>The constructor; addresses up to \<open>n\<close> are taken.\<close>

definition PredicateTransferOptimizer_new :: "nat \<Rightarrow> PredicateTransferOptimizer" where
  "PredicateTransferOptimizer_new n =
     \<lparr>dag_manager = DAGManager_new, bloom_heap = [], next_op_id = n,
      replace_map_forward = Map.empty, replace_map_backward = Map.empty\<rparr>"

definition replace_map :: "bool \<Rightarrow> PredicateTransferOptimizer \<Rightarrow> replace_map" where
  "replace_map reverse S = (if reverse then replace_map_backward S else replace_map_forward S)"

definition set_replacement :: "bool \<Rightarrow> nat \<Rightarrow> LogicalOperator \<Rightarrow> PredicateTransferOptimizer \<Rightarrow>
    PredicateTransferOptimizer" where
  "set_replacement reverse k op S =
     (if reverse then S\<lparr>replace_map_backward := (replace_map_backward S)(k \<mapsto> Some op)\<rparr>
      else S\<lparr>replace_map_forward := (replace_map_forward S)(k \<mapsto> Some op)\<rparr>)"

section \<open>Operators\<close>

definition LogicalCreateBF :: "nat \<Rightarrow> nat list \<Rightarrow> LogicalOperator" where
  "LogicalCreateBF i bfs = Op (blank_info\<lparr>op_id := i, op_type := LOGICAL_CREATE_BF, bf_to_create := bfs\<rparr>) []"

definition LogicalUseBF :: "nat \<Rightarrow> nat list \<Rightarrow> LogicalOperator" where
  "LogicalUseBF i bfs = Op (blank_info\<lparr>op_id := i, op_type := LOGICAL_USE_BF, bf_to_use := bfs\<rparr>) []"

definition AddDownStreamOperator :: "LogicalOperator \<Rightarrow> LogicalOperator \<Rightarrow> LogicalOperator" where
  "AddDownStreamOperator create op =
     Op ((op_of op)\<lparr>related_create_bf := related_create_bf (op_of op) @ [op_id (op_of create)]\<rparr>) (children op)"

text \<open>A new operator takes an address and the cardinality of the node it is made for.\<close>

definition make_operator :: "(nat \<Rightarrow> LogicalOperator) \<Rightarrow> LogicalOperator \<Rightarrow> PredicateTransferOptimizer \<Rightarrow>
    LogicalOperator \<times> PredicateTransferOptimizer" where
  "make_operator mk node S =
     (let i = next_op_id S; D = dag_manager S; m = nodes_manager D
      in (mk i, S\<lparr>next_op_id := Suc i,
           dag_manager := D\<lparr>nodes_manager := m\<lparr>card_of := (card_of m)(i := estimated_cardinality m node)\<rparr>\<rparr>\<rparr>))"

section \<open>The filters of a vertex\<close>

definition GetNodeId :: "LogicalOperator \<Rightarrow> nat option" where
  "GetNodeId node =
     (if op_type (op_of node) \<in> set node_types then op_node_id node else Some INVALID_INDEX)"

definition use_filter :: "nat \<Rightarrow> nat \<Rightarrow> (nat \<times> nat) list \<times> BlockedBloomFilter list \<Rightarrow>
    ((nat \<times> nat) list \<times> BlockedBloomFilter list) pt_result" where
  "use_filter dest h s =
     (case s of (used, heap) \<Rightarrow>
        if h < length heap then
          (if \<not> Used (heap ! h) then Inr (used @ [(h, dest)], heap[h := setUsed (heap ! h)]) else Inr s)
        else Inl Undefined_behaviour)"

text \<open>The filters to use with the vertices that create them: \<open>temp_result_to_use\<close> and \<open>depend_nodes\<close>.\<close>

definition GetAllBFUsed :: "nat \<Rightarrow> bool \<Rightarrow> PredicateTransferOptimizer \<Rightarrow>
    ((nat \<times> nat) list \<times> PredicateTransferOptimizer) pt_result" where
  "GetAllBFUsed cur reverse S =
     (case dag_nodes (dag_manager S) cur of
        None \<Rightarrow> Inl Undefined_behaviour
      | Some nd \<Rightarrow>
          (case for_res (\<lambda>edge. for_res (use_filter (edge_dest edge)) (bloom_filters edge))
                  (incoming (\<not> reverse) nd) ([], bloom_heap S) of
             Inl e \<Rightarrow> Inl e
           | Inr (used, heap) \<Rightarrow> Inr (used, S\<lparr>bloom_heap := heap\<rparr>)))"

definition add_condition :: "NodesManager \<Rightarrow> nat \<Rightarrow> Expression \<Rightarrow> BlockedBloomFilter \<Rightarrow> BlockedBloomFilter pt_result" where
  "add_condition m cur expr cur_filter =
     (case GetColumnBindingExpression expr of
        c0 # c1 # _ \<Rightarrow>
          (case (FindRename m c0, FindRename m c1) of
             (Some r0, Some r1) \<Rightarrow>
               if table_index r0 = cur then Inr (AddColumnBindingBuilt r0 (AddColumnBindingApplied r1 cur_filter))
               else if table_index r1 = cur then Inr (AddColumnBindingBuilt r1 (AddColumnBindingApplied r0 cur_filter))
               else Inr cur_filter
           | _ \<Rightarrow> Inl Undefined_behaviour)
      | _ \<Rightarrow> Inl Undefined_behaviour)"

definition create_filter :: "NodesManager \<Rightarrow> nat \<Rightarrow> bool \<Rightarrow> DAGEdge \<Rightarrow> BlockedBloomFilter pt_result" where
  "create_filter m cur reverse edge =
     (case for_res (add_condition m cur) (filters edge) BlockedBloomFilter_new of
        Inl e \<Rightarrow> Inl e
      | Inr cur_filter \<Rightarrow>
          if length (column_bindings_built cur_filter) \<noteq> 0 then Inr cur_filter
          else Inl (if reverse then InternalException_no_built_column else InternalException_no_column_binding))"

definition GetAllBFCreate :: "nat \<Rightarrow> bool \<Rightarrow> PredicateTransferOptimizer \<Rightarrow>
    (nat list \<times> PredicateTransferOptimizer) pt_result" where
  "GetAllBFCreate cur reverse S =
     (case dag_nodes (dag_manager S) cur of
        None \<Rightarrow> Inl Undefined_behaviour
      | Some nd \<Rightarrow>
          for_res (\<lambda>edge (to_create, S).
              case create_filter (nodes_manager (dag_manager S)) cur reverse edge of
                Inl e \<Rightarrow> Inl e
              | Inr f \<Rightarrow> Inr (to_create @ [length (bloom_heap S)], S\<lparr>bloom_heap := bloom_heap S @ [f]\<rparr>))
            (outgoing (\<not> reverse) nd) ([], S))"

section \<open>Building operators\<close>

definition BuildSingleCreateOperator :: "LogicalOperator \<Rightarrow> nat list \<Rightarrow> PredicateTransferOptimizer \<Rightarrow>
    LogicalOperator \<times> PredicateTransferOptimizer" where
  "BuildSingleCreateOperator node to_create S = make_operator (\<lambda>i. LogicalCreateBF i to_create) node S"

text \<open>One step of the loop that chains the operators, and the loop from the last filter to the first.\<close>

definition build_use :: "LogicalOperator \<Rightarrow> bool \<Rightarrow> nat \<times> nat \<Rightarrow> LogicalOperator option \<times> PredicateTransferOptimizer \<Rightarrow>
    (LogicalOperator option \<times> PredicateTransferOptimizer) pt_result" where
  "build_use node reverse entry s =
     (case (entry, s) of ((h, idx), (pre_use_bf, S)) \<Rightarrow>
        let (use_bf, S1) = make_operator (\<lambda>i. LogicalUseBF i [h]) node S
        in case getNode idx (nodes_manager (dag_manager S1)) of
             None \<Rightarrow> Inl Undefined_behaviour
           | Some base_node \<Rightarrow>
               (case replace_map reverse S1 (op_id (op_of base_node)) of
                  Some (Some related_bf_create) \<Rightarrow>
                    let use1 = (if op_type (op_of related_bf_create) = LOGICAL_CREATE_BF
                                then AddDownStreamOperator related_bf_create use_bf else use_bf);
                        use2 = (case pre_use_bf of None \<Rightarrow> use1 | Some p \<Rightarrow> AddChild p use1)
                    in Inr (Some use2, S1)
                | _ \<Rightarrow> Inl Undefined_behaviour))"

definition BuildUseOperator :: "LogicalOperator \<Rightarrow> (nat \<times> nat) list \<Rightarrow> bool \<Rightarrow> PredicateTransferOptimizer \<Rightarrow>
    (LogicalOperator option \<times> PredicateTransferOptimizer) pt_result" where
  "BuildUseOperator node to_use reverse S = for_res (build_use node reverse) (rev to_use) (None, S)"

definition BuildCreateUsePair :: "LogicalOperator \<Rightarrow> (nat \<times> nat) list \<Rightarrow> nat list \<Rightarrow> bool \<Rightarrow> PredicateTransferOptimizer \<Rightarrow>
    (LogicalOperator \<times> PredicateTransferOptimizer) pt_result" where
  "BuildCreateUsePair node to_use to_create reverse S =
     (case BuildUseOperator node to_use reverse S of
        Inl e \<Rightarrow> Inl e
      | Inr (None, S1) \<Rightarrow> Inl Undefined_behaviour
      | Inr (Some use_bf, S1) \<Rightarrow>
          let (create_bf, S2) = make_operator (\<lambda>i. LogicalCreateBF i to_create) node S1
          in Inr (AddChild use_bf create_bf, S2))"

definition PossibleFilterAny :: "LogicalOperator \<Rightarrow> bool \<Rightarrow> bool" where
  "PossibleFilterAny node reverse \<longleftrightarrow> True"

definition CreateBloomFilter :: "LogicalOperator \<Rightarrow> bool \<Rightarrow> PredicateTransferOptimizer \<Rightarrow>
    ((nat \<times> nat) list \<times> PredicateTransferOptimizer) pt_result" where
  "CreateBloomFilter node reverse S =
     (case GetNodeId node of
        None \<Rightarrow> Inl Undefined_behaviour
      | Some cur \<Rightarrow>
          if dag_nodes (dag_manager S) cur = None then Inr ([], S)
          else
            case GetAllBFUsed cur reverse S of
              Inl e \<Rightarrow> Inl e
            | Inr (to_use, S1) \<Rightarrow>
                (case GetAllBFCreate cur reverse S1 of
                   Inl e \<Rightarrow> Inl e
                 | Inr (to_create, S2) \<Rightarrow>
                     if to_use = [] then
                       (if to_create = [] then Inr ([], S2)
                        else if \<not> PossibleFilterAny node reverse then Inr ([], S2)
                        else let (create_bf, S3) = BuildSingleCreateOperator node to_create S2
                             in Inr (map (Pair cur) (bf_to_create (op_of create_bf)),
                                  set_replacement reverse (op_id (op_of node)) create_bf S3))
                     else
                       (if to_create = [] then
                          (case BuildUseOperator node to_use reverse S2 of
                             Inl e \<Rightarrow> Inl e
                           | Inr (None, S3) \<Rightarrow> Inl Undefined_behaviour
                           | Inr (Some use_bf, S3) \<Rightarrow> Inr ([], set_replacement reverse (op_id (op_of node)) use_bf S3))
                        else
                          (case BuildCreateUsePair node to_use to_create reverse S2 of
                             Inl e \<Rightarrow> Inl e
                           | Inr (create_bf, S3) \<Rightarrow>
                               Inr (map (Pair cur) (bf_to_create (op_of create_bf)),
                                 set_replacement reverse (op_id (op_of node)) create_bf S3)))))"

section \<open>The passes\<close>

definition add_filter :: "bool \<Rightarrow> nat \<times> nat \<Rightarrow> PredicateTransferOptimizer \<Rightarrow> PredicateTransferOptimizer pt_result" where
  "add_filter reverse BF S =
     (case BF of (create_table, h) \<Rightarrow>
        if h < length (bloom_heap S) then
          (case Add create_table h (column_bindings_applied (bloom_heap S ! h)) reverse (dag_manager S) of
             None \<Rightarrow> Inl Undefined_behaviour
           | Some D \<Rightarrow> Inr (S\<lparr>dag_manager := D\<rparr>))
        else Inl Undefined_behaviour)"

definition transfer_node :: "bool \<Rightarrow> LogicalOperator \<Rightarrow> PredicateTransferOptimizer \<Rightarrow> PredicateTransferOptimizer pt_result" where
  "transfer_node reverse current_node S =
     (case CreateBloomFilter current_node reverse S of
        Inl e \<Rightarrow> Inl e
      | Inr (BFvec, S1) \<Rightarrow> for_res (add_filter reverse) BFvec S1)"

definition PreOptimize :: "(LogicalOperator \<Rightarrow> nat) \<Rightarrow> hash_orders \<Rightarrow> LogicalOperator \<Rightarrow> PredicateTransferOptimizer \<Rightarrow>
    (LogicalOperator \<times> PredicateTransferOptimizer) pt_result" where
  "PreOptimize E H plan S =
     (case Build E H plan (dag_manager S) of
        None \<Rightarrow> Inl Undefined_behaviour
      | Some (success, D) \<Rightarrow> Inr (plan, S\<lparr>dag_manager := D\<rparr>))"

text \<open>The new operators go on top of the node: the node becomes the child of their last one.\<close>

fun add_leaf_child :: "LogicalOperator \<Rightarrow> LogicalOperator \<Rightarrow> LogicalOperator" where
  "add_leaf_child plan (Op info []) = AddChild plan (Op info [])"
| "add_leaf_child plan (Op info (c # cs)) = Op info (add_leaf_child plan c # cs)"

type_synonym replacements = "replace_map \<times> replace_map"

definition insert_replacement :: "nat \<Rightarrow> LogicalOperator \<Rightarrow> replace_map \<Rightarrow> (LogicalOperator \<times> replace_map) option" where
  "insert_replacement plan_ptr plan r =
     (case r plan_ptr of
        None \<Rightarrow> Some (plan, r)
      | Some None \<Rightarrow> None
      | Some (Some op) \<Rightarrow> Some (add_leaf_child plan op, r(plan_ptr \<mapsto> None)))"

fun InsertCreateBFOperator_d :: "LogicalOperator \<Rightarrow> replacements \<Rightarrow> (LogicalOperator \<times> replacements) option"
  and insert_children_d :: "LogicalOperator list \<Rightarrow> replacements \<Rightarrow> (LogicalOperator list \<times> replacements) option" where
  "InsertCreateBFOperator_d (Op info cs) r =
     (case insert_children_d cs r of
        None \<Rightarrow> None
      | Some (cs', (f, b)) \<Rightarrow>
          (case insert_replacement (op_id info) (Op info cs') f of
             None \<Rightarrow> None
           | Some (plan, f') \<Rightarrow>
               (case insert_replacement (op_id info) plan b of
                  None \<Rightarrow> None
                | Some (plan', b') \<Rightarrow> Some (plan', (f', b')))))"
| "insert_children_d [] r = Some ([], r)"
| "insert_children_d (c # cs) r =
     (case InsertCreateBFOperator_d c r of
        None \<Rightarrow> None
      | Some (c', r1) \<Rightarrow>
          (case insert_children_d cs r1 of
             None \<Rightarrow> None
           | Some (cs', r2) \<Rightarrow> Some (c' # cs', r2)))"

fun InsertCreateBFOperator :: "LogicalOperator \<Rightarrow> replace_map \<Rightarrow> (LogicalOperator \<times> replace_map) option"
  and insert_children :: "LogicalOperator list \<Rightarrow> replace_map \<Rightarrow> (LogicalOperator list \<times> replace_map) option" where
  "InsertCreateBFOperator (Op info cs) r =
     (case insert_children cs r of
        None \<Rightarrow> None
      | Some (cs', f) \<Rightarrow> insert_replacement (op_id info) (Op info cs') f)"
| "insert_children [] r = Some ([], r)"
| "insert_children (c # cs) r =
     (case InsertCreateBFOperator c r of
        None \<Rightarrow> None
      | Some (c', r1) \<Rightarrow>
          (case insert_children cs r1 of
             None \<Rightarrow> None
           | Some (cs', r2) \<Rightarrow> Some (c' # cs', r2)))"

definition Optimize :: "LogicalOperator \<Rightarrow> PredicateTransferOptimizer \<Rightarrow>
    (LogicalOperator \<times> PredicateTransferOptimizer) pt_result" where
  "Optimize plan S =
     (let ordered_nodes = ExecOrder (dag_manager S)
      in case for_res (transfer_node False) (rev ordered_nodes) S of
           Inl e \<Rightarrow> Inl e
         | Inr S1 \<Rightarrow>
             (case for_res (transfer_node True) ordered_nodes S1 of
                Inl e \<Rightarrow> Inl e
              | Inr S2 \<Rightarrow>
                  (case InsertCreateBFOperator_d plan (replace_map_forward S2, replace_map_backward S2) of
                     None \<Rightarrow> Inl Undefined_behaviour
                   | Some (result, (f, b)) \<Rightarrow>
                       Inr (result, S2\<lparr>replace_map_forward := f, replace_map_backward := b\<rparr>))))"

end
