(* ===== verification/PT_Weave.thy ===== *)
theory PT_Weave
  imports PT_Optimizer "HOL-Library.Multiset"
begin

text \<open>
  Inserting the new operators (\<open>InsertCreateBFOperator\<close> and \<open>InsertCreateBFOperator_d\<close>):
  the replacement of a node is a chain of operators, and the result is the plan with
  every node under its chains.
\<close>

section \<open>Chains\<close>

fun chain :: "op_info \<Rightarrow> op_info list \<Rightarrow> LogicalOperator" where
  "chain i [] = Op i []"
| "chain i (j # js) = Op i [chain j js]"

definition wrap :: "op_info list \<Rightarrow> LogicalOperator \<Rightarrow> LogicalOperator" where
  "wrap is plan = foldr (\<lambda>i c. Op i [c]) is plan"

fun entry :: "op_info list \<Rightarrow> LogicalOperator option option" where
  "entry [] = None"
| "entry (i # is) = Some (Some (chain i is))"

lemma wrap_simps [simp]: "wrap [] plan = plan" "wrap (i # is) plan = Op i [wrap is plan]"
    "wrap (is @ js) plan = wrap is (wrap js plan)"
  by (simp_all add: wrap_def)

lemma op_of_chain [simp]: "op_of (chain i is) = i"
  by (cases "is") simp_all

lemma AddChild_leaf [simp]: "AddChild c (Op i []) = Op i [c]"
  by (simp add: AddChild_def)

lemma add_leaf_child_chain [simp]: "add_leaf_child plan (chain i is) = wrap (i # is) plan"
  by (induction i "is" rule: chain.induct) simp_all

lemma entry_eq_None [simp]: "entry is = None \<longleftrightarrow> is = []"
  by (cases "is") simp_all

section \<open>Insertion\<close>

text \<open>The plan with the operators \<open>L k\<close> on top of the node with address \<open>k\<close>.\<close>

fun weave :: "(nat \<Rightarrow> op_info list) \<Rightarrow> LogicalOperator \<Rightarrow> LogicalOperator" where
  "weave L (Op info cs) = wrap (L (op_id info)) (Op info (map (weave L) cs))"

definition plan_ids :: "LogicalOperator \<Rightarrow> nat list" where
  "plan_ids plan = map (op_id \<circ> op_of) (operators plan)"

lemma plan_ids_simps [simp]: "plan_ids (Op info cs) = op_id info # concat (map plan_ids cs)"
  by (induction cs) (simp_all add: plan_ids_def)

definition holds_chains :: "nat set \<Rightarrow> (nat \<Rightarrow> op_info list) \<Rightarrow> replace_map \<Rightarrow> bool" where
  "holds_chains A L r \<longleftrightarrow> (\<forall>k \<in> A. r k = entry (L k))"

text \<open>Pointers of the nodes \<open>A\<close> that were inserted have been moved from.\<close>

definition moved :: "nat set \<Rightarrow> replace_map \<Rightarrow> replace_map" where
  "moved A r = (\<lambda>k. if k \<in> A \<and> r k \<noteq> None then Some None else r k)"

lemma moved_Un: "moved A (moved B r) = moved (A \<union> B) r"
  by (auto simp: moved_def fun_eq_iff)

lemma moved_empty [simp]: "moved {} r = r"
  by (simp add: moved_def)

lemma holds_chains_moved: "holds_chains A L r \<Longrightarrow> A \<inter> B = {} \<Longrightarrow> holds_chains A L (moved B r)"
  by (auto simp: holds_chains_def moved_def)

lemma holds_chains_subset: "holds_chains A L r \<Longrightarrow> B \<subseteq> A \<Longrightarrow> holds_chains B L r"
  by (auto simp: holds_chains_def)

lemma insert_replacement_chain:
  "r k = entry is \<Longrightarrow> insert_replacement k plan r = Some (wrap is plan, moved {k} r)"
  by (cases "is") (auto simp: insert_replacement_def moved_def fun_eq_iff simp del: wrap_simps(2))

lemma insert_weave_d:
  "distinct (plan_ids plan) \<Longrightarrow> holds_chains (set (plan_ids plan)) F f \<Longrightarrow> holds_chains (set (plan_ids plan)) B b \<Longrightarrow>
     InsertCreateBFOperator_d plan (f, b) =
       Some (weave (\<lambda>k. B k @ F k) plan, (moved (set (plan_ids plan)) f, moved (set (plan_ids plan)) b))"
  "distinct (concat (map plan_ids cs)) \<Longrightarrow> holds_chains (set (concat (map plan_ids cs))) F f \<Longrightarrow>
     holds_chains (set (concat (map plan_ids cs))) B b \<Longrightarrow>
     insert_children_d cs (f, b) = Some (map (weave (\<lambda>k. B k @ F k)) cs,
       (moved (set (concat (map plan_ids cs))) f, moved (set (concat (map plan_ids cs))) b))"
proof (induction plan "(f, b)" and cs "(f, b)" arbitrary: f b and f b rule: InsertCreateBFOperator_d_insert_children_d.induct)
  case (1 info cs)
  let ?A = "set (concat (map plan_ids cs))"
  have k: "op_id info \<notin> ?A" using "1.prems"(1) by simp
  have h: "holds_chains ?A F f" "holds_chains ?A B b"
    using "1.prems"(2,3) by (auto intro: holds_chains_subset)
  have "f (op_id info) = entry (F (op_id info))" "b (op_id info) = entry (B (op_id info))"
    using "1.prems"(2,3) by (simp_all add: holds_chains_def)
  then have kf: "moved ?A f (op_id info) = entry (F (op_id info))" "moved ?A b (op_id info) = entry (B (op_id info))"
    using k by (simp_all add: moved_def)
  have A: "moved {op_id info} (moved ?A r) = moved (set (plan_ids (Op info cs))) r" for r
    by (simp add: moved_Un)
  show ?case
    using "1.hyps" [OF _ h] "1.prems"(1)
    by (simp add: insert_replacement_chain [of "moved ?A f", OF kf(1)]
        insert_replacement_chain [of "moved ?A b", OF kf(2)] moved_Un del: set_concat set_map)
next
  case (3 c cs)
  let ?C = "set (plan_ids c)" and ?A = "set (concat (map plan_ids cs))"
  have d: "distinct (plan_ids c)" "distinct (concat (map plan_ids cs))" "?A \<inter> ?C = {}"
    using "3.prems"(1) by auto
  have h: "holds_chains ?C F f" "holds_chains ?C B b" "holds_chains ?A F (moved ?C f)" "holds_chains ?A B (moved ?C b)"
    using "3.prems"(2,3) d(3) by (auto intro!: holds_chains_moved elim!: holds_chains_subset)
  have "moved ?A (moved ?C r) = moved (set (concat (map plan_ids (c # cs)))) r" for r
    by (simp add: moved_Un Un_commute)
  moreover note "3.hyps"(1) [OF d(1) h(1,2)]
  ultimately show ?case using "3.hyps"(2) [OF _ _ d(2) h(3,4)] by simp
qed simp

lemma insert_weave:
  "distinct (plan_ids plan) \<Longrightarrow> holds_chains (set (plan_ids plan)) F f \<Longrightarrow>
     InsertCreateBFOperator plan f = Some (weave F plan, moved (set (plan_ids plan)) f)"
  "distinct (concat (map plan_ids cs)) \<Longrightarrow> holds_chains (set (concat (map plan_ids cs))) F f \<Longrightarrow>
     insert_children cs f = Some (map (weave F) cs, moved (set (concat (map plan_ids cs))) f)"
proof (induction plan f and cs f rule: InsertCreateBFOperator_insert_children.induct)
  case (1 info cs f)
  let ?A = "set (concat (map plan_ids cs))"
  have "op_id info \<notin> ?A" using "1.prems"(1) by simp
  moreover have "f (op_id info) = entry (F (op_id info))" using "1.prems"(2) by (simp add: holds_chains_def)
  ultimately have kf: "moved ?A f (op_id info) = entry (F (op_id info))" by (simp add: moved_def)
  have "holds_chains ?A F f" using "1.prems"(2) by (auto intro: holds_chains_subset)
  then show ?case using "1.IH" "1.prems"(1) by (simp add: insert_replacement_chain [of "moved ?A f", OF kf] moved_Un
        del: set_concat set_map)
next
  case (3 c cs f)
  let ?C = "set (plan_ids c)" and ?A = "set (concat (map plan_ids cs))"
  have d: "distinct (plan_ids c)" "distinct (concat (map plan_ids cs))" "?A \<inter> ?C = {}"
    using "3.prems"(1) by auto
  have h: "holds_chains ?C F f" "holds_chains ?A F (moved ?C f)"
    using "3.prems"(2) d(3) by (auto intro!: holds_chains_moved elim!: holds_chains_subset)
  have "moved ?A (moved ?C r) = moved (set (concat (map plan_ids (c # cs)))) r" for r
    by (simp add: moved_Un Un_commute)
  moreover note "3.IH"(1) [OF d(1) h(1)]
  ultimately show ?case using "3.IH"(2) [OF _ _ d(2) h(2)] by simp
qed simp

section \<open>The plan is kept\<close>

definition is_bf_op :: "op_info \<Rightarrow> bool" where
  "is_bf_op info \<longleftrightarrow> op_type info = LOGICAL_CREATE_BF \<or> op_type info = LOGICAL_USE_BF"

text \<open>A plan without the operators that create and use Bloom filters.\<close>

fun strip :: "LogicalOperator \<Rightarrow> LogicalOperator" where
  "strip (Op info cs) =
     (let cs' = map strip cs in if is_bf_op info \<and> length cs' = 1 then cs' ! 0 else Op info cs')"

lemma strip_wrap: "list_all is_bf_op is \<Longrightarrow> strip (wrap is plan) = strip plan"
  by (induction "is") simp_all

lemma strip_weave:
  assumes "\<And>k. list_all is_bf_op (L k)" and "list_all (\<lambda>op. \<not> is_bf_op (op_of op)) (operators plan)"
  shows "strip (weave L plan) = plan"
  using assms(2)
proof (induction plan rule: children_induct)
  case (Op info cs)
  have "strip (weave L c) = c" if "c \<in> set cs" for c
    using Op.IH [OF that] Op.prems that by (auto simp: list_all_iff)
  then have "map (strip \<circ> weave L) cs = cs" by (simp add: map_idI)
  then show ?case using Op.prems by (simp add: strip_wrap assms(1))
qed

definition plan_infos :: "LogicalOperator \<Rightarrow> op_info list" where
  "plan_infos plan = map op_of (operators plan)"

lemma plan_infos_simps [simp]: "plan_infos (Op info cs) = info # concat (map plan_infos cs)"
  by (induction cs) (simp_all add: plan_infos_def)

lemma plan_infos_wrap [simp]: "plan_infos (wrap is plan) = is @ plan_infos plan"
  by (induction "is") simp_all

lemma mset_concat_map: "mset (concat (map f xs)) = (\<Sum>x\<leftarrow>xs. mset (f x))"
  by (induction xs) simp_all

lemma plan_infos_weave:
  "mset (plan_infos (weave L plan)) = mset (plan_infos plan) + mset (concat (map L (plan_ids plan)))"
proof (induction plan rule: children_induct)
  case (Op info cs)
  have "mset (concat (map plan_infos (map (weave L) cs))) =
      mset (concat (map plan_infos cs)) + mset (concat (map L (concat (map plan_ids cs))))"
    using Op.IH by (induction cs) (simp_all add: ac_simps)
  then show ?case by (simp add: ac_simps)
qed

end
