(* ===== verification/PT_Operators.thy ===== *)
theory PT_Operators
  imports PT_Weave
begin

text \<open>
  What the optimizer does at one vertex: the filters of its edges, the operators that
  create and use them, and how a filter is sent along an edge.
\<close>

section \<open>Filters of an edge\<close>

text \<open>A condition between columns of the two vertices of an edge.\<close>

definition cond_ok :: "(ColumnBinding \<rightharpoonup> ColumnBinding) \<Rightarrow> nat \<Rightarrow> nat \<Rightarrow> Expression \<Rightarrow> bool" where
  "cond_ok rn a b f \<longleftrightarrow> (\<exists>t c0 c1 r0 r1. f = BoundComparison t (BoundColumnRef c0) (BoundColumnRef c1) \<and>
     follow_rename rn c0 = Some r0 \<and> follow_rename rn c1 = Some r1 \<and>
     (table_index r0 = a \<and> table_index r1 = b \<or> table_index r0 = b \<and> table_index r1 = a))"

text \<open>The column of the other vertex and the column of \<open>a\<close>.\<close>

definition sides :: "(ColumnBinding \<rightharpoonup> ColumnBinding) \<Rightarrow> nat \<Rightarrow> Expression \<Rightarrow> ColumnBinding \<times> ColumnBinding" where
  "sides rn a f =
     (let cols = GetColumnBindingExpression f; r0 = the (follow_rename rn (cols ! 0)); r1 = the (follow_rename rn (cols ! 1))
      in if table_index r0 = a then (r1, r0) else (r0, r1))"

definition edge_filter :: "(ColumnBinding \<rightharpoonup> ColumnBinding) \<Rightarrow> nat \<Rightarrow> Expression list \<Rightarrow> BlockedBloomFilter" where
  "edge_filter rn a fs = BlockedBloomFilter_new\<lparr>column_bindings_applied := map (fst \<circ> sides rn a) fs,
     column_bindings_built := map (snd \<circ> sides rn a) fs\<rparr>"

lemma sides_tables:
  assumes "cond_ok rn a b f" and "a \<noteq> b"
  shows "table_index (fst (sides rn a f)) = b" "table_index (snd (sides rn a f)) = a"
  using assms by (auto simp: cond_ok_def sides_def)

lemma add_condition_ok:
  assumes "cond_ok rn a b f" and "a \<noteq> b" and "rename_cols m = rn"
  shows "add_condition m a f F = Inr (AddColumnBindingBuilt (snd (sides rn a f)) (AddColumnBindingApplied (fst (sides rn a f)) F))"
  using assms by (auto simp: cond_ok_def sides_def add_condition_def FindRename_eq_follow)

lemma add_conditions_ok:
  assumes "\<forall>f \<in> set fs. cond_ok rn a b f" and "a \<noteq> b" and "rename_cols m = rn"
  shows "for_res (add_condition m a) fs F = Inr (F\<lparr>
    column_bindings_applied := column_bindings_applied F @ map (fst \<circ> sides rn a) fs,
    column_bindings_built := column_bindings_built F @ map (snd \<circ> sides rn a) fs\<rparr>)"
  using assms(1)
  by (induction fs arbitrary: F)
    (simp_all add: add_condition_ok [OF _ assms(2,3)] AddColumnBindingBuilt_def AddColumnBindingApplied_def)

lemma create_filter_ok:
  assumes "\<forall>f \<in> set (filters e). cond_ok rn a b f" and "filters e \<noteq> []" and "a \<noteq> b" and "rename_cols m = rn"
  shows "create_filter m a reverse e = Inr (edge_filter rn a (filters e))"
  using assms(2)
  by (simp add: create_filter_def add_conditions_ok [OF assms(1,3,4)] edge_filter_def BlockedBloomFilter_new_def)

section \<open>Filters used and created at a vertex\<close>

definition mark_used :: "nat list \<Rightarrow> BlockedBloomFilter list \<Rightarrow> BlockedBloomFilter list" where
  "mark_used hs heap = fold (\<lambda>h heap. heap[h := setUsed (heap ! h)]) hs heap"

lemma length_mark_used [simp]: "length (mark_used hs heap) = length heap"
  unfolding mark_used_def by (induction hs arbitrary: heap) simp_all

lemma setUsed_twice [simp]: "setUsed (setUsed f) = setUsed f"
  by (simp add: setUsed_def)

lemma nth_mark_used:
  "i < length heap \<Longrightarrow> mark_used hs heap ! i = (if i \<in> set hs then setUsed (heap ! i) else heap ! i)"
  unfolding mark_used_def
proof (induction hs arbitrary: heap)
  case (Cons h hs)
  then show ?case by (cases "h = i") simp_all
qed simp

lemma take_mark_used: "\<forall>h \<in> set hs. n \<le> h \<Longrightarrow> take n (mark_used hs heap) = take n heap"
  unfolding mark_used_def by (induction hs arbitrary: heap) simp_all

lemma use_filters_ok:
  assumes "\<forall>e \<in> set es. \<exists>h. bloom_filters e = [h] \<and> h < length heap \<and> \<not> Used (heap ! h)"
    and "distinct (map (hd \<circ> bloom_filters) es)"
  shows "for_res (\<lambda>edge. for_res (use_filter (edge_dest edge)) (bloom_filters edge)) es (us, heap) =
    Inr (us @ map (\<lambda>e. (hd (bloom_filters e), edge_dest e)) es, mark_used (map (hd \<circ> bloom_filters) es) heap)"
  using assms
proof (induction es arbitrary: us heap)
  case (Cons e es)
  obtain h where h: "bloom_filters e = [h]" "h < length heap" "\<not> Used (heap ! h)" using Cons.prems(1) by auto
  have "\<forall>e \<in> set es. \<exists>h'. bloom_filters e = [h'] \<and> h' < length (heap[h := setUsed (heap ! h)]) \<and>
      \<not> Used (heap[h := setUsed (heap ! h)] ! h')"
  proof
    fix e' assume e': "e' \<in> set es"
    then obtain h' where h': "bloom_filters e' = [h']" "h' < length heap" "\<not> Used (heap ! h')" using Cons.prems(1) by auto
    have "h \<noteq> h'" using Cons.prems(2) e' h(1) h'(1) by (force simp: image_iff)
    then show "\<exists>h'. bloom_filters e' = [h'] \<and> h' < length (heap[h := setUsed (heap ! h)]) \<and>
      \<not> Used (heap[h := setUsed (heap ! h)] ! h')" using h' by simp
  qed
  from Cons.IH [OF this, of "us @ [(h, edge_dest e)]"] show ?case
    using Cons.prems(2) h by (simp add: use_filter_def mark_used_def)
qed (simp add: mark_used_def)

lemma create_filters_ok:
  assumes "\<forall>e \<in> set es. create_filter (nodes_manager (dag_manager S)) a reverse e = Inr (F e)"
  shows "for_res (\<lambda>edge (to_create, S).
              case create_filter (nodes_manager (dag_manager S)) a reverse edge of
                Inl e \<Rightarrow> Inl e
              | Inr f \<Rightarrow> Inr (to_create @ [length (bloom_heap S)], S\<lparr>bloom_heap := bloom_heap S @ [f]\<rparr>)) es (cs, S) =
    Inr (cs @ [length (bloom_heap S)..<length (bloom_heap S) + length es], S\<lparr>bloom_heap := bloom_heap S @ map F es\<rparr>)"
  using assms
proof (induction es arbitrary: cs S)
  case (Cons e es)
  let ?S = "S\<lparr>bloom_heap := bloom_heap S @ [F e]\<rparr>"
  have "\<forall>e \<in> set es. create_filter (nodes_manager (dag_manager ?S)) a reverse e = Inr (F e)" using Cons.prems by simp
  from Cons.IH [OF this, of "cs @ [length (bloom_heap S)]"] show ?case
    using Cons.prems by (simp add: upt_rec)
qed simp

section \<open>Operators built at a vertex\<close>

text \<open>Only addresses have been handed out, and cardinalities noted for them.\<close>

definition bumped :: "nat \<Rightarrow> PredicateTransferOptimizer \<Rightarrow> PredicateTransferOptimizer \<Rightarrow> bool" where
  "bumped k S S' \<longleftrightarrow> (\<exists>c. S' = S\<lparr>next_op_id := next_op_id S + k, dag_manager := (dag_manager S)\<lparr>nodes_manager :=
     (nodes_manager (dag_manager S))\<lparr>card_of := c\<rparr>\<rparr>\<rparr>)"

lemma bumped_refl [simp]: "bumped 0 S S"
  unfolding bumped_def by (rule exI [of _ "card_of (nodes_manager (dag_manager S))"]) simp

lemma bumped_trans: "bumped j S S' \<Longrightarrow> bumped k S' S'' \<Longrightarrow> bumped (j + k) S S''"
  unfolding bumped_def by (auto simp: ac_simps)

lemma bumpedD:
  assumes "bumped k S S'"
  shows "next_op_id S' = next_op_id S + k" "bloom_heap S' = bloom_heap S" "replace_map reverse S' = replace_map reverse S"
    "nodes (nodes_manager (dag_manager S')) = nodes (nodes_manager (dag_manager S))"
    "rename_cols (nodes_manager (dag_manager S')) = rename_cols (nodes_manager (dag_manager S))"
    "dag_nodes (dag_manager S') = dag_nodes (dag_manager S)" "ExecOrder (dag_manager S') = ExecOrder (dag_manager S)"
  using assms by (auto simp: bumped_def replace_map_def)

lemma make_operator_ok: "\<exists>S'. make_operator mk node S = (mk (next_op_id S), S') \<and> bumped 1 S S'"
  by (auto simp: make_operator_def bumped_def Let_def)

definition use_info :: "nat \<Rightarrow> nat \<Rightarrow> nat \<Rightarrow> op_info" where
  "use_info i h c = blank_info\<lparr>op_id := i, op_type := LOGICAL_USE_BF, bf_to_use := [h], related_create_bf := [c]\<rparr>"

definition create_info :: "nat \<Rightarrow> nat list \<Rightarrow> op_info" where
  "create_info i hs = blank_info\<lparr>op_id := i, op_type := LOGICAL_CREATE_BF, bf_to_create := hs\<rparr>"

lemma info_simps [simp]:
  "op_type (use_info i h c) = LOGICAL_USE_BF" "bf_to_use (use_info i h c) = [h]"
  "related_create_bf (use_info i h c) = [c]" "op_id (use_info i h c) = i" "bf_to_create (use_info i h c) = []"
  "op_type (create_info i hs) = LOGICAL_CREATE_BF" "bf_to_create (create_info i hs) = hs" "op_id (create_info i hs) = i"
  by (simp_all add: use_info_def create_info_def blank_info_def)

text \<open>The operators that use filters: one for each, the last one built first; \<open>cid\<close> names the operator that creates.\<close>

fun use_infos :: "(nat \<Rightarrow> nat) \<Rightarrow> nat \<Rightarrow> (nat \<times> nat) list \<Rightarrow> op_info list" where
  "use_infos cid n [] = []"
| "use_infos cid n ((h, a) # us) = use_info (n + length us) h (cid a) # use_infos cid n us"

fun chain_opt :: "op_info list \<Rightarrow> LogicalOperator option" where
  "chain_opt [] = None"
| "chain_opt (i # is) = Some (chain i is)"

definition creates_at :: "bool \<Rightarrow> (nat \<Rightarrow> nat) \<Rightarrow> PredicateTransferOptimizer \<Rightarrow> nat \<Rightarrow> bool" where
  "creates_at reverse cid S a \<longleftrightarrow> (\<exists>node related. getNode a (nodes_manager (dag_manager S)) = Some node \<and>
     replace_map reverse S (op_id (op_of node)) = Some (Some related) \<and>
     op_type (op_of related) = LOGICAL_CREATE_BF \<and> cid a = op_id (op_of related))"

lemma creates_at_bumped: "bumped k S S' \<Longrightarrow> creates_at reverse cid S' a \<longleftrightarrow> creates_at reverse cid S a"
  by (simp add: creates_at_def getNode_def bumpedD)

lemma creates_at_heap [simp]: "creates_at reverse cid (S\<lparr>bloom_heap := heap\<rparr>) a = creates_at reverse cid S a"
  by (simp add: creates_at_def replace_map_def)

lemma build_use_ok:
  assumes "creates_at reverse cid S a"
  shows "\<exists>S'. build_use node reverse (h, a) (chain_opt is, S) =
    Inr (chain_opt (use_info (next_op_id S) h (cid a) # is), S') \<and> bumped 1 S S'"
proof -
  obtain S' where S': "make_operator (\<lambda>i. LogicalUseBF i [h]) node S = (LogicalUseBF (next_op_id S) [h], S')" "bumped 1 S S'"
    using make_operator_ok [of "\<lambda>i. LogicalUseBF i [h]" node S] by blast
  have "creates_at reverse cid S' a" using assms S'(2) creates_at_bumped by blast
  then show ?thesis
    using S' by (cases "is") (auto simp: build_use_def creates_at_def AddDownStreamOperator_def LogicalUseBF_def use_info_def
        blank_info_def)
qed

lemma BuildUseOperator_ok:
  assumes "\<forall>u \<in> set us. creates_at reverse cid S (snd u)"
  shows "\<exists>S'. BuildUseOperator node us reverse S = Inr (chain_opt (use_infos cid (next_op_id S) us), S') \<and>
    bumped (length us) S S'"
  using assms
proof (induction us)
  case (Cons u us)
  obtain h a where u: "u = (h, a)" by (cases u)
  from Cons obtain S1 where S1: "BuildUseOperator node us reverse S = Inr (chain_opt (use_infos cid (next_op_id S) us), S1)"
    "bumped (length us) S S1" by auto
  have "creates_at reverse cid S1 a" using Cons.prems u creates_at_bumped [OF S1(2)] by simp
  from build_use_ok [OF this] obtain S2 where
    "build_use node reverse (h, a) (chain_opt (use_infos cid (next_op_id S) us), S1) =
      Inr (chain_opt (use_info (next_op_id S1) h (cid a) # use_infos cid (next_op_id S) us), S2)" "bumped 1 S1 S2" by blast
  then show ?case
    using S1 u bumped_trans [OF S1(2), of 1] bumpedD(1) [OF S1(2)] by (auto simp: BuildUseOperator_def)
qed (simp add: BuildUseOperator_def)

text \<open>The operators on top of a vertex that uses \<open>us\<close> and creates \<open>hs\<close>.\<close>

definition vertex_infos :: "(nat \<Rightarrow> nat) \<Rightarrow> nat \<Rightarrow> (nat \<times> nat) list \<Rightarrow> nat list \<Rightarrow> op_info list" where
  "vertex_infos cid n us hs = (if hs = [] then [] else [create_info (n + length us) hs]) @ use_infos cid n us"

definition set_chain :: "bool \<Rightarrow> nat \<Rightarrow> op_info list \<Rightarrow> PredicateTransferOptimizer \<Rightarrow> PredicateTransferOptimizer" where
  "set_chain reverse k is S = (case is of [] \<Rightarrow> S | i # is' \<Rightarrow> set_replacement reverse k (chain i is') S)"

lemma length_use_infos [simp]: "length (use_infos cid n us) = length us"
  by (induction us) auto

lemma use_infos_eq_Nil [simp]: "use_infos cid n us = [] \<longleftrightarrow> us = []"
  by (cases us) auto

lemma chain_opt_eq: "is \<noteq> [] \<Longrightarrow> chain_opt is = Some (chain (hd is) (tl is))"
  by (cases "is") simp_all

lemma set_chain_eq: "is \<noteq> [] \<Longrightarrow> set_chain reverse k is S = set_replacement reverse k (chain (hd is) (tl is)) S"
  by (cases "is") (simp_all add: set_chain_def)

lemma BuildSingleCreateOperator_ok:
  "\<exists>S'. BuildSingleCreateOperator node hs S = (Op (create_info (next_op_id S) hs) [], S') \<and> bumped 1 S S'"
  using make_operator_ok [of "\<lambda>i. LogicalCreateBF i hs" node S]
  by (auto simp: BuildSingleCreateOperator_def LogicalCreateBF_def create_info_def)

lemma BuildCreateUsePair_ok:
  assumes "\<forall>u \<in> set us. creates_at reverse cid S (snd u)" and "us \<noteq> []"
  shows "\<exists>S'. BuildCreateUsePair node us hs reverse S =
    Inr (chain (create_info (next_op_id S + length us) hs) (use_infos cid (next_op_id S) us), S') \<and>
    bumped (length us + 1) S S'"
proof -
  obtain S1 where S1: "BuildUseOperator node us reverse S = Inr (chain_opt (use_infos cid (next_op_id S) us), S1)"
    "bumped (length us) S S1" using BuildUseOperator_ok [OF assms(1)] by blast
  obtain S2 where S2: "make_operator (\<lambda>i. LogicalCreateBF i hs) node S1 = (LogicalCreateBF (next_op_id S1) hs, S2)" "bumped 1 S1 S2"
    using make_operator_ok [of "\<lambda>i. LogicalCreateBF i hs" node S1] by blast
  have ne: "use_infos cid (next_op_id S) us \<noteq> []" using assms(2) by simp
  then have "Op i [chain (hd (use_infos cid (next_op_id S) us)) (tl (use_infos cid (next_op_id S) us))] =
      chain i (use_infos cid (next_op_id S) us)" for i
    by (cases "use_infos cid (next_op_id S) us") simp_all
  then show ?thesis
    using S1 S2 bumped_trans [OF S1(2) S2(2)]
    by (simp add: BuildCreateUsePair_def chain_opt_eq [OF ne] LogicalCreateBF_def create_info_def bumpedD(1) [OF S1(2)])
qed

lemma CreateBloomFilter_ok:
  fixes S fw b nd F cid
  defines "us \<equiv> map (\<lambda>e. (hd (bloom_filters e), edge_dest e)) (incoming fw nd)"
    and "hs \<equiv> [length (bloom_heap S)..<length (bloom_heap S) + length (outgoing fw nd)]"
  defines "is \<equiv> vertex_infos cid (next_op_id S) us hs"
  assumes node: "GetNodeId node = Some b" "dag_nodes (dag_manager S) b = Some nd"
    and ins: "\<forall>e \<in> set (incoming fw nd). \<exists>h. bloom_filters e = [h] \<and> h < length (bloom_heap S) \<and> \<not> Used (bloom_heap S ! h)"
      "distinct (map (hd \<circ> bloom_filters) (incoming fw nd))"
      "\<forall>e \<in> set (incoming fw nd). creates_at (\<not> fw) cid S (edge_dest e)"
    and outs: "\<forall>e \<in> set (outgoing fw nd). create_filter (nodes_manager (dag_manager S)) b (\<not> fw) e = Inr (F e)"
  shows "\<exists>S'. CreateBloomFilter node (\<not> fw) S = Inr (map (Pair b) hs, set_chain (\<not> fw) (op_id (op_of node)) is S') \<and>
    bumped (length is) (S\<lparr>bloom_heap := mark_used (map fst us) (bloom_heap S) @ map F (outgoing fw nd)\<rparr>) S'"
proof -
  let ?r = "\<not> fw"
  define S1 where "S1 = S\<lparr>bloom_heap := mark_used (map fst us) (bloom_heap S)\<rparr>"
  define S2 where "S2 = S1\<lparr>bloom_heap := bloom_heap S1 @ map F (outgoing fw nd)\<rparr>"
  have used: "GetAllBFUsed b ?r S = Inr (us, S1)"
    using use_filters_ok [OF ins(1,2), of "[]"] node(2) by (simp add: GetAllBFUsed_def S1_def us_def comp_def)
  have "\<forall>e \<in> set (outgoing fw nd). create_filter (nodes_manager (dag_manager S1)) b ?r e = Inr (F e)"
    using outs by (simp add: S1_def)
  from create_filters_ok [OF this, of "[]"] have create: "GetAllBFCreate b ?r S1 = Inr (hs, S2)"
    using node(2) by (simp add: GetAllBFCreate_def S1_def S2_def hs_def)
  have cr: "\<forall>u \<in> set us. creates_at ?r cid S2 (snd u)"
    using ins(3) by (simp add: us_def S1_def S2_def)
  have n: "next_op_id S2 = next_op_id S" by (simp add: S1_def S2_def)
  have S2: "S2 = S\<lparr>bloom_heap := mark_used (map fst us) (bloom_heap S) @ map F (outgoing fw nd)\<rparr>"
    by (simp add: S1_def S2_def)
  note start = CreateBloomFilter_def node used create PossibleFilterAny_def
  show ?thesis
  proof (cases "us = []")
    case True
    obtain S3 where "BuildSingleCreateOperator node hs S2 = (Op (create_info (next_op_id S) hs) [], S3)" "bumped 1 S2 S3"
      using BuildSingleCreateOperator_ok n by metis
    then show ?thesis
      using True S2 by (cases "hs = []") (auto simp: start is_def vertex_infos_def set_chain_def)
  next
    case us: False
    show ?thesis
    proof (cases "hs = []")
      case True
      then have "is = use_infos cid (next_op_id S) us" "is \<noteq> []" using us by (simp_all add: is_def vertex_infos_def)
      then show ?thesis
        using BuildUseOperator_ok [OF cr, of node] us True S2 n by (auto simp: start chain_opt_eq set_chain_eq)
    next
      case False
      then have "is = create_info (next_op_id S + length us) hs # use_infos cid (next_op_id S) us"
        by (simp add: is_def vertex_infos_def)
      then show ?thesis
        using BuildCreateUsePair_ok [OF cr us, of node hs] us False S2 n by (auto simp: start set_chain_def)
    qed
  qed
qed

section \<open>Sending the filters\<close>

definition send :: "bool \<Rightarrow> nat \<Rightarrow> nat list \<Rightarrow> nat list \<Rightarrow> (nat \<rightharpoonup> DAGNode) \<Rightarrow> (nat \<rightharpoonup> DAGNode)" where
  "send fw b hs cs G = fold (\<lambda>(h, c) G. G(c := map_option (AddIn_bf b h fw) (G c))) (zip hs cs) G"

lemma add_filters_ok:
  assumes "list_all2 (\<lambda>h c. h < length (bloom_heap S) \<and> c \<in> dom (dag_nodes (dag_manager S)) \<and>
    (\<exists>x xs. column_bindings_applied (bloom_heap S ! h) = x # xs \<and> table_index x = c)) hs cs"
  shows "for_res (add_filter (\<not> fw)) (map (Pair b) hs) S =
    Inr (S\<lparr>dag_manager := (dag_manager S)\<lparr>dag_nodes := send fw b hs cs (dag_nodes (dag_manager S))\<rparr>\<rparr>)"
  using assms
proof (induction hs arbitrary: cs S)
  case (Cons h hs)
  then obtain c cs' where cs: "cs = c # cs'" by (auto simp: list_all2_Cons1)
  obtain x xs nd where x: "h < length (bloom_heap S)" "dag_nodes (dag_manager S) c = Some nd"
    "column_bindings_applied (bloom_heap S ! h) = x # xs" "table_index x = c"
    using Cons.prems by (auto simp: cs)
  define G where "G = (dag_nodes (dag_manager S))(c \<mapsto> AddIn_bf b h fw nd)"
  let ?S = "S\<lparr>dag_manager := (dag_manager S)\<lparr>dag_nodes := G\<rparr>\<rparr>"
  have "list_all2 (\<lambda>h c. h < length (bloom_heap ?S) \<and> c \<in> dom (dag_nodes (dag_manager ?S)) \<and>
      (\<exists>x xs. column_bindings_applied (bloom_heap ?S ! h) = x # xs \<and> table_index x = c)) hs cs'"
    using Cons.prems by (auto simp: cs G_def elim!: list_all2_mono)
  note IH = Cons.IH [OF this]
  have "add_filter (\<not> fw) (b, h) S = Inr ?S" using x by (simp add: add_filter_def Add_def G_def)
  moreover have "send fw b (h # hs) (c # cs') (dag_nodes (dag_manager S)) = send fw b hs cs' (dag_nodes (dag_manager ?S))"
    using x(2) by (simp add: send_def G_def)
  ultimately show ?case using IH by (simp add: cs)
qed (simp add: send_def)

lemma send_eq:
  "distinct cs \<Longrightarrow> length hs = length cs \<Longrightarrow>
    send fw b hs cs G = (\<lambda>c. case map_of (zip cs hs) c of None \<Rightarrow> G c | Some h \<Rightarrow> map_option (AddIn_bf b h fw) (G c))"
proof (induction cs arbitrary: hs G)
  case (Cons c cs)
  then obtain h hs' where hs: "hs = h # hs'" by (cases hs) auto
  have c: "map_of (zip cs hs') c = None" using Cons.prems by (auto simp: hs map_of_eq_None_iff dest: set_zip_leftD)
  have "send fw b hs (c # cs) G = send fw b hs' cs (G(c := map_option (AddIn_bf b h fw) (G c)))" by (simp add: hs send_def)
  also have "\<dots> = (\<lambda>d. case map_of (zip cs hs') d of None \<Rightarrow> (G(c := map_option (AddIn_bf b h fw) (G c))) d
      | Some h' \<Rightarrow> map_option (AddIn_bf b h' fw) ((G(c := map_option (AddIn_bf b h fw) (G c))) d))"
    by (rule Cons.IH) (use Cons.prems hs in simp_all)
  also have "\<dots> = (\<lambda>d. case map_of (zip (c # cs) hs) d of None \<Rightarrow> G d | Some h \<Rightarrow> map_option (AddIn_bf b h fw) (G d))"
    using c by (auto simp: hs fun_eq_iff split: option.splits)
  finally show ?case .
qed (simp add: send_def)

text \<open>
  The graph in the middle of a pass: the edges that leave the vertices \<open>P\<close> carry one
  filter each, \<open>hnd a b\<close> on the edge from \<open>a\<close> to \<open>b\<close>.
\<close>

definition fill_edge :: "nat set \<Rightarrow> (nat \<Rightarrow> nat \<Rightarrow> nat) \<Rightarrow> nat \<Rightarrow> DAGEdge \<Rightarrow> DAGEdge" where
  "fill_edge P hnd b e = (if edge_dest e \<in> P then e\<lparr>bloom_filters := [hnd (edge_dest e) b]\<rparr> else e)"

definition fill :: "bool \<Rightarrow> nat set \<Rightarrow> (nat \<Rightarrow> nat \<Rightarrow> nat) \<Rightarrow> nat \<Rightarrow> DAGNode \<Rightarrow> DAGNode" where
  "fill fw P hnd b nd = (if fw then nd\<lparr>forward_in := map (fill_edge P hnd b) (forward_in nd)\<rparr>
     else nd\<lparr>backward_in := map (fill_edge P hnd b) (backward_in nd)\<rparr>)"

lemma fill_simps [simp]:
  "incoming fw (fill fw P hnd b nd) = map (fill_edge P hnd b) (incoming fw nd)"
  "outgoing fw' (fill fw P hnd b nd) = outgoing fw' nd"
  "fw' \<noteq> fw \<Longrightarrow> incoming fw' (fill fw P hnd b nd) = incoming fw' nd"
  "edge_dest (fill_edge P hnd b e) = edge_dest e" "filters (fill_edge P hnd b e) = filters e"
  by (auto simp: fill_def fill_edge_def incoming_def outgoing_def)

lemma fill_edge_insert:
  assumes "edge_dest e \<noteq> b" and "hnd' (edge_dest e) = hnd (edge_dest e)"
  shows "fill_edge (insert b P) hnd' c e = fill_edge P hnd c e"
  using assms by (simp add: fill_edge_def)

lemma fill_edges_other:
  assumes "b \<notin> edge_dest ` set es" and "\<And>a. a \<noteq> b \<Longrightarrow> hnd' a = hnd a"
  shows "map (fill_edge (insert b P) hnd' c) es = map (fill_edge P hnd c) es"
proof (rule map_cong [OF refl])
  fix e assume "e \<in> set es"
  then have "edge_dest e \<noteq> b" using assms(1) by auto
  then show "fill_edge (insert b P) hnd' c e = fill_edge P hnd c e" by (intro fill_edge_insert assms(2))
qed

lemma push_fill_edges:
  assumes "distinct (map edge_dest es)" and "b \<in> edge_dest ` set es" and "b \<notin> P"
    and "list_all (\<lambda>e. bloom_filters e = []) es" and "\<And>a. a \<noteq> b \<Longrightarrow> hnd' a = hnd a"
  shows "push_edge (Push_bf (hnd' b c)) b (map (fill_edge P hnd c) es) = map (fill_edge (insert b P) hnd' c) es"
  using assms(1,2,4)
proof (induction es)
  case (Cons e es)
  show ?case
  proof (cases "edge_dest e = b")
    case True
    then have "b \<notin> edge_dest ` set es" using Cons.prems(1) by auto
    then have "map (fill_edge (insert b P) hnd' c) es = map (fill_edge P hnd c) es"
      by (rule fill_edges_other) (rule assms(5))
    then show ?thesis using True assms(3) Cons.prems(3) by (simp add: GetDest_def fill_edge_def Push_bf_def)
  next
    case False
    then show ?thesis using Cons assms(5) by (simp add: GetDest_def fill_edge_insert)
  qed
qed simp

lemma fill_send:
  assumes "distinct (map edge_dest (incoming fw nd))" and "b \<notin> P"
    and "list_all (\<lambda>e. bloom_filters e = []) (incoming fw nd)" and "\<And>a. a \<noteq> b \<Longrightarrow> hnd' a = hnd a"
  shows "b \<in> edge_dest ` set (incoming fw nd) \<Longrightarrow>
      AddIn_bf b (hnd' b c) fw (fill fw P hnd c nd) = fill fw (insert b P) hnd' c nd"
    and "b \<notin> edge_dest ` set (incoming fw nd) \<Longrightarrow> fill fw P hnd c nd = fill fw (insert b P) hnd' c nd"
proof -
  show "AddIn_bf b (hnd' b c) fw (fill fw P hnd c nd) = fill fw (insert b P) hnd' c nd"
    if "b \<in> edge_dest ` set (incoming fw nd)"
    using push_fill_edges [OF assms(1) that assms(2,3), of hnd' hnd c] assms(4)
    by (cases fw) (auto simp: AddIn_bf_def fill_def incoming_def)
  assume b: "b \<notin> edge_dest ` set (incoming fw nd)"
  then have "map (fill_edge (insert b P) hnd' c) (incoming fw nd) = map (fill_edge P hnd c) (incoming fw nd)"
    by (rule fill_edges_other) (rule assms(4))
  then show "fill fw P hnd c nd = fill fw (insert b P) hnd' c nd"
    by (cases fw) (auto simp: fill_def incoming_def)
qed


section \<open>Claims\<close>

text \<open>The conditions of an edge have two resolved columns, and one of them has a column of vertex \<open>cur\<close>.\<close>

definition condition_columns :: "NodesManager \<Rightarrow> Expression \<Rightarrow> (ColumnBinding \<times> ColumnBinding) option" where
  "condition_columns m f =
     (case GetColumnBindingExpression f of
        c0 # c1 # _ \<Rightarrow> (case (FindRename m c0, FindRename m c1) of (Some r0, Some r1) \<Rightarrow> Some (r0, r1) | _ \<Rightarrow> None)
      | _ \<Rightarrow> None)"

definition touches :: "NodesManager \<Rightarrow> nat \<Rightarrow> Expression \<Rightarrow> bool" where
  "touches m cur f \<longleftrightarrow> (\<exists>r0 r1. condition_columns m f = Some (r0, r1) \<and> (table_index r0 = cur \<or> table_index r1 = cur))"

lemma add_condition_columns:
  assumes "condition_columns m f \<noteq> None"
  shows "\<exists>F'. add_condition m cur f F = Inr F' \<and>
    (column_bindings_built F' \<noteq> [] \<longleftrightarrow> column_bindings_built F \<noteq> [] \<or> touches m cur f)"
  using assms
  by (auto simp: condition_columns_def touches_def add_condition_def AddColumnBindingBuilt_def AddColumnBindingApplied_def
      split: list.splits option.splits)

lemma add_conditions_columns:
  assumes "\<forall>f \<in> set fs. condition_columns m f \<noteq> None"
  shows "\<exists>F'. for_res (add_condition m cur) fs F = Inr F' \<and>
    (column_bindings_built F' \<noteq> [] \<longleftrightarrow> column_bindings_built F \<noteq> [] \<or> (\<exists>f \<in> set fs. touches m cur f))"
  using assms
proof (induction fs arbitrary: F)
  case (Cons f fs)
  obtain F1 where F1: "add_condition m cur f F = Inr F1"
    "column_bindings_built F1 \<noteq> [] \<longleftrightarrow> column_bindings_built F \<noteq> [] \<or> touches m cur f"
    using add_condition_columns [of m f cur F] Cons.prems by auto
  obtain F2 where "for_res (add_condition m cur) fs F1 = Inr F2"
    "column_bindings_built F2 \<noteq> [] \<longleftrightarrow> column_bindings_built F1 \<noteq> [] \<or> (\<exists>f \<in> set fs. touches m cur f)"
    using Cons by (metis list.set_intros(2))
  then show ?case using F1 by auto
qed simp



end
