(* ===== verification/PT_Passes.thy ===== *)
theory PT_Passes
  imports PT_Operators
begin

text \<open>
  One pass of the optimizer over a transfer graph: the state between two vertices, and
  that no step of the pass fails.
\<close>

section \<open>The graph of a pass\<close>

abbreviation in_edges :: "bool \<Rightarrow> (nat \<rightharpoonup> DAGNode) \<Rightarrow> nat \<Rightarrow> DAGEdge list" where
  "in_edges fw G b \<equiv> incoming fw (the (G b))"

abbreviation out_edges :: "bool \<Rightarrow> (nat \<rightharpoonup> DAGNode) \<Rightarrow> nat \<Rightarrow> DAGEdge list" where
  "out_edges fw G a \<equiv> outgoing fw (the (G a))"

text \<open>
  What a pass relies on: edges are known at both ends and lead forward in the order
  of the pass, carry no filters yet, and have conditions between their two vertices.
\<close>

definition pass_vertex :: "bool \<Rightarrow> (ColumnBinding \<rightharpoonup> ColumnBinding) \<Rightarrow> nat list \<Rightarrow> (nat \<rightharpoonup> DAGNode) \<Rightarrow> nat \<Rightarrow> bool" where
  "pass_vertex fw rn order G b \<longleftrightarrow>
     distinct (map edge_dest (in_edges fw G b)) \<and> distinct (map edge_dest (out_edges fw G b)) \<and>
     (\<forall>e \<in> set (in_edges fw G b). bloom_filters e = [] \<and> before order (edge_dest e) b \<and>
        b \<in> edge_dest ` set (out_edges fw G (edge_dest e))) \<and>
     (\<forall>e \<in> set (out_edges fw G b). b \<in> edge_dest ` set (in_edges fw G (edge_dest e)) \<and> edge_dest e \<in> set order \<and>
        filters e \<noteq> [] \<and> (\<forall>f \<in> set (filters e). cond_ok rn b (edge_dest e) f))"

definition pass_graph :: "bool \<Rightarrow> (ColumnBinding \<rightharpoonup> ColumnBinding) \<Rightarrow> nat list \<Rightarrow> (nat \<rightharpoonup> DAGNode) \<Rightarrow> bool" where
  "pass_graph fw rn order G \<longleftrightarrow> distinct order \<and> dom G = set order \<and> (\<forall>b \<in> set order. pass_vertex fw rn order G b)"

lemma pass_graph_in:
  assumes "pass_graph fw rn order G" and "b \<in> set order" and "e \<in> set (in_edges fw G b)"
  shows "bloom_filters e = []" "before order (edge_dest e) b" "edge_dest e \<in> set order"
    "b \<in> edge_dest ` set (out_edges fw G (edge_dest e))"
proof -
  show "bloom_filters e = []" and before: "before order (edge_dest e) b"
    and "b \<in> edge_dest ` set (out_edges fw G (edge_dest e))"
    using assms by (auto simp: pass_graph_def pass_vertex_def)
  show "edge_dest e \<in> set order" using before before_mem by blast
qed

lemma pass_graph_out:
  assumes "pass_graph fw rn order G" and "a \<in> set order" and "e \<in> set (out_edges fw G a)"
  shows "a \<in> edge_dest ` set (in_edges fw G (edge_dest e))" "edge_dest e \<in> set order" "filters e \<noteq> []"
    "\<forall>f \<in> set (filters e). cond_ok rn a (edge_dest e) f" "before order a (edge_dest e)"
proof -
  show a: "a \<in> edge_dest ` set (in_edges fw G (edge_dest e))" and e: "edge_dest e \<in> set order"
    and "filters e \<noteq> []" "\<forall>f \<in> set (filters e). cond_ok rn a (edge_dest e) f"
    using assms by (auto simp: pass_graph_def pass_vertex_def)
  show "before order a (edge_dest e)" using a pass_graph_in(2) [OF assms(1) e] by auto
qed

lemma pass_graph_distinct:
  assumes "pass_graph fw rn order G" and "b \<in> set order"
  shows "distinct (map edge_dest (in_edges fw G b))" "distinct (map edge_dest (out_edges fw G b))"
  using assms by (auto simp: pass_graph_def pass_vertex_def)

lemma before_split:
  assumes "distinct (ps @ b # qs)" and "before (ps @ b # qs) a b"
  shows "a \<in> set ps"
proof -
  obtain i j where ij: "i < j" "j < length (ps @ b # qs)" "(ps @ b # qs) ! i = a" "(ps @ b # qs) ! j = b"
    using assms(2) by (auto simp: before_def)
  have "j = length ps" using nth_eq_iff_index_eq [OF assms(1) ij(2), of "length ps"] ij(4) by simp
  then show ?thesis using ij(1,3) by (auto simp: nth_append)
qed

lemma before_irrefl: "distinct ks \<Longrightarrow> \<not> before ks a a"
  using before_asym by blast

section \<open>The state in the middle of a pass\<close>

definition graph_state :: "bool \<Rightarrow> (nat \<rightharpoonup> DAGNode) \<Rightarrow> nat list \<Rightarrow> (nat \<Rightarrow> nat \<Rightarrow> nat) \<Rightarrow> (nat \<rightharpoonup> DAGNode) \<Rightarrow> bool" where
  "graph_state fw G ps hnd G' \<longleftrightarrow> (\<forall>b \<in> dom G. G' b = map_option (fill fw (set ps) hnd b) (G b))"

lemma graph_stateD:
  assumes "graph_state fw G ps hnd G'" and "G b = Some nd"
  shows "G' b = Some (fill fw (set ps) hnd b nd)"
  using bspec [OF assms(1) [unfolded graph_state_def], of b] assms(2) by (simp add: domI)

text \<open>
  The filters of the edges that leave visited vertices are different objects, made in
  this pass, and used exactly if the end of the edge has been visited.
\<close>

definition heap_state :: "bool \<Rightarrow> (ColumnBinding \<rightharpoonup> ColumnBinding) \<Rightarrow> (nat \<rightharpoonup> DAGNode) \<Rightarrow> BlockedBloomFilter list \<Rightarrow>
    nat list \<Rightarrow> (nat \<Rightarrow> nat \<Rightarrow> nat) \<Rightarrow> BlockedBloomFilter list \<Rightarrow> bool" where
  "heap_state fw rn G heap0 ps hnd heap \<longleftrightarrow> length heap0 \<le> length heap \<and> take (length heap0) heap = heap0 \<and>
     (\<forall>a \<in> set ps. \<forall>e \<in> set (out_edges fw G a).
        length heap0 \<le> hnd a (edge_dest e) \<and> hnd a (edge_dest e) < length heap \<and>
        heap ! hnd a (edge_dest e) = (edge_filter rn a (filters e))\<lparr>Used := edge_dest e \<in> set ps\<rparr>) \<and>
     (\<forall>a \<in> set ps. \<forall>a' \<in> set ps. \<forall>e \<in> set (out_edges fw G a). \<forall>e' \<in> set (out_edges fw G a').
        hnd a (edge_dest e) = hnd a' (edge_dest e') \<longrightarrow> a = a' \<and> edge_dest e = edge_dest e')"

definition vertex_oid :: "(nat \<rightharpoonup> LogicalOperator) \<Rightarrow> nat \<Rightarrow> nat" where
  "vertex_oid N a = op_id (op_of (the (N a)))"

definition create_id :: "(nat \<rightharpoonup> LogicalOperator) \<Rightarrow> (nat \<Rightarrow> op_info list) \<Rightarrow> nat \<Rightarrow> nat" where
  "create_id N L a = op_id (hd (L (vertex_oid N a)))"

definition vertex_uses :: "bool \<Rightarrow> (nat \<rightharpoonup> DAGNode) \<Rightarrow> (nat \<Rightarrow> nat \<Rightarrow> nat) \<Rightarrow> nat \<Rightarrow> (nat \<times> nat) list" where
  "vertex_uses fw G hnd b = map (\<lambda>e. (hnd (edge_dest e) b, edge_dest e)) (in_edges fw G b)"

definition vertex_creates :: "bool \<Rightarrow> (nat \<rightharpoonup> DAGNode) \<Rightarrow> (nat \<Rightarrow> nat \<Rightarrow> nat) \<Rightarrow> nat \<Rightarrow> nat list" where
  "vertex_creates fw G hnd a = map (\<lambda>e. hnd a (edge_dest e)) (out_edges fw G a)"

text \<open>
  The operators for the visited vertices, with addresses given out since \<open>n0\<close> and
  every creating operator older than those that use its filters.
\<close>

definition ops_state :: "bool \<Rightarrow> (nat \<rightharpoonup> LogicalOperator) \<Rightarrow> (nat \<rightharpoonup> DAGNode) \<Rightarrow> nat \<Rightarrow> nat list \<Rightarrow> (nat \<Rightarrow> nat \<Rightarrow> nat) \<Rightarrow>
    (nat \<Rightarrow> op_info list) \<Rightarrow> nat \<Rightarrow> bool" where
  "ops_state fw N G n0 ps hnd L n1 \<longleftrightarrow> n0 \<le> n1 \<and> (\<forall>k. L k \<noteq> [] \<longrightarrow> k \<in> vertex_oid N ` set ps) \<and>
     (\<forall>a \<in> set ps. \<exists>n \<ge> n0. L (vertex_oid N a) =
        vertex_infos (create_id N L) n (vertex_uses fw G hnd a) (vertex_creates fw G hnd a) \<and>
        n + length (L (vertex_oid N a)) \<le> n1 \<and> (\<forall>e \<in> set (in_edges fw G a). create_id N L (edge_dest e) < n)) \<and>
     distinct (concat (map (\<lambda>a. map op_id (L (vertex_oid N a))) ps))"

definition pass_inv :: "bool \<Rightarrow> (ColumnBinding \<rightharpoonup> ColumnBinding) \<Rightarrow> (nat \<rightharpoonup> LogicalOperator) \<Rightarrow> (nat \<rightharpoonup> DAGNode) \<Rightarrow>
    PredicateTransferOptimizer \<Rightarrow> nat list \<Rightarrow> (nat \<Rightarrow> nat \<Rightarrow> nat) \<Rightarrow> (nat \<Rightarrow> op_info list) \<Rightarrow> PredicateTransferOptimizer \<Rightarrow> bool" where
  "pass_inv fw rn N G S0 ps hnd L S \<longleftrightarrow>
     nodes (nodes_manager (dag_manager S)) = N \<and> rename_cols (nodes_manager (dag_manager S)) = rn \<and>
     ExecOrder (dag_manager S) = ExecOrder (dag_manager S0) \<and>
     graph_state fw G ps hnd (dag_nodes (dag_manager S)) \<and>
     heap_state fw rn G (bloom_heap S0) ps hnd (bloom_heap S) \<and>
     ops_state fw N G (next_op_id S0) ps hnd L (next_op_id S) \<and>
     replace_map (\<not> fw) S = (\<lambda>k. entry (L k)) \<and> replace_map fw S = replace_map fw S0"

lemma before_prefix:
  assumes "distinct (ps @ qs)" and "before (ps @ qs) a b" and "b \<in> set ps"
  shows "a \<in> set ps"
proof -
  obtain xs ys where "ps = xs @ b # ys" using assms(3) by (meson split_list)
  then show ?thesis using before_split [of xs b "ys @ qs" a] assms(1,2) by simp
qed

section \<open>One vertex\<close>

text \<open>The handles after the filters \<open>n, n + 1, \<dots>\<close> have been made for the edges \<open>es\<close> that leave \<open>b\<close>.\<close>

definition new_handles :: "(nat \<Rightarrow> nat \<Rightarrow> nat) \<Rightarrow> nat \<Rightarrow> nat \<Rightarrow> DAGEdge list \<Rightarrow> nat \<Rightarrow> nat \<Rightarrow> nat" where
  "new_handles hnd b n es = hnd(b := (\<lambda>c. the (map_of (zip (map edge_dest es) [n..<n + length es]) c)))"

lemma new_handles_other [simp]: "a \<noteq> b \<Longrightarrow> new_handles hnd b n es a = hnd a"
  by (simp add: new_handles_def)

lemma new_handles_nth:
  assumes "distinct (map edge_dest es)" and "i < length es"
  shows "new_handles hnd b n es b (edge_dest (es ! i)) = n + i"
proof -
  have "map_of (zip (map edge_dest es) [n..<n + length es]) (map edge_dest es ! i) = Some ([n..<n + length es] ! i)"
    by (rule map_of_zip_nth) (use assms in simp_all)
  then show ?thesis using assms(2) by (simp add: new_handles_def)
qed

lemma new_handles_map:
  assumes "distinct (map edge_dest es)"
  shows "map (\<lambda>e. new_handles hnd b n es b (edge_dest e)) es = [n..<n + length es]"
  by (rule nth_equalityI) (simp_all add: new_handles_nth [OF assms])

lemma send_state:
  assumes g: "pass_graph fw rn order G" and order: "order = ps @ b # qs" and G': "graph_state fw G ps hnd G'"
    and hnd': "hnd' = new_handles hnd b n (out_edges fw G b)"
  shows "graph_state fw G (ps @ [b]) hnd' (send fw b [n..<n + length (out_edges fw G b)] (map edge_dest (out_edges fw G b)) G')"
proof -
  let ?es = "out_edges fw G b" and ?hs = "[n..<n + length (out_edges fw G b)]"
  have b: "b \<in> set order" "b \<notin> set ps" using g order by (auto simp: pass_graph_def)
  have cs: "distinct (map edge_dest ?es)" by (rule pass_graph_distinct(2) [OF g b(1)])
  have "(case map_of (zip (map edge_dest ?es) ?hs) c of None \<Rightarrow> G' c | Some h \<Rightarrow> map_option (AddIn_bf b h fw) (G' c)) =
      map_option (fill fw (set (ps @ [b])) hnd' c) (G c)" if dom: "c \<in> dom G" for c
  proof -
    obtain nd where Some: "G c = Some nd" using dom by auto
    then have c: "c \<in> set order" using g by (auto simp: pass_graph_def)
    have nd: "distinct (map edge_dest (incoming fw nd))" "list_all (\<lambda>e. bloom_filters e = []) (incoming fw nd)"
      using pass_graph_distinct(1) [OF g c] pass_graph_in(1) [OF g c] Some by (auto simp: list_all_iff)
    have Gc: "G' c = Some (fill fw (set ps) hnd c nd)" by (rule graph_stateD [OF G' Some])
    note send = fill_send [OF nd(1) b(2) nd(2), of hnd' hnd]
    show ?thesis
    proof (cases "b \<in> edge_dest ` set (incoming fw nd)")
      case True
      then have "c \<in> edge_dest ` set ?es" using pass_graph_in(4) [OF g c] Some by auto
      then obtain i where i: "i < length ?es" "edge_dest (?es ! i) = c" by (auto simp: in_set_conv_nth)
      have "map_of (zip (map edge_dest ?es) ?hs) (map edge_dest ?es ! i) = Some (?hs ! i)"
        by (rule map_of_zip_nth) (use cs i in simp_all)
      then have "map_of (zip (map edge_dest ?es) ?hs) c = Some (hnd' b c)"
        using i new_handles_nth [OF cs i(1), of hnd b n] by (simp add: hnd')
      then show ?thesis using send(1) [OF _ True, of c] Gc Some by (simp add: hnd')
    next
      case False
      have "c \<notin> edge_dest ` set ?es" using pass_graph_out(1) [OF g b(1)] False Some by (metis (no_types, lifting) imageE option.sel)
      then have none: "map_of (zip (map edge_dest ?es) ?hs) c = None" by simp
      show ?thesis unfolding none using send(2) [OF _ False, of c] Gc Some by (simp add: hnd')
    qed
  qed
  then show ?thesis unfolding graph_state_def by (simp add: send_eq [OF cs] del: set_append)
qed

lemma edge_filter_unused [simp]: "(edge_filter rn a fs)\<lparr>Used := False\<rparr> = edge_filter rn a fs" "\<not> Used (edge_filter rn a fs)"
  by (simp_all add: edge_filter_def BlockedBloomFilter_new_def)

text \<open>An edge into \<open>b\<close> is an edge out of its other end.\<close>

lemma in_edge_out:
  assumes "pass_graph fw rn order G" and "b \<in> set order" and "e \<in> set (in_edges fw G b)"
  obtains e' where "e' \<in> set (out_edges fw G (edge_dest e))" "edge_dest e' = b"
  using pass_graph_in(4) [OF assms] by auto

lemma heap_stateD:
  assumes "heap_state fw rn G heap0 ps hnd heap" and "a \<in> set ps" and "e \<in> set (out_edges fw G a)"
  shows "length heap0 \<le> hnd a (edge_dest e)" "hnd a (edge_dest e) < length heap"
    "heap ! hnd a (edge_dest e) = (edge_filter rn a (filters e))\<lparr>Used := edge_dest e \<in> set ps\<rparr>"
  using assms by (auto simp: heap_state_def)

lemma heap_state_inj:
  assumes "heap_state fw rn G heap0 ps hnd heap" and "a \<in> set ps" "a' \<in> set ps"
    and "e \<in> set (out_edges fw G a)" "e' \<in> set (out_edges fw G a')" and "hnd a (edge_dest e) = hnd a' (edge_dest e')"
  shows "a = a'" "edge_dest e = edge_dest e'"
  using assms unfolding heap_state_def by blast+

lemma in_handles_inj:
  assumes g: "pass_graph fw rn order G" and b: "b \<in> set order" and h: "heap_state fw rn G heap0 ps hnd heap"
    and dest: "\<And>e. e \<in> set (in_edges fw G b) \<Longrightarrow> edge_dest e \<in> set ps"
  shows "inj_on (\<lambda>e. hnd (edge_dest e) b) (set (in_edges fw G b))"
proof (rule inj_onI)
  fix e e' assume e: "e \<in> set (in_edges fw G b)" "e' \<in> set (in_edges fw G b)" "hnd (edge_dest e) b = hnd (edge_dest e') b"
  obtain f where f: "f \<in> set (out_edges fw G (edge_dest e))" "edge_dest f = b" by (rule in_edge_out [OF g b e(1)])
  obtain f' where f': "f' \<in> set (out_edges fw G (edge_dest e'))" "edge_dest f' = b" by (rule in_edge_out [OF g b e(2)])
  have "edge_dest e = edge_dest e'"
    using heap_state_inj(1) [OF h dest [OF e(1)] dest [OF e(2)] f(1) f'(1)] f(2) f'(2) e(3) by simp
  then show "e = e'" using pass_graph_distinct(1) [OF g b] e(1,2) by (simp add: distinct_map inj_on_def)
qed

lemma vertex_uses_handles:
  assumes g: "pass_graph fw rn (ps @ b # qs) G" and h: "heap_state fw rn G heap0 ps hnd heap"
    and a: "a \<in> set ps" "e \<in> set (out_edges fw G a)"
  shows "hnd a (edge_dest e) \<in> set (map fst (vertex_uses fw G hnd b)) \<longleftrightarrow> edge_dest e = b"
proof
  have b: "b \<in> set (ps @ b # qs)" and d: "distinct (ps @ b # qs)" using g by (simp_all add: pass_graph_def)
  have dest: "edge_dest e' \<in> set ps" if "e' \<in> set (in_edges fw G b)" for e'
    using before_split [OF d pass_graph_in(2) [OF g b that]] .
  assume "hnd a (edge_dest e) \<in> set (map fst (vertex_uses fw G hnd b))"
  then obtain e' where e': "e' \<in> set (in_edges fw G b)" "hnd a (edge_dest e) = hnd (edge_dest e') b"
    by (auto simp: vertex_uses_def)
  obtain e'' where e'': "e'' \<in> set (out_edges fw G (edge_dest e'))" "edge_dest e'' = b" by (rule in_edge_out [OF g b e'(1)])
  then show "edge_dest e = b" using heap_state_inj(2) [OF h a(1) dest [OF e'(1)] a(2) e''(1)] e'(2) by simp
next
  assume e: "edge_dest e = b"
  have "a \<in> edge_dest ` set (in_edges fw G b)" using pass_graph_out(1) [OF g _ a(2)] a(1) e by simp
  then show "hnd a (edge_dest e) \<in> set (map fst (vertex_uses fw G hnd b))" using e by (auto simp: vertex_uses_def)
qed

lemma heap_step:
  assumes g: "pass_graph fw rn order G" and order: "order = ps @ b # qs" and h: "heap_state fw rn G heap0 ps hnd heap"
    and hnd': "hnd' = new_handles hnd b (length heap) (out_edges fw G b)"
  shows "heap_state fw rn G heap0 (ps @ [b]) hnd'
    (mark_used (map fst (vertex_uses fw G hnd b)) heap @ map (\<lambda>e. edge_filter rn b (filters e)) (out_edges fw G b))"
    (is "heap_state _ _ _ _ _ _ ?heap")
proof -
  let ?us = "map fst (vertex_uses fw G hnd b)" and ?es = "out_edges fw G b"
  have d: "distinct (ps @ b # qs)" and b: "b \<in> set order" "b \<notin> set ps" using g order by (auto simp: pass_graph_def)
  note g' = g [unfolded order]
  have es: "distinct (map edge_dest ?es)" by (rule pass_graph_distinct(2) [OF g b(1)])
  have base: "length heap0 \<le> length heap" "take (length heap0) heap = heap0" using h by (simp_all add: heap_state_def)
  have old: "hnd' a = hnd a" if "a \<in> set ps" for a
    unfolding hnd' using that b(2) by (intro new_handles_other) auto
  have fresh: "\<exists>i < length ?es. e = ?es ! i \<and> hnd' b (edge_dest e) = length heap + i" if "e \<in> set ?es" for e
    using that new_handles_nth [OF es] hnd' by (auto simp: in_set_conv_nth)
  have later: "edge_dest e \<notin> set (ps @ [b])" if "e \<in> set ?es" for e
  proof
    assume "edge_dest e \<in> set (ps @ [b])"
    then have "b \<in> set ps \<or> edge_dest e = b"
      using before_prefix [OF d, of b "edge_dest e"] pass_graph_out(5) [OF g b(1) that] order by auto
    then show False using b(2) before_irrefl [OF d] pass_graph_out(5) [OF g b(1) that] order by auto
  qed
  have dest: "edge_dest e' \<in> set ps" if "e' \<in> set (in_edges fw G b)" for e'
    using before_split [OF d, of "edge_dest e'"] pass_graph_in(2) [OF g b(1) that] order by simp
  have "length heap0 \<le> u" if "u \<in> set ?us" for u
  proof -
    obtain e where e: "e \<in> set (in_edges fw G b)" "u = hnd (edge_dest e) b" using \<open>u \<in> set ?us\<close> by (auto simp: vertex_uses_def)
    obtain e' where "e' \<in> set (out_edges fw G (edge_dest e))" "edge_dest e' = b" by (rule in_edge_out [OF g b(1) e(1)])
    then show ?thesis using heap_stateD(1) [OF h dest [OF e(1)]] e(2) by auto
  qed
  then have "length heap0 \<le> length ?heap" "take (length heap0) ?heap = heap0"
    using base by (simp_all add: take_mark_used)
  moreover have "length heap0 \<le> hnd' a (edge_dest e) \<and> hnd' a (edge_dest e) < length ?heap \<and>
      ?heap ! hnd' a (edge_dest e) = (edge_filter rn a (filters e))\<lparr>Used := edge_dest e \<in> set (ps @ [b])\<rparr>"
    if a: "a \<in> set (ps @ [b])" "e \<in> set (out_edges fw G a)" for a e
  proof (cases "a = b")
    case True
    then show ?thesis using fresh [of e] later [of e] a(2) base(1) by (auto simp: nth_append)
  next
    case False
    then have a': "a \<in> set ps" using a(1) by simp
    have "setUsed (f\<lparr>Used := v\<rparr>) = f\<lparr>Used := True\<rparr>" for f :: BlockedBloomFilter and v by (simp add: setUsed_def)
    then show ?thesis
      using heap_stateD [OF h a' a(2)] vertex_uses_handles [OF g' h a' a(2)] old [OF a']
      by (auto simp: nth_append nth_mark_used)
  qed
  moreover have "a = a' \<and> edge_dest e = edge_dest e'"
    if a: "a \<in> set (ps @ [b])" "a' \<in> set (ps @ [b])" "e \<in> set (out_edges fw G a)" "e' \<in> set (out_edges fw G a')"
      and eq: "hnd' a (edge_dest e) = hnd' a' (edge_dest e')" for a a' e e'
  proof -
    have new: "length heap \<le> hnd' b (edge_dest e)" if "e \<in> set ?es" for e using fresh [OF that] by auto
    have below: "hnd' a (edge_dest e) < length heap" if "a \<in> set ps" "e \<in> set (out_edges fw G a)" for a e
      using heap_stateD(2) [OF h that] old that(1) by simp
    consider "a \<in> set ps" "a' \<in> set ps" | "a = b" "a' = b"
      using a new below eq by (metis (no_types, lifting) insert_iff list.set(2) not_less rotate1.simps(2) set_rotate1)
    then show ?thesis
    proof cases
      case 1
      then show ?thesis using heap_state_inj [OF h 1 a(3,4)] eq old by simp
    next
      case 2
      then show ?thesis using fresh a(3,4) eq by (metis add_left_cancel)
    qed
  qed
  ultimately show ?thesis unfolding heap_state_def by blast
qed

lemma use_infos_cong: "(\<And>u. u \<in> set us \<Longrightarrow> f (snd u) = g (snd u)) \<Longrightarrow> use_infos f n us = use_infos g n us"
proof (induction us)
  case (Cons u us)
  have "use_infos f n us = use_infos g n us" using Cons by simp
  then show ?case using Cons.prems [of u] by (cases u) simp
qed simp

lemma use_infos_ids: "map op_id (use_infos cid n us) = rev [n..<n + length us]"
  by (induction us) auto

lemma vertex_infos_ids:
  "set (map op_id (vertex_infos cid n us hs)) = {n..<n + length (vertex_infos cid n us hs)}"
  "distinct (map op_id (vertex_infos cid n us hs))"
  by (auto simp: vertex_infos_def use_infos_ids simp flip: set_map)

lemma length_vertex_infos: "length (vertex_infos cid n us hs) = length us + (if hs = [] then 0 else 1)"
  by (simp add: vertex_infos_def)

lemma ops_stateE:
  assumes "ops_state fw N G n0 ps hnd L n1" and "a \<in> set ps"
  obtains n where "n0 \<le> n"
    "L (vertex_oid N a) = vertex_infos (create_id N L) n (vertex_uses fw G hnd a) (vertex_creates fw G hnd a)"
    "n + length (L (vertex_oid N a)) \<le> n1" "\<forall>e \<in> set (in_edges fw G a). create_id N L (edge_dest e) < n"
  using assms unfolding ops_state_def by blast

lemma ops_state_ids:
  assumes "ops_state fw N G n0 ps hnd L n1" and "a \<in> set ps" and "i \<in> set (map op_id (L (vertex_oid N a)))"
  shows "n0 \<le> i \<and> i < n1"
proof -
  obtain n where n: "n0 \<le> n" "n + length (L (vertex_oid N a)) \<le> n1"
    "L (vertex_oid N a) = vertex_infos (create_id N L) n (vertex_uses fw G hnd a) (vertex_creates fw G hnd a)"
    using ops_stateE [OF assms(1,2)] by metis
  have "i \<in> {n..<n + length (L (vertex_oid N a))}" using assms(3) unfolding n(3) vertex_infos_ids(1) .
  then show ?thesis using n(1,2) by auto
qed

lemma ops_step:
  assumes g: "pass_graph fw rn order G" and order: "order = ps @ b # qs" and N: "inj_on (vertex_oid N) (set order)"
    and o: "ops_state fw N G n0 ps hnd L n1" and hnd': "\<And>a. a \<noteq> b \<Longrightarrow> hnd' a = hnd a"
    and L': "L' = L(vertex_oid N b :=
      vertex_infos (create_id N L) n1 (vertex_uses fw G hnd b) (vertex_creates fw G hnd' b))"
    and below: "\<forall>e \<in> set (in_edges fw G b). create_id N L (edge_dest e) < n1"
  shows "ops_state fw N G n0 (ps @ [b]) hnd' L' (n1 + length (L' (vertex_oid N b)))"
proof -
  have d: "distinct (ps @ b # qs)" and b: "b \<in> set order" "b \<notin> set ps" using g order by (auto simp: pass_graph_def)
  have ins: "edge_dest e \<in> set ps" if "a \<in> set (ps @ [b])" "e \<in> set (in_edges fw G a)" for a e
  proof (cases "a = b")
    case True
    then show ?thesis using before_split [OF d, of "edge_dest e"] pass_graph_in(2) [OF g b(1)] that order by simp
  next
    case False
    then have "a \<in> set ps" using that(1) by simp
    then show ?thesis
      using before_prefix [OF d, of "edge_dest e" a] pass_graph_in(2) [OF g _ that(2)] order by simp
  qed
  have oid: "vertex_oid N a \<noteq> vertex_oid N b" if "a \<in> set ps" for a
    using N that b order by (metis Un_iff inj_on_contraD set_append)
  have cid: "create_id N L' c = create_id N L c" if "c \<in> set ps" for c
    using oid [OF that] by (simp add: create_id_def L')
  have uses: "vertex_uses fw G hnd' a = vertex_uses fw G hnd a" if "a \<in> set (ps @ [b])" for a
  proof -
    have "hnd' (edge_dest e) = hnd (edge_dest e)" if "e \<in> set (in_edges fw G a)" for e
      by (rule hnd') (use ins [OF \<open>a \<in> set (ps @ [b])\<close> that] b(2) in auto)
    then show ?thesis by (simp add: vertex_uses_def)
  qed
  have infos: "vertex_infos (create_id N L') n (vertex_uses fw G hnd' a) hs =
      vertex_infos (create_id N L) n (vertex_uses fw G hnd a) hs" if "a \<in> set (ps @ [b])" for a n hs
    using ins [OF that] cid unfolding uses [OF that] vertex_infos_def
    by (intro arg_cong2 [of _ _ _ _ "(@)"] use_infos_cong) (auto simp: vertex_uses_def)
  have Lb: "L' (vertex_oid N b) = vertex_infos (create_id N L') n1 (vertex_uses fw G hnd' b) (vertex_creates fw G hnd' b)"
    unfolding infos [of b, simplified] by (simp add: L')
  have old: "L' (vertex_oid N a) = L (vertex_oid N a)" if "a \<in> set ps" for a using oid [OF that] by (simp add: L')
  let ?n2 = "n1 + length (L' (vertex_oid N b))"
  have vertex: "\<exists>n \<ge> n0. L' (vertex_oid N a) =
        vertex_infos (create_id N L') n (vertex_uses fw G hnd' a) (vertex_creates fw G hnd' a) \<and>
        n + length (L' (vertex_oid N a)) \<le> ?n2 \<and> (\<forall>e \<in> set (in_edges fw G a). create_id N L' (edge_dest e) < n)"
    if a: "a \<in> set (ps @ [b])" for a
  proof (cases "a = b")
    case True
    then show ?thesis
      using Lb o below cid ins [OF a] by (intro exI [of _ n1]) (simp add: ops_state_def)
  next
    case False
    then have a': "a \<in> set ps" using a by simp
    then obtain n where "n \<ge> n0" "L (vertex_oid N a) = vertex_infos (create_id N L) n (vertex_uses fw G hnd a) (vertex_creates fw G hnd a)"
      "n + length (L (vertex_oid N a)) \<le> n1" "\<forall>e \<in> set (in_edges fw G a). create_id N L (edge_dest e) < n"
      by (rule ops_stateE [OF o])
    moreover have "vertex_creates fw G hnd' a = vertex_creates fw G hnd a" using hnd' [OF False] by (simp add: vertex_creates_def)
    ultimately show ?thesis
      using old [OF a'] infos [OF a] cid ins [OF a] by (intro exI [of _ n]) simp
  qed
  have keys: "k \<in> vertex_oid N ` set (ps @ [b])" if "L' k \<noteq> []" for k
    using that o by (auto simp: L' ops_state_def split: if_splits)
  let ?ids = "concat (map (\<lambda>a. map op_id (L (vertex_oid N a))) ps)" and ?new = "map op_id (L' (vertex_oid N b))"
  have "i < n1" if i: "i \<in> set ?ids" for i
  proof -
    obtain a where "a \<in> set ps" "i \<in> set (map op_id (L (vertex_oid N a)))" using i by auto
    then show ?thesis using ops_state_ids [OF o] by blast
  qed
  moreover have "n1 \<le> i" if "i \<in> set ?new" for i
    using that unfolding Lb vertex_infos_ids(1) by simp
  ultimately have "set ?ids \<inter> set ?new = {}" by (meson disjoint_iff not_le)
  moreover have "distinct ?new" unfolding Lb by (rule vertex_infos_ids(2))
  moreover have "distinct ?ids" using o by (simp add: ops_state_def)
  moreover have "concat (map (\<lambda>a. map op_id (L' (vertex_oid N a))) (ps @ [b])) = ?ids @ ?new"
    using old by (simp cong: map_cong)
  ultimately have "distinct (concat (map (\<lambda>a. map op_id (L' (vertex_oid N a))) (ps @ [b])))"
    by (simp only: distinct_append)
  moreover have "n0 \<le> ?n2" using o by (simp add: ops_state_def)
  ultimately show ?thesis unfolding ops_state_def using keys vertex by blast
qed

text \<open>What the pass knows of the operators: the vertices of \<open>N\<close> are nodes with their own addresses.\<close>

definition nodes_ok :: "(nat \<rightharpoonup> LogicalOperator) \<Rightarrow> nat list \<Rightarrow> bool" where
  "nodes_ok N order \<longleftrightarrow> set order \<subseteq> dom N \<and> inj_on (vertex_oid N) (set order) \<and>
     (\<forall>b \<in> set order. GetNodeId (the (N b)) = Some b)"

lemma creating_vertex:
  assumes o: "ops_state fw N G n0 ps hnd L n1" and a: "a \<in> set ps" "out_edges fw G a \<noteq> []"
  shows "\<exists>i is. L (vertex_oid N a) = i # is \<and> op_type i = LOGICAL_CREATE_BF \<and> create_id N L a = op_id i \<and> op_id i < n1"
proof -
  obtain n where n: "L (vertex_oid N a) = vertex_infos (create_id N L) n (vertex_uses fw G hnd a) (vertex_creates fw G hnd a)"
    "n + length (L (vertex_oid N a)) \<le> n1" by (rule ops_stateE [OF o a(1)])
  have "vertex_creates fw G hnd a \<noteq> []" using a(2) by (simp add: vertex_creates_def)
  then show ?thesis using n by (auto simp: vertex_infos_def create_id_def)
qed

lemma pass_inv_fields:
  assumes "pass_inv fw rn N G S0 ps hnd L S"
  shows "nodes (nodes_manager (dag_manager S)) = N" "rename_cols (nodes_manager (dag_manager S)) = rn"
    "ExecOrder (dag_manager S) = ExecOrder (dag_manager S0)" "graph_state fw G ps hnd (dag_nodes (dag_manager S))"
    "heap_state fw rn G (bloom_heap S0) ps hnd (bloom_heap S)"
    "ops_state fw N G (next_op_id S0) ps hnd L (next_op_id S)"
    "replace_map (\<not> fw) S = (\<lambda>k. entry (L k))" "replace_map fw S = replace_map fw S0"
  using assms by (simp_all add: pass_inv_def)

text \<open>At the next vertex, the edges that enter it carry unused filters made by older operators.\<close>

lemma next_vertex:
  assumes g: "pass_graph fw rn order G" and order: "order = ps @ b # qs" and N: "nodes_ok N order"
    and inv: "pass_inv fw rn N G S0 ps hnd L S" and nd: "nd = fill fw (set ps) hnd b (the (G b))"
  shows "dag_nodes (dag_manager S) b = Some nd"
    "\<forall>e \<in> set (incoming fw nd). \<exists>h. bloom_filters e = [h] \<and> h < length (bloom_heap S) \<and> \<not> Used (bloom_heap S ! h)"
    "distinct (map (hd \<circ> bloom_filters) (incoming fw nd))"
    "\<forall>e \<in> set (incoming fw nd). creates_at (\<not> fw) (create_id N L) S (edge_dest e) \<and> create_id N L (edge_dest e) < next_op_id S"
    "\<forall>e \<in> set (outgoing fw nd). create_filter (nodes_manager (dag_manager S)) b (\<not> fw) e = Inr (edge_filter rn b (filters e))"
    "map (\<lambda>e. (hd (bloom_filters e), edge_dest e)) (incoming fw nd) = vertex_uses fw G hnd b"
    "outgoing fw nd = out_edges fw G b"
proof -
  note inv = pass_inv_fields [OF inv]
  have d: "distinct (ps @ b # qs)" and b: "b \<in> set order" "b \<notin> set ps" using g order by (auto simp: pass_graph_def)
  have Gb: "G b \<noteq> None" using g b(1) by (auto simp: pass_graph_def)
  then show "dag_nodes (dag_manager S) b = Some nd" using graph_stateD [OF inv(4)] nd by auto
  have dest: "edge_dest e \<in> set ps" if "e \<in> set (in_edges fw G b)" for e
    using before_split [OF d, of "edge_dest e"] pass_graph_in(2) [OF g b(1) that] order by simp
  have es: "incoming fw nd = map (\<lambda>e. e\<lparr>bloom_filters := [hnd (edge_dest e) b]\<rparr>) (in_edges fw G b)"
    using dest by (simp add: nd fill_edge_def)
  have heap: "hnd (edge_dest e) b < length (bloom_heap S) \<and> \<not> Used (bloom_heap S ! hnd (edge_dest e) b)"
    if e: "e \<in> set (in_edges fw G b)" for e
  proof -
    obtain e' where e': "e' \<in> set (out_edges fw G (edge_dest e))" "edge_dest e' = b" by (rule in_edge_out [OF g b(1) e])
    then show ?thesis using heap_stateD(2,3) [OF inv(5) dest [OF e] e'(1)] b(2) by simp
  qed
  then show "\<forall>e \<in> set (incoming fw nd). \<exists>h. bloom_filters e = [h] \<and> h < length (bloom_heap S) \<and> \<not> Used (bloom_heap S ! h)"
    by (simp add: es)
  have "inj_on (\<lambda>e. hnd (edge_dest e) b) (set (in_edges fw G b))" by (rule in_handles_inj [OF g b(1) inv(5) dest])
  then show "distinct (map (hd \<circ> bloom_filters) (incoming fw nd))"
    using pass_graph_distinct(1) [OF g b(1)] by (simp add: es distinct_map comp_def)
  show "\<forall>e \<in> set (incoming fw nd). creates_at (\<not> fw) (create_id N L) S (edge_dest e) \<and> create_id N L (edge_dest e) < next_op_id S"
  proof -
    have "creates_at (\<not> fw) (create_id N L) S (edge_dest e) \<and> create_id N L (edge_dest e) < next_op_id S"
      if e: "e \<in> set (in_edges fw G b)" for e
    proof -
      obtain e' where e': "e' \<in> set (out_edges fw G (edge_dest e))" "edge_dest e' = b" by (rule in_edge_out [OF g b(1) e])
      then have "out_edges fw G (edge_dest e) \<noteq> []" by auto
      from creating_vertex [OF inv(6) dest [OF e] this] obtain i "is" where i: "L (vertex_oid N (edge_dest e)) = i # is"
        "op_type i = LOGICAL_CREATE_BF" "create_id N L (edge_dest e) = op_id i" "op_id i < next_op_id S" by blast
      obtain op where "N (edge_dest e) = Some op" using dest [OF e] N order by (auto simp: nodes_ok_def)
      then show ?thesis using i inv(1,7) by (simp add: creates_at_def getNode_def vertex_oid_def)
    qed
    then show ?thesis by (simp add: es)
  qed
  show "\<forall>e \<in> set (outgoing fw nd). create_filter (nodes_manager (dag_manager S)) b (\<not> fw) e = Inr (edge_filter rn b (filters e))"
  proof
    fix e assume "e \<in> set (outgoing fw nd)"
    then have e: "e \<in> set (out_edges fw G b)" by (simp add: nd)
    have "b \<noteq> edge_dest e" using pass_graph_out(5) [OF g b(1) e] before_irrefl d order by metis
    then show "create_filter (nodes_manager (dag_manager S)) b (\<not> fw) e = Inr (edge_filter rn b (filters e))"
      using create_filter_ok [OF pass_graph_out(4,3) [OF g b(1) e] _ inv(2)] by blast
  qed
  show "map (\<lambda>e. (hd (bloom_filters e), edge_dest e)) (incoming fw nd) = vertex_uses fw G hnd b" by (simp add: es vertex_uses_def)
  show "outgoing fw nd = out_edges fw G b" by (simp add: nd)
qed

lemma replace_map_set_chain:
  "replace_map reverse (set_chain reverse k is S) = (if is = [] then replace_map reverse S else (replace_map reverse S)(k := entry is))"
  "replace_map (\<not> reverse) (set_chain reverse k is S) = replace_map (\<not> reverse) S"
  by (cases "is"; simp add: set_chain_def set_replacement_def replace_map_def)+

lemma replace_map_update [simp]:
  "replace_map reverse (S\<lparr>dag_manager := D\<rparr>) = replace_map reverse S"
  "replace_map reverse (S\<lparr>bloom_heap := heap\<rparr>) = replace_map reverse S"
  by (simp_all add: replace_map_def)

lemma set_chain_fields [simp]:
  "dag_manager (set_chain reverse k is S) = dag_manager S" "bloom_heap (set_chain reverse k is S) = bloom_heap S"
  "next_op_id (set_chain reverse k is S) = next_op_id S"
  by (cases "is"; simp add: set_chain_def set_replacement_def)+

lemma transfer_node_step:
  assumes g: "pass_graph fw rn order G" and order: "order = ps @ b # qs" and N: "nodes_ok N order"
    and inv: "pass_inv fw rn N G S0 ps hnd L S"
  shows "\<exists>hnd' L' S'. transfer_node (\<not> fw) (the (N b)) S = Inr S' \<and> pass_inv fw rn N G S0 (ps @ [b]) hnd' L' S'"
proof -
  define nd where "nd = fill fw (set ps) hnd b (the (G b))"
  define hs where "hs = [length (bloom_heap S)..<length (bloom_heap S) + length (out_edges fw G b)]"
  define hnd' where "hnd' = new_handles hnd b (length (bloom_heap S)) (out_edges fw G b)"
  define infos where "infos = vertex_infos (create_id N L) (next_op_id S) (vertex_uses fw G hnd b) hs"
  define heap where "heap = mark_used (map fst (vertex_uses fw G hnd b)) (bloom_heap S) @
    map (\<lambda>e. edge_filter rn b (filters e)) (out_edges fw G b)"
  define L' where "L' = L(vertex_oid N b := infos)"
  have b: "b \<in> set order" "GetNodeId (the (N b)) = Some b" and oids: "inj_on (vertex_oid N) (set order)"
    using order N by (auto simp: nodes_ok_def)
  note nv = next_vertex [OF g order N inv nd_def]
  note f = pass_inv_fields [OF inv]
  have es: "distinct (map edge_dest (out_edges fw G b))" by (rule pass_graph_distinct(2) [OF g b(1)])
  have creates: "vertex_creates fw G hnd' b = hs"
    unfolding vertex_creates_def hnd'_def hs_def by (rule new_handles_map [OF es])
  have nv4: "\<forall>e \<in> set (incoming fw nd). creates_at (\<not> fw) (create_id N L) S (edge_dest e)" using nv(4) by blast
  obtain S1 where S1: "CreateBloomFilter (the (N b)) (\<not> fw) S = Inr (map (Pair b) hs, set_chain (\<not> fw) (vertex_oid N b) infos S1)"
    "bumped (length infos) (S\<lparr>bloom_heap := heap\<rparr>) S1"
    using CreateBloomFilter_ok [OF b(2) nv(1-3) nv4 nv(5)] unfolding nv(6,7) hs_def [symmetric] infos_def [symmetric]
      heap_def [symmetric] vertex_oid_def [symmetric] by blast
  note bump = bumpedD [OF S1(2)]
  define S2 where "S2 = set_chain (\<not> fw) (vertex_oid N b) infos S1"
  have S2: "dag_manager S2 = dag_manager S1" "bloom_heap S2 = heap" "next_op_id S2 = next_op_id S + length infos"
    using bump by (simp_all add: S2_def)
  have heap_st: "heap_state fw rn G (bloom_heap S0) (ps @ [b]) hnd' heap"
    unfolding heap_def by (rule heap_step [OF g order f(5) hnd'_def])
  have graph: "dag_nodes (dag_manager S2) = dag_nodes (dag_manager S)" using bump S2(1) by simp
  have "list_all2 (\<lambda>h c. h < length (bloom_heap S2) \<and> c \<in> dom (dag_nodes (dag_manager S2)) \<and>
      (\<exists>x xs. column_bindings_applied (bloom_heap S2 ! h) = x # xs \<and> table_index x = c)) hs (map edge_dest (out_edges fw G b))"
  proof (rule list_all2_all_nthI)
    fix i assume "i < length hs"
    then have i: "i < length (out_edges fw G b)" by (simp add: hs_def)
    let ?e = "out_edges fw G b ! i"
    have e: "?e \<in> set (out_edges fw G b)" using i by simp
    have h: "hs ! i = hnd' b (edge_dest ?e)" using new_handles_nth [OF es i] i by (simp add: hnd'_def hs_def)
    have heap_e: "hnd' b (edge_dest ?e) < length heap"
      "column_bindings_applied (heap ! hnd' b (edge_dest ?e)) = map (fst \<circ> sides rn b) (filters ?e)"
      using heap_stateD(2,3) [OF heap_st _ e] by (simp_all add: edge_filter_def)
    have ne: "b \<noteq> edge_dest ?e"
      using pass_graph_out(5) [OF g b(1) e] before_irrefl g by (metis pass_graph_def)
    obtain x xs where fs: "filters ?e = x # xs" using pass_graph_out(3) [OF g b(1) e] by (cases "filters ?e") auto
    then have "table_index (fst (sides rn b x)) = edge_dest ?e"
      using sides_tables(1) [OF _ ne] pass_graph_out(4) [OF g b(1) e] by simp
    moreover have "edge_dest ?e \<in> dom G" using pass_graph_out(2) [OF g b(1) e] g by (simp add: pass_graph_def)
    then have "edge_dest ?e \<in> dom (dag_nodes (dag_manager S2))" using graph_stateD [OF f(4)] graph by auto
    ultimately show "hs ! i < length (bloom_heap S2) \<and> map edge_dest (out_edges fw G b) ! i \<in> dom (dag_nodes (dag_manager S2)) \<and>
      (\<exists>x xs. column_bindings_applied (bloom_heap S2 ! (hs ! i)) = x # xs \<and> table_index x = map edge_dest (out_edges fw G b) ! i)"
      using heap_e fs i by (simp add: h S2(2))
  qed (simp add: hs_def)
  from add_filters_ok [OF this, of fw b] obtain S3 where
    S3: "for_res (add_filter (\<not> fw)) (map (Pair b) hs) S2 = Inr S3"
      "S3 = S2\<lparr>dag_manager := (dag_manager S2)\<lparr>dag_nodes := send fw b hs (map edge_dest (out_edges fw G b)) (dag_nodes (dag_manager S))\<rparr>\<rparr>"
    using graph by simp
  have Lb: "L' (vertex_oid N b) = infos" by (simp add: L'_def)
  have ops: "ops_state fw N G (next_op_id S0) (ps @ [b]) hnd' L' (next_op_id S + length infos)"
    unfolding Lb [symmetric]
  proof (rule ops_step [OF g order oids f(6)])
    show "hnd' a = hnd a" if "a \<noteq> b" for a using that by (simp add: hnd'_def)
    show "L' = L(vertex_oid N b := vertex_infos (create_id N L) (next_op_id S) (vertex_uses fw G hnd b) (vertex_creates fw G hnd' b))"
      by (simp add: L'_def infos_def creates)
    show "\<forall>e \<in> set (in_edges fw G b). create_id N L (edge_dest e) < next_op_id S"
      using nv(4) by (simp add: nd_def)
  qed
  have graph3: "graph_state fw G (ps @ [b]) hnd' (dag_nodes (dag_manager S3))"
    using send_state [OF g order f(4) hnd'_def] by (simp add: S3(2) hs_def)
  have "L (vertex_oid N b) = []"
  proof (rule ccontr)
    assume "L (vertex_oid N b) \<noteq> []"
    then have "vertex_oid N b \<in> vertex_oid N ` set ps" using f(6) by (simp add: ops_state_def)
    then have "b \<in> set ps" using oids order by (auto dest: inj_onD)
    then show False using g order by (auto simp: pass_graph_def)
  qed
  moreover have "replace_map reverse S1 = replace_map reverse S" for reverse
    using bump(3) [of reverse] by simp
  ultimately have "replace_map (\<not> fw) S2 = (\<lambda>k. entry (L' k))" "replace_map fw S2 = replace_map fw S0"
    using replace_map_set_chain [of "\<not> fw" "vertex_oid N b" infos S1] f(7,8)
    by (auto simp: S2_def L'_def fun_eq_iff)
  then have maps: "replace_map (\<not> fw) S3 = (\<lambda>k. entry (L' k))" "replace_map fw S3 = replace_map fw S0"
    by (simp_all add: S3(2))
  have "transfer_node (\<not> fw) (the (N b)) S = Inr S3" using S1(1) S3(1) by (simp add: transfer_node_def S2_def)
  moreover have "pass_inv fw rn N G S0 (ps @ [b]) hnd' L' S3"
    unfolding pass_inv_def using graph3 heap_st ops maps bump S2 f(1-3) by (simp add: S3(2))
  ultimately show ?thesis by blast
qed

section \<open>The whole pass\<close>

lemma pass_ok:
  assumes g: "pass_graph fw rn order G" and N: "nodes_ok N order"
    and "order = ps @ qs" and "pass_inv fw rn N G S0 ps hnd L S"
  shows "\<exists>hnd L S'. for_res (transfer_node (\<not> fw)) (map (\<lambda>k. the (N k)) qs) S = Inr S' \<and> pass_inv fw rn N G S0 order hnd L S'"
  using assms(3,4)
proof (induction qs arbitrary: ps hnd L S)
  case (Cons b qs)
  obtain hnd' L' S' where S': "transfer_node (\<not> fw) (the (N b)) S = Inr S'" "pass_inv fw rn N G S0 (ps @ [b]) hnd' L' S'"
    using transfer_node_step [OF g Cons.prems(1) N Cons.prems(2)] by blast
  from Cons.IH [OF _ S'(2)] show ?case using S'(1) Cons.prems(1) by simp
qed auto

lemma pass_start:
  assumes "pass_graph fw rn order G" and "nodes (nodes_manager (dag_manager S)) = N"
    and "rename_cols (nodes_manager (dag_manager S)) = rn" and "\<forall>b \<in> dom G. dag_nodes (dag_manager S) b = G b"
    and "replace_map (\<not> fw) S = Map.empty"
  shows "pass_inv fw rn N G S [] hnd (\<lambda>_. []) S"
proof -
  have "fill_edge {} hnd b = id" for b by (rule ext) (simp add: fill_edge_def)
  then have "fill fw {} hnd b = id" for b by (intro ext) (simp add: fill_def)
  then show ?thesis using assms by (simp add: pass_inv_def graph_state_def heap_state_def ops_state_def option.map_id)
qed

end
