(* ===== verification/PT_Optimize.thy ===== *)
theory PT_Optimize
  imports PT_Passes
begin

text \<open>
  The optimizer on the graphs that \<open>DAGManager::Build\<close> makes: both passes succeed, the
  plan is kept under the new operators, and every operator that uses a Bloom filter
  is tied to the one that creates it.
\<close>

section \<open>Transfer graphs are fit for the passes\<close>

text \<open>No vertex and no renamed column has the number that stands for no table.\<close>

definition columns_valid :: "NodesManager \<Rightarrow> bool" where
  "columns_valid m \<longleftrightarrow> INVALID_INDEX \<notin> dom (nodes m) \<and>
     rename_cols m \<lparr>table_index = INVALID_INDEX, column_index = INVALID_INDEX\<rparr> = None"

lemma resolved_colref:
  assumes "columns_valid m" and "FindRename m (colref_binding e) = Some c" and "table_index c \<in> dom (nodes m)"
  obtains b where "e = BoundColumnRef b" "follow_rename (rename_cols m) b = Some c"
proof (cases "is_colref e")
  case True
  then obtain b where "e = BoundColumnRef b" by (cases e) auto
  then show thesis using that assms(2) by (simp add: FindRename_eq_follow)
next
  case False
  then have e: "colref_binding e = \<lparr>table_index = INVALID_INDEX, column_index = INVALID_INDEX\<rparr>" by (cases e) auto
  have "table_index c = INVALID_INDEX" using assms(1,2) unfolding e by (auto simp: columns_valid_def FindRename_def)
  then show thesis using assms(1,3) by (simp add: columns_valid_def)
qed

lemma edge_origin_cond_ok:
  assumes "columns_valid m" and "nodes_named (nodes m)" and "edge_origin m ops info" and "edge_between (nodes m) a b info"
  shows "cond_ok (rename_cols m) a b (ei_filter info)"
proof -
  obtain cond l r ln rn where c: "ei_filter info = comparison_of cond" "condition_vertices m cond = Some (l, r)"
    and n: "nodes m l = Some ln" "nodes m r = Some rn"
    and side: "large info = ln \<and> small info = rn \<or> large info = rn \<and> small info = ln"
    using assms(3) unfolding edge_origin_def edge_for_def by blast
  obtain lc rc where lr: "FindRename m (colref_binding (cond_left cond)) = Some lc" "FindRename m (colref_binding (cond_right cond)) = Some rc"
    "table_index lc \<in> dom (nodes m)" "table_index rc \<in> dom (nodes m)" "l = table_index lc" "r = table_index rc"
    using c(2) by (auto simp: condition_vertices_def split: option.splits if_splits)
  obtain cl where cl: "cond_left cond = BoundColumnRef cl" "follow_rename (rename_cols m) cl = Some lc"
    by (rule resolved_colref [OF assms(1) lr(1,3)])
  obtain cr where cr: "cond_right cond = BoundColumnRef cr" "follow_rename (rename_cols m) cr = Some rc"
    by (rule resolved_colref [OF assms(1) lr(2,4)])
  have "a = l \<and> b = r \<or> a = r \<and> b = l"
    using assms(4) side n nodes_named_inj [OF assms(2)] unfolding edge_between_def by blast
  then show ?thesis using cl cr lr(5,6) c(1) unfolding cond_ok_def comparison_of_def by auto
qed

lemma before_rev: "before ks a b \<Longrightarrow> before (rev ks) b a"
proof -
  assume "before ks a b"
  then obtain i j where "i < j" "j < length ks" "ks ! i = a" "ks ! j = b" by (auto simp: before_def)
  then have "length ks - Suc j < length ks - Suc i \<and> length ks - Suc i < length (rev ks) \<and>
      rev ks ! (length ks - Suc j) = b \<and> rev ks ! (length ks - Suc i) = a" by (auto simp: rev_nth)
  then show ?thesis unfolding before_def by blast
qed

lemma edge_filters_nonempty: "edge_filters d es \<noteq> [] \<Longrightarrow> d \<in> edge_dest ` set es"
  by (induction es) (auto simp: edge_filters_def split: if_splits)

lemma edge_filters_edge: "e \<in> set es \<Longrightarrow> filters e \<noteq> [] \<Longrightarrow> edge_filters (edge_dest e) es \<noteq> []"
  by (auto simp: edge_filters_def)

definition pass_order :: "bool \<Rightarrow> nat list \<Rightarrow> nat list" where
  "pass_order fw ks = (if fw then rev ks else ks)"

lemma set_pass_order [simp]: "set (pass_order fw ks) = set ks"
  by (simp add: pass_order_def)

text \<open>The conditions of edges are between columns of the vertices they connect.\<close>

definition origin_ok :: "(ColumnBinding \<rightharpoonup> ColumnBinding) \<Rightarrow> (nat \<rightharpoonup> LogicalOperator) \<Rightarrow> (DAGEdgeInfo \<Rightarrow> bool) \<Rightarrow> bool" where
  "origin_ok rn N Q \<longleftrightarrow> (\<forall>info a b. Q info \<longrightarrow> edge_between N a b info \<longrightarrow> cond_ok rn a b (ei_filter info))"

lemma edge_origin_ok:
  "columns_valid m \<Longrightarrow> nodes_named (nodes m) \<Longrightarrow> origin_ok (rename_cols m) (nodes m) (edge_origin m ops)"
  using edge_origin_cond_ok unfolding origin_ok_def by blast

lemma flow_cond_ok:
  assumes g: "transfer_graph rn Q N ks par D" and Q: "origin_ok rn N Q"
    and f: "f \<in> set (flow N par (selected_filters_and_bindings D) a b fw)"
  shows "cond_ok rn a b f \<and> before (pass_order fw ks) a b"
proof -
  have "Q info" if "info \<in> set (infos (selected_filters_and_bindings D))" for info
    using g that unfolding transfer_graph_def selected_ok_def infos_def good_edge_def by force
  moreover have "par y = Some x \<Longrightarrow> before ks x y" for x y using g by (simp add: transfer_graph_def)
  ultimately show ?thesis
    using f Q before_rev unfolding origin_ok_def by (auto simp: flow_def pass_order_def split: if_splits)
qed

lemma transfer_graph_pass:
  assumes g: "transfer_graph rn Q N ks par D" and Q: "origin_ok rn N Q"
  shows "pass_graph fw rn (pass_order fw ks) (dag_nodes D |` set ks)"
  unfolding pass_graph_def
proof (intro conjI ballI)
  let ?G = "dag_nodes D |` set ks" and ?es = "selected_filters_and_bindings D"
  have ks: "distinct ks" "set ks = dom N" using g by (simp_all add: transfer_graph_def)
  have vertex: "\<exists>nd. dag_nodes D b = Some nd \<and> ?G b = Some nd \<and> dag_node_wf nd \<and> edges_full nd \<and>
      (\<forall>fw a. edge_filters a (incoming fw nd) = flow N par ?es a b fw \<and> edge_filters a (outgoing fw nd) = flow N par ?es b a fw)"
    if "b \<in> set ks" for b
    using transfer_graph_vertex [OF g, of b] that ks(2) by (auto simp: vertex_spec_def)
  show "distinct (pass_order fw ks)" using ks by (simp add: pass_order_def)
  show "dom ?G = set (pass_order fw ks)" 
  proof -
    have "set ks \<subseteq> dom (dag_nodes D)" using vertex by blast
    then show ?thesis by auto
  qed
  fix b assume "b \<in> set (pass_order fw ks)"
  then have b: "b \<in> set ks" by simp
  then obtain nb where nb: "?G b = Some nb" "dag_node_wf nb" "edges_full nb"
    "\<And>fw a. edge_filters a (incoming fw nb) = flow N par ?es a b fw" "\<And>fw a. edge_filters a (outgoing fw nb) = flow N par ?es b a fw"
    using vertex by blast
  have fresh: "filters e \<noteq> []" "bloom_filters e = []" if "e \<in> set (incoming fw nb) \<or> e \<in> set (outgoing fw nb)" for e
    using nb(3) that by (auto simp: edges_full_def list_all_iff fresh_edge_def)
  have into: "before (pass_order fw ks) (edge_dest e) b \<and> b \<in> edge_dest ` set (out_edges fw ?G (edge_dest e))"
    if e: "e \<in> set (incoming fw nb)" for e
  proof -
    have flow: "flow N par ?es (edge_dest e) b fw \<noteq> []"
      using edge_filters_edge [OF e] fresh(1) e nb(4) by simp
    then have before: "before (pass_order fw ks) (edge_dest e) b"
      using flow_cond_ok [OF g Q] by (meson last_in_set)
    then have "edge_dest e \<in> set ks" using before_mem by fastforce
    then obtain na where "?G (edge_dest e) = Some na" "\<And>fw a. edge_filters a (outgoing fw na) = flow N par ?es (edge_dest e) a fw"
      using vertex by blast
    then show ?thesis using before flow edge_filters_nonempty [of b "outgoing fw na"] by simp
  qed
  have out: "b \<in> edge_dest ` set (in_edges fw ?G (edge_dest e)) \<and> edge_dest e \<in> set (pass_order fw ks) \<and>
      (\<forall>f \<in> set (filters e). cond_ok rn b (edge_dest e) f)"
    if e: "e \<in> set (outgoing fw nb)" for e
  proof -
    have flow: "flow N par ?es b (edge_dest e) fw \<noteq> []"
      using edge_filters_edge [OF e] fresh(1) e nb(5) by simp
    then have "before (pass_order fw ks) b (edge_dest e)" using flow_cond_ok [OF g Q] by (meson last_in_set)
    then have d: "edge_dest e \<in> set ks" using before_mem by fastforce
    then obtain na where "?G (edge_dest e) = Some na" "\<And>fw a. edge_filters a (incoming fw na) = flow N par ?es a (edge_dest e) fw"
      using vertex by blast
    then have "b \<in> edge_dest ` set (in_edges fw ?G (edge_dest e))"
      using flow edge_filters_nonempty [of b "incoming fw na"] by simp
    moreover have "cond_ok rn b (edge_dest e) f" if "f \<in> set (filters e)" for f
      using edge_filters_member [OF e that] flow_cond_ok [OF g Q] nb(5) by auto
    ultimately show ?thesis using d by simp
  qed
  have wf: "distinct (map edge_dest (incoming fw nb))" "distinct (map edge_dest (outgoing fw nb))"
    using nb(2) by (auto simp: dag_node_wf_def incoming_def outgoing_def)
  show "pass_vertex fw rn (pass_order fw ks) ?G b"
    unfolding pass_vertex_def nb(1) option.sel using wf fresh into out by blast
qed

lemma transfer_graph_nodes_ok:
  assumes g: "transfer_graph rn Q N ks par D" and N: "nodes_named N" "addresses_distinct N"
  shows "nodes_ok N (pass_order fw ks)"
proof -
  have ks: "set ks = dom N" using g by (simp add: transfer_graph_def)
  have "GetNodeId op = Some b" if "N b = Some op" for b op
    using N(1) that by (auto simp: nodes_named_def GetNodeId_def op_node_id_def node_types_def split: if_splits)
  moreover have "inj_on (vertex_oid N) (dom N)"
    using N(2) by (auto simp: inj_on_def vertex_oid_def addresses_distinct_def same_op_def)
  ultimately show ?thesis using ks by (auto simp: nodes_ok_def)
qed

section \<open>The operators of one pass\<close>

lemma distinct_concat_map_iff:
  "distinct ks \<Longrightarrow> distinct (concat (map f ks)) \<longleftrightarrow>
    (\<forall>k \<in> set ks. distinct (f k)) \<and> (\<forall>k \<in> set ks. \<forall>j \<in> set ks. k \<noteq> j \<longrightarrow> set (f k) \<inter> set (f j) = {})"
proof (induction ks)
  case (Cons a ks)
  have "set (f a) \<inter> set (concat (map f ks)) = {} \<longleftrightarrow> (\<forall>j \<in> set ks. set (f a) \<inter> set (f j) = {})" by auto
  moreover have "distinct (concat (map f (a # ks))) \<longleftrightarrow> distinct (f a) \<and> distinct (concat (map f ks)) \<and>
      set (f a) \<inter> set (concat (map f ks)) = {}" by simp
  moreover have "a \<notin> set ks" "distinct ks" using Cons.prems by simp_all
  ultimately show ?case using Cons.IH unfolding list.set ball_simps by (metis inf_commute)
qed simp

lemma use_infos_member:
  assumes "u \<in> set (use_infos cid n us)"
  obtains h c i where "(h, c) \<in> set us" "u = use_info i h (cid c)" "n \<le> i"
proof -
  have "\<exists>h c i. (h, c) \<in> set us \<and> u = use_info i h (cid c) \<and> n \<le> i"
    using assms
  proof (induction us)
    case (Cons x us)
    obtain h c where x: "x = (h, c)" by (cases x)
    then consider "u = use_info (n + length us) h (cid c)" | "u \<in> set (use_infos cid n us)" using Cons.prems by auto
    then show ?case
    proof cases
      case 1
      then show ?thesis using x by (intro exI [of _ h] exI [of _ c] exI [of _ "n + length us"]) simp
    next
      case 2
      then show ?thesis using Cons.IH by auto
    qed
  qed simp
  then show thesis using that by blast
qed

lemma use_infos_covers: "(h, c) \<in> set us \<Longrightarrow> \<exists>i. use_info i h (cid c) \<in> set (use_infos cid n us)"
  by (induction us) auto

lemma use_infos_unique:
  assumes "distinct (map fst us)" and "u \<in> set (use_infos cid n us)" "v \<in> set (use_infos cid n us)" and "bf_to_use u = bf_to_use v"
  shows "u = v"
  using assms
proof (induction us)
  case (Cons x us)
  obtain h c where x: "x = (h, c)" by (cases x)
  have "h \<notin> fst ` set us" using Cons.prems(1) x by simp
  then have other: "bf_to_use w \<noteq> [h]" if "w \<in> set (use_infos cid n us)" for w
    using that by (elim use_infos_member) (auto simp: image_iff)
  have here: "w = use_info (n + length us) h (cid c) \<or> w \<in> set (use_infos cid n us)" if "w \<in> {u, v}" for w
    using Cons.prems(2,3) x that by auto
  show ?case
  proof (cases "bf_to_use u = [h]")
    case True
    then show ?thesis using other here Cons.prems(4) by (metis insertCI)
  next
    case False
    then have "u \<in> set (use_infos cid n us)" "v \<in> set (use_infos cid n us)"
      using here [of u] here [of v] Cons.prems(4) by auto
    then show ?thesis using Cons.IH Cons.prems(1,4) by simp
  qed
qed simp

text \<open>An operator of the pass belongs to one vertex, and is the operator that creates or one of those that use.\<close>

lemma pass_info_cases:
  assumes o: "ops_state fw N G n0 order hnd L n1" and u: "u \<in> set (L k)"
  obtains (create) b where "b \<in> set order" "k = vertex_oid N b" "op_type u = LOGICAL_CREATE_BF"
      "bf_to_create u = vertex_creates fw G hnd b" "u = hd (L k)"
    | (use) b e i where "b \<in> set order" "k = vertex_oid N b" "e \<in> set (in_edges fw G b)"
      "u = use_info i (hnd (edge_dest e) b) (create_id N L (edge_dest e))" "create_id N L (edge_dest e) < i"
proof -
  have "L k \<noteq> []" using u by auto
  then obtain b where b: "b \<in> set order" "k = vertex_oid N b" using o unfolding ops_state_def by blast
  obtain n where n: "L k = vertex_infos (create_id N L) n (vertex_uses fw G hnd b) (vertex_creates fw G hnd b)"
    "\<forall>e \<in> set (in_edges fw G b). create_id N L (edge_dest e) < n"
    using ops_stateE [OF o b(1)] b(2) by metis
  consider "vertex_creates fw G hnd b \<noteq> []" "u = create_info (n + length (vertex_uses fw G hnd b)) (vertex_creates fw G hnd b)"
    | "u \<in> set (use_infos (create_id N L) n (vertex_uses fw G hnd b))"
    using u n(1) by (auto simp: vertex_infos_def split: if_splits)
  then show thesis
  proof cases
    case 1
    then show thesis using create [OF b] n(1) by (simp add: vertex_infos_def)
  next
    case 2
    then obtain h c i where h: "(h, c) \<in> set (vertex_uses fw G hnd b)" "u = use_info i h (create_id N L c)" "n \<le> i"
      by (rule use_infos_member)
    then obtain e where "e \<in> set (in_edges fw G b)" "h = hnd (edge_dest e) b" "c = edge_dest e" by (auto simp: vertex_uses_def)
    then show thesis using use [OF b] h n(2) by force
  qed
qed

lemma pass_info_is_bf: "ops_state fw N G n0 order hnd L n1 \<Longrightarrow> list_all is_bf_op (L k)"
  unfolding list_all_iff by (auto simp: is_bf_op_def elim!: pass_info_cases)

text \<open>The operator that creates the filters of a vertex with outgoing edges.\<close>

lemma creating_info:
  assumes g: "pass_graph fw rn order G" and o: "ops_state fw N G n0 order hnd L n1"
    and a: "a \<in> set order" "e \<in> set (out_edges fw G a)"
  shows "\<exists>c \<in> set (L (vertex_oid N a)). op_type c = LOGICAL_CREATE_BF \<and> create_id N L a = op_id c \<and>
    hnd a (edge_dest e) \<in> set (bf_to_create c)"
proof -
  obtain n where n: "L (vertex_oid N a) = vertex_infos (create_id N L) n (vertex_uses fw G hnd a) (vertex_creates fw G hnd a)"
    using ops_stateE [OF o a(1)] by metis
  have "hnd a (edge_dest e) \<in> set (vertex_creates fw G hnd a)" using a(2) by (simp add: vertex_creates_def)
  then show ?thesis using n by (auto simp: vertex_infos_def create_id_def)
qed

lemma pass_use_linked:
  assumes g: "pass_graph fw rn order G" and o: "ops_state fw N G n0 order hnd L n1"
    and u: "u \<in> set (L k)" "op_type u = LOGICAL_USE_BF"
  shows "\<exists>a b e c. a \<in> set order \<and> b \<in> set order \<and> k = vertex_oid N b \<and> e \<in> set (out_edges fw G a) \<and> edge_dest e = b \<and>
    c \<in> set (L (vertex_oid N a)) \<and> op_type c = LOGICAL_CREATE_BF \<and> bf_to_use u = [hnd a b] \<and>
    related_create_bf u = [op_id c] \<and> hnd a b \<in> set (bf_to_create c) \<and> op_id c < op_id u"
  using o u(1)
proof (cases rule: pass_info_cases)
  case (use b e i)
  obtain e' where e': "e' \<in> set (out_edges fw G (edge_dest e))" "edge_dest e' = b"
    by (rule in_edge_out [OF g use(1,3)])
  have a: "edge_dest e \<in> set order" by (rule pass_graph_in(3) [OF g use(1,3)])
  obtain c where "c \<in> set (L (vertex_oid N (edge_dest e)))" "op_type c = LOGICAL_CREATE_BF"
    "create_id N L (edge_dest e) = op_id c" "hnd (edge_dest e) (edge_dest e') \<in> set (bf_to_create c)"
    using creating_info [OF g o a e'(1)] by blast
  then show ?thesis
    using use e' a by (intro exI [of _ "edge_dest e"] exI [of _ b] exI [of _ e'] exI [of _ c]) simp
qed (use u in simp)

lemma pass_create_used:
  assumes g: "pass_graph fw rn order G" and o: "ops_state fw N G n0 order hnd L n1"
    and c: "c \<in> set (L k)" "op_type c = LOGICAL_CREATE_BF" and h: "h \<in> set (bf_to_create c)"
  shows "\<exists>a e u. a \<in> set order \<and> k = vertex_oid N a \<and> e \<in> set (out_edges fw G a) \<and> h = hnd a (edge_dest e) \<and>
    u \<in> set (L (vertex_oid N (edge_dest e))) \<and> op_type u = LOGICAL_USE_BF \<and> bf_to_use u = [h]"
  using o c(1)
proof (cases rule: pass_info_cases)
  case (create a)
  then obtain e where e: "e \<in> set (out_edges fw G a)" "h = hnd a (edge_dest e)" using h by (auto simp: vertex_creates_def)
  have b: "edge_dest e \<in> set order" by (rule pass_graph_out(2) [OF g create(1) e(1)])
  obtain n where n: "L (vertex_oid N (edge_dest e)) =
      vertex_infos (create_id N L) n (vertex_uses fw G hnd (edge_dest e)) (vertex_creates fw G hnd (edge_dest e))"
    using ops_stateE [OF o b] by metis
  have "(h, a) \<in> set (vertex_uses fw G hnd (edge_dest e))"
    using pass_graph_out(1) [OF g create(1) e(1)] e(2) by (auto simp: vertex_uses_def)
  from use_infos_covers [OF this, of "create_id N L" n] obtain i where
    "use_info i h (create_id N L a) \<in> set (L (vertex_oid N (edge_dest e)))" using n by (auto simp: vertex_infos_def)
  then show ?thesis using create(1,2) e by fastforce
qed (use c in simp)

lemma pass_use_unique:
  assumes g: "pass_graph fw rn order G" and o: "ops_state fw N G n0 order hnd L n1" and h: "heap_state fw rn G heap0 order hnd heap"
    and u: "u \<in> set (L k)" "op_type u = LOGICAL_USE_BF" and v: "v \<in> set (L j)" "op_type v = LOGICAL_USE_BF"
    and eq: "bf_to_use u = bf_to_use v"
  shows "u = v"
proof -
  obtain a b e where a: "a \<in> set order" "b \<in> set order" "k = vertex_oid N b" "e \<in> set (out_edges fw G a)" "edge_dest e = b"
    "bf_to_use u = [hnd a b]" using pass_use_linked [OF g o u] by blast
  obtain a' b' e' where a': "a' \<in> set order" "b' \<in> set order" "j = vertex_oid N b'" "e' \<in> set (out_edges fw G a')" "edge_dest e' = b'"
    "bf_to_use v = [hnd a' b']" using pass_use_linked [OF g o v] by blast
  have kj: "k = j" using heap_state_inj [OF h a(1) a'(1) a(4) a'(4)] a a' eq by simp
  obtain n where n: "L k = vertex_infos (create_id N L) n (vertex_uses fw G hnd b) (vertex_creates fw G hnd b)"
    using ops_stateE [OF o a(2)] a(3) by metis
  have mem: "w \<in> set (use_infos (create_id N L) n (vertex_uses fw G hnd b))" if "w \<in> set (L k)" "op_type w = LOGICAL_USE_BF" for w
    using that n by (auto simp: vertex_infos_def split: if_splits)
  have "inj_on (\<lambda>e. hnd (edge_dest e) b) (set (in_edges fw G b))"
    by (rule in_handles_inj [OF g a(2) h pass_graph_in(3) [OF g a(2)]])
  then have "distinct (map fst (vertex_uses fw G hnd b))"
    using pass_graph_distinct(1) [OF g a(2)] by (simp add: vertex_uses_def distinct_map comp_def)
  then show ?thesis using use_infos_unique [OF _ mem [OF u] mem [OF v [folded kj]] eq] by blast
qed

section \<open>Both passes\<close>

lemma pass_graph_cong:
  assumes "dom G' = dom G" and "\<And>b. in_edges fw G' b = in_edges fw G b" and "\<And>b. out_edges fw G' b = out_edges fw G b"
  shows "pass_graph fw rn order G' \<longleftrightarrow> pass_graph fw rn order G"
    "ops_state fw N G' n0 ps hnd L n1 \<longleftrightarrow> ops_state fw N G n0 ps hnd L n1"
    "heap_state fw rn G' heap0 ps hnd heap \<longleftrightarrow> heap_state fw rn G heap0 ps hnd heap"
  using assms by (simp_all add: pass_graph_def pass_vertex_def ops_state_def heap_state_def vertex_uses_def vertex_creates_def)

text \<open>What two passes leave behind: the operators \<open>LF\<close> and \<open>LB\<close> and the filters of both.\<close>

definition transfer_done :: "(ColumnBinding \<rightharpoonup> ColumnBinding) \<Rightarrow> (nat \<rightharpoonup> LogicalOperator) \<Rightarrow> (nat \<rightharpoonup> DAGNode) \<Rightarrow> nat list \<Rightarrow> nat \<Rightarrow>
    (bool \<Rightarrow> nat \<Rightarrow> nat \<Rightarrow> nat) \<Rightarrow> (bool \<Rightarrow> nat \<Rightarrow> op_info list) \<Rightarrow> BlockedBloomFilter list \<Rightarrow> bool" where
  "transfer_done rn N G ks n0 hnd L heap \<longleftrightarrow>
     (\<exists>n1 n2 heap1. n0 \<le> n1 \<and>
        ops_state True N G n0 (rev ks) (hnd True) (L True) n1 \<and> ops_state False N G n1 ks (hnd False) (L False) n2 \<and>
        heap_state True rn G [] (rev ks) (hnd True) heap1 \<and> heap_state False rn G heap1 ks (hnd False) heap)"

lemma passes_ok:
  assumes g: "transfer_graph rn Q N ks par (dag_manager S)" and Q: "origin_ok rn N Q"
    and N: "nodes_named N" "addresses_distinct N"
    and S: "bloom_heap S = []" "replace_map_forward S = Map.empty" "replace_map_backward S = Map.empty"
  shows "\<exists>S1 S2 hnd L. for_res (transfer_node False) (rev (ExecOrder (dag_manager S))) S = Inr S1 \<and>
    for_res (transfer_node True) (ExecOrder (dag_manager S)) S1 = Inr S2 \<and>
    replace_map_forward S2 = (\<lambda>k. entry (L True k)) \<and> replace_map_backward S2 = (\<lambda>k. entry (L False k)) \<and>
    transfer_done rn N (dag_nodes (dag_manager S) |` set ks) ks (next_op_id S) hnd L (bloom_heap S2)"
proof -
  let ?G = "dag_nodes (dag_manager S) |` set ks"
  have order: "ExecOrder (dag_manager S) = map (\<lambda>k. the (N k)) ks" "nodes (nodes_manager (dag_manager S)) = N"
    "rename_cols (nodes_manager (dag_manager S)) = rn" using g by (simp_all add: transfer_graph_def)
  have gF: "pass_graph True rn (rev ks) ?G" and gB: "pass_graph False rn ks ?G"
    using transfer_graph_pass [OF g Q, of True] transfer_graph_pass [OF g Q, of False] by (simp_all add: pass_order_def)
  have NF: "nodes_ok N (rev ks)" and NB: "nodes_ok N ks"
    using transfer_graph_nodes_ok [OF g N, of True] transfer_graph_nodes_ok [OF g N, of False] by (simp_all add: pass_order_def)
  have "pass_inv True rn N ?G S [] (\<lambda>_ _. 0) (\<lambda>_. []) S"
    by (rule pass_start [OF gF order(2,3)]) (use S in \<open>auto simp: replace_map_def\<close>)
  from pass_ok [OF gF NF _ this, of "rev ks"] obtain hF LF S1 where
    S1: "for_res (transfer_node False) (rev (ExecOrder (dag_manager S))) S = Inr S1" "pass_inv True rn N ?G S (rev ks) hF LF S1"
    by (auto simp: order(1) rev_map)
  note F = pass_inv_fields [OF S1(2)]
  define G2 where "G2 = (\<lambda>b. map_option (fill True (set ks) hF b) (?G b))"
  have "in_edges False G2 b = in_edges False ?G b" "out_edges False G2 b = out_edges False ?G b" for b
    by (cases "?G b"; simp add: G2_def)+
  note cong = pass_graph_cong [of G2 ?G False, OF _ this]
  have domG2: "dom G2 = dom ?G" unfolding dom_def G2_def by simp
  have gB2: "pass_graph False rn ks G2" using gB cong(1) [OF domG2] by simp
  have at: "\<forall>b \<in> dom G2. dag_nodes (dag_manager S1) b = G2 b"
    using F(4) unfolding domG2 by (simp add: graph_state_def G2_def)
  have "pass_inv False rn N G2 S1 [] (\<lambda>_ _. 0) (\<lambda>_. []) S1"
    by (rule pass_start [OF gB2 F(1,2) at]) (use F(8) S in \<open>simp add: replace_map_def\<close>)
  from pass_ok [OF gB2 NB _ this, of ks] obtain hB LB S2 where
    S2: "for_res (transfer_node True) (ExecOrder (dag_manager S)) S1 = Inr S2" "pass_inv False rn N G2 S1 ks hB LB S2"
    by (auto simp: order(1))
  note B = pass_inv_fields [OF S2(2)]
  let ?hnd = "\<lambda>fw. if fw then hF else hB" and ?L = "\<lambda>fw. if fw then LF else LB"
  have "replace_map_forward S2 = (\<lambda>k. entry (LF k))" "replace_map_backward S2 = (\<lambda>k. entry (LB k))"
    using B(7,8) F(7) by (simp_all add: replace_map_def)
  moreover have "transfer_done rn N ?G ks (next_op_id S) ?hnd ?L (bloom_heap S2)"
    unfolding transfer_done_def
  proof (intro exI conjI)
    show "next_op_id S \<le> next_op_id S1" using F(6) by (simp add: ops_state_def)
    show "ops_state True N ?G (next_op_id S) (rev ks) (?hnd True) (?L True) (next_op_id S1)" using F(6) by simp
    show "ops_state False N ?G (next_op_id S1) ks (?hnd False) (?L False) (next_op_id S2)" using B(6) cong(2) [OF domG2] by simp
    show "heap_state True rn ?G [] (rev ks) (?hnd True) (bloom_heap S1)" using F(5) S(1) by simp
    show "heap_state False rn ?G (bloom_heap S1) ks (?hnd False) (bloom_heap S2)" using B(5) cong(3) [OF domG2] by simp
  qed
  ultimately show ?thesis using S1(1) S2(1) by (intro exI [of _ S1] exI [of _ S2] exI [of _ ?hnd] exI [of _ ?L]) simp
qed

text \<open>All operators on top of a node: those of the backward pass above those of the forward pass.\<close>

definition both :: "(bool \<Rightarrow> nat \<Rightarrow> op_info list) \<Rightarrow> nat \<Rightarrow> op_info list" where
  "both L k = L False k @ L True k"

lemma Optimize_weaves:
  assumes "transfer_graph rn Q N ks par (dag_manager S)" and "origin_ok rn N Q" and "nodes_named N" "addresses_distinct N"
    and "bloom_heap S = []" "replace_map_forward S = Map.empty" "replace_map_backward S = Map.empty"
    and plan: "distinct (plan_ids plan)"
  shows "\<exists>hnd L S'. Optimize plan S = Inr (weave (both L) plan, S') \<and>
    transfer_done rn N (dag_nodes (dag_manager S) |` set ks) ks (next_op_id S) hnd L (bloom_heap S')"
proof -
  obtain S1 S2 hnd L where S: "for_res (transfer_node False) (rev (ExecOrder (dag_manager S))) S = Inr S1"
    "for_res (transfer_node True) (ExecOrder (dag_manager S)) S1 = Inr S2"
    "replace_map_forward S2 = (\<lambda>k. entry (L True k))" "replace_map_backward S2 = (\<lambda>k. entry (L False k))"
    "transfer_done rn N (dag_nodes (dag_manager S) |` set ks) ks (next_op_id S) hnd L (bloom_heap S2)"
    using passes_ok [OF assms(1-7)] by blast
  have "holds_chains A (L True) (replace_map_forward S2)" "holds_chains A (L False) (replace_map_backward S2)" for A
    using S(3,4) by (simp_all add: holds_chains_def)
  from insert_weave_d(1) [OF plan this] obtain f b where
    "InsertCreateBFOperator_d plan (replace_map_forward S2, replace_map_backward S2) = Some (weave (both L) plan, (f, b))"
    by (auto simp: both_def [abs_def])
  then have "Optimize plan S = Inr (weave (both L) plan, S2\<lparr>replace_map_forward := f, replace_map_backward := b\<rparr>)"
    using S(1,2) by (simp add: Optimize_def Let_def)
  then show ?thesis using S(5) by (intro exI conjI) (assumption, simp)
qed

section \<open>From the graph to the plan\<close>

lemma Build_ready:
  assumes "hash_ok H" and wf: "plan_wf rank plan" and ex: "ExtractNodes E plan (NodesManager_new, []) = Some (m, ops)"
    and "distinct (unresolved m ops)" and col: "columns_valid m" and b: "Build E H plan DAGManager_new = Some (True, D)"
  shows "\<exists>ks par. transfer_graph (rename_cols m) (edge_origin m ops) (nodes m) ks par D \<and>
    origin_ok (rename_cols m) (nodes m) (edge_origin m ops) \<and> nodes_named (nodes m) \<and> addresses_distinct (nodes m)"
proof -
  have "nodes_inv plan m"
    using ExtractNodes_inv [OF ex] by (auto simp: nodes_inv_def filters_inv_def NodesManager_new_def)
  from nodes_inv_facts [OF this] have "nodes_named (nodes m)" "addresses_distinct (nodes m)" using wf by (auto simp: plan_wf_def)
  then show ?thesis using Build_spec [OF assms(1-4)] b edge_origin_ok [OF col] by auto
qed

lemma Build_no_graph:
  assumes "Build E H plan DAGManager_new = Some (False, D)"
  shows "ExecOrder D = []"
proof -
  have "ExecOrder D' = ExecOrder D0" if "ExtractEdges ops D0 = Some D'" "filters_and_bindings D0 = Map.empty" for ops D0 D'
    using arg_cong [OF conjunct2 [OF ExtractEdges_pending [OF that]], of ExecOrder] by simp
  then show ?thesis
    using assms by (auto simp: Build_def Let_def DAGManager_new_def split: option.splits if_splits)
qed

lemma weave_nothing: "weave (\<lambda>k. []) plan = plan"
  by (induction plan rule: children_induct) (simp add: map_idI)

lemma Optimize_no_graph:
  assumes "ExecOrder (dag_manager S) = []" "replace_map_forward S = Map.empty" "replace_map_backward S = Map.empty"
    and "distinct (plan_ids plan)"
  shows "\<exists>S'. Optimize plan S = Inr (plan, S')"
proof -
  have "holds_chains A (\<lambda>k. []) Map.empty" for A by (simp add: holds_chains_def)
  from insert_weave_d(1) [OF assms(4) this this] show ?thesis
    using assms(1-3) by (simp add: Optimize_def Let_def weave_nothing)
qed

lemma transfer_done_ops:
  assumes "transfer_done rn N G ks n0 hnd L heap"
  shows "\<exists>n n' heap0 heap'. n0 \<le> n \<and> ops_state fw N G n (pass_order fw ks) (hnd fw) (L fw) n' \<and>
    heap_state fw rn G heap0 (pass_order fw ks) (hnd fw) heap' \<and> length heap' \<le> length heap \<and> take (length heap') heap = heap'"
proof (cases fw)
  case True
  then show ?thesis using assms unfolding transfer_done_def heap_state_def [of False] pass_order_def by auto
next
  case False
  obtain n1 n2 heap1 where "n0 \<le> n1" "ops_state False N G n1 ks (hnd False) (L False) n2" "heap_state False rn G heap1 ks (hnd False) heap"
    using assms unfolding transfer_done_def by blast
  then have "n0 \<le> n1 \<and> ops_state fw N G n1 (pass_order fw ks) (hnd fw) (L fw) n2 \<and>
    heap_state fw rn G heap1 (pass_order fw ks) (hnd fw) heap \<and> length heap \<le> length heap \<and> take (length heap) heap = heap"
    using False by (simp add: pass_order_def)
  then show ?thesis by blast
qed

lemma both_is_bf: "transfer_done rn N G ks n0 hnd L heap \<Longrightarrow> list_all is_bf_op (both L k)"
  using transfer_done_ops [of rn N G ks n0 hnd L heap True] transfer_done_ops [of rn N G ks n0 hnd L heap False]
  by (auto simp: both_def pass_info_is_bf)

lemma set_plan_infos_weave: "set (plan_infos (weave L plan)) = set (plan_infos plan) \<union> (\<Union>k \<in> set (plan_ids plan). set (L k))"
  using arg_cong [OF plan_infos_weave [of L plan], of set_mset] by simp

section \<open>Links between operators\<close>

text \<open>The new operators \<open>M\<close> on top of the nodes \<open>A\<close>.\<close>

definition new_infos :: "(bool \<Rightarrow> nat \<Rightarrow> op_info list) \<Rightarrow> nat set \<Rightarrow> op_info set" where
  "new_infos L A = (\<Union>k \<in> A. set (both L k))"

lemma new_infosI: "u \<in> set (L fw k) \<Longrightarrow> k \<in> A \<Longrightarrow> u \<in> new_infos L A"
  by (cases fw) (auto simp: new_infos_def both_def)

lemma new_infosE:
  assumes "u \<in> new_infos L A"
  obtains fw k where "k \<in> A" "u \<in> set (L fw k)"
  using assms by (auto simp: new_infos_def both_def)

text \<open>Handles of the two passes are apart.\<close>

lemma handles_apart:
  assumes t: "transfer_done rn N G ks n0 hnd L heap" and "a \<in> set ks" "e \<in> set (out_edges True G a)"
    and "b \<in> set ks" "e' \<in> set (out_edges False G b)"
  shows "hnd True a (edge_dest e) < hnd False b (edge_dest e')"
proof -
  obtain heap1 where h: "heap_state True rn G [] (rev ks) (hnd True) heap1" "heap_state False rn G heap1 ks (hnd False) heap"
    using t unfolding transfer_done_def by blast
  have "hnd True a (edge_dest e) < length heap1" by (rule heap_stateD(2) [OF h(1)]) (use assms in simp_all)
  moreover have "length heap1 \<le> hnd False b (edge_dest e')" by (rule heap_stateD(1) [OF h(2)]) (use assms in simp_all)
  ultimately show ?thesis by simp
qed

text \<open>One object per filter: two operators that use the same filter are the same operator.\<close>

lemma use_unique:
  assumes g: "\<And>fw. pass_graph fw rn (pass_order fw ks) G" and t: "transfer_done rn N G ks n0 hnd L heap"
    and u: "u \<in> set (L fw k)" "op_type u = LOGICAL_USE_BF" and v: "v \<in> set (L fw' j)" "op_type v = LOGICAL_USE_BF"
    and eq: "bf_to_use u = bf_to_use v"
  shows "u = v"
proof -
  have handle: "\<exists>a e. a \<in> set ks \<and> e \<in> set (out_edges fw G a) \<and> bf_to_use u = [hnd fw a (edge_dest e)]"
    if "u \<in> set (L fw k)" "op_type u = LOGICAL_USE_BF" for u fw k
  proof -
    obtain n n' where "ops_state fw N G n (pass_order fw ks) (hnd fw) (L fw) n'" using transfer_done_ops [OF t] by blast
    from pass_use_linked [OF g this that] show ?thesis by auto
  qed
  have "fw = fw'"
    using handle [OF u] handle [OF v] handles_apart [OF t] eq by (cases fw; cases fw') fastforce+
  moreover obtain n n' heap0 heap' where "ops_state fw N G n (pass_order fw ks) (hnd fw) (L fw) n'"
    "heap_state fw rn G heap0 (pass_order fw ks) (hnd fw) heap'" using transfer_done_ops [OF t] by blast
  ultimately show ?thesis using pass_use_unique [OF g] u v eq by blast
qed

lemma new_infos_linked:
  assumes g: "\<And>fw. pass_graph fw rn (pass_order fw ks) G" and t: "transfer_done rn N G ks n0 hnd L heap"
    and A: "vertex_oid N ` set ks \<subseteq> A" and u: "u \<in> new_infos L A" "op_type u = LOGICAL_USE_BF"
  shows "\<exists>c \<in> new_infos L A. \<exists>h. op_type c = LOGICAL_CREATE_BF \<and> bf_to_use u = [h] \<and> related_create_bf u = [op_id c] \<and>
    h \<in> set (bf_to_create c) \<and> op_id c < op_id u"
proof -
  obtain fw k where k: "u \<in> set (L fw k)" using u(1) by (rule new_infosE)
  obtain n n' where "ops_state fw N G n (pass_order fw ks) (hnd fw) (L fw) n'" using transfer_done_ops [OF t] by blast
  from pass_use_linked [OF g this k u(2)] obtain a b c where
    "a \<in> set (pass_order fw ks)" "c \<in> set (L fw (vertex_oid N a))" "op_type c = LOGICAL_CREATE_BF" "bf_to_use u = [hnd fw a b]"
    "related_create_bf u = [op_id c]" "hnd fw a b \<in> set (bf_to_create c)" "op_id c < op_id u" by blast
  then show ?thesis using new_infosI [of c L fw] A by (intro bexI [of _ c] exI [of _ "hnd fw a b"]) auto
qed

lemma new_infos_used_once:
  assumes g: "\<And>fw. pass_graph fw rn (pass_order fw ks) G" and t: "transfer_done rn N G ks n0 hnd L heap"
    and A: "vertex_oid N ` set ks \<subseteq> A" and c: "c \<in> new_infos L A" "op_type c = LOGICAL_CREATE_BF" "h \<in> set (bf_to_create c)"
  shows "\<exists>!u. u \<in> new_infos L A \<and> op_type u = LOGICAL_USE_BF \<and> bf_to_use u = [h]"
proof (rule ex_ex1I)
  obtain fw k where k: "c \<in> set (L fw k)" using c(1) by (rule new_infosE)
  obtain n n' where "ops_state fw N G n (pass_order fw ks) (hnd fw) (L fw) n'" using transfer_done_ops [OF t] by blast
  from pass_create_used [OF g this k c(2,3)] obtain a e u where
    a: "a \<in> set (pass_order fw ks)" "e \<in> set (out_edges fw G a)" and
    u: "u \<in> set (L fw (vertex_oid N (edge_dest e)))" "op_type u = LOGICAL_USE_BF" "bf_to_use u = [h]" by blast
  have "edge_dest e \<in> set ks" using pass_graph_out(2) [OF g a] by simp
  then show "\<exists>u. u \<in> new_infos L A \<and> op_type u = LOGICAL_USE_BF \<and> bf_to_use u = [h]"
    using u new_infosI [of u L fw "vertex_oid N (edge_dest e)" A] A by blast
next
  fix u v
  assume uv: "u \<in> new_infos L A \<and> op_type u = LOGICAL_USE_BF \<and> bf_to_use u = [h]"
    "v \<in> new_infos L A \<and> op_type v = LOGICAL_USE_BF \<and> bf_to_use v = [h]"
  obtain fw k where "u \<in> set (L fw k)" using uv(1) new_infosE by blast
  moreover obtain fw' j where "v \<in> set (L fw' j)" using uv(2) new_infosE by blast
  ultimately show "u = v" using use_unique [OF g t] uv by metis
qed

lemma new_infos_types: "transfer_done rn N G ks n0 hnd L heap \<Longrightarrow> u \<in> new_infos L A \<Longrightarrow> is_bf_op u"
  using both_is_bf [of rn N G ks n0 hnd L heap] by (auto simp: new_infos_def list_all_iff)

lemma plan_infos_bf:
  assumes "list_all (\<lambda>op. \<not> is_bf_op (op_of op)) (operators plan)" and "is_bf_op u"
  shows "u \<in> set (plan_infos (weave (both L) plan)) \<longleftrightarrow> u \<in> new_infos L (set (plan_ids plan))"
proof -
  have "u \<notin> set (plan_infos plan)" using assms by (auto simp: plan_infos_def list_all_iff)
  then show ?thesis by (simp add: set_plan_infos_weave new_infos_def)
qed

text \<open>What the claims about the result have in common.\<close>

lemma Optimize_result:
  assumes "hash_ok H" and "plan_wf rank plan" and "ExtractNodes E plan (NodesManager_new, []) = Some (m, ops)"
    and "distinct (unresolved m ops)" and "columns_valid m" and "Build E H plan DAGManager_new = Some (True, D)"
    and "distinct (plan_ids plan')"
    and "Optimize plan' ((PredicateTransferOptimizer_new n)\<lparr>dag_manager := D\<rparr>) = Inr (result, S')"
  shows "\<exists>ks par hnd L. transfer_graph (rename_cols m) (edge_origin m ops) (nodes m) ks par D \<and> set ks = dom (nodes m) \<and>
    nodes_named (nodes m) \<and> addresses_distinct (nodes m) \<and>
    (\<forall>fw. pass_graph fw (rename_cols m) (pass_order fw ks) (dag_nodes D |` set ks)) \<and> result = weave (both L) plan' \<and>
    transfer_done (rename_cols m) (nodes m) (dag_nodes D |` set ks) ks n hnd L (bloom_heap S')"
proof -
  define S where "S = (PredicateTransferOptimizer_new n)\<lparr>dag_manager := D\<rparr>"
  have S: "dag_manager S = D" "bloom_heap S = []" "replace_map_forward S = Map.empty" "replace_map_backward S = Map.empty" "next_op_id S = n"
    by (simp_all add: S_def PredicateTransferOptimizer_new_def)
  obtain ks par where ks: "transfer_graph (rename_cols m) (edge_origin m ops) (nodes m) ks par (dag_manager S)"
    "origin_ok (rename_cols m) (nodes m) (edge_origin m ops)" "nodes_named (nodes m)" "addresses_distinct (nodes m)"
    using Build_ready [OF assms(1-6)] S(1) by auto
  from Optimize_weaves [OF this S(2-4) assms(7)] obtain hnd L where "result = weave (both L) plan'"
    "transfer_done (rename_cols m) (nodes m) (dag_nodes D |` set ks) ks n hnd L (bloom_heap S')"
    using assms(8) S by (auto simp: S_def)
  moreover have "set ks = dom (nodes m)" using ks(1) by (simp add: transfer_graph_def)
  ultimately show ?thesis using ks transfer_graph_pass [OF ks(1,2)] unfolding S(1) by blast
qed

section \<open>Columns of the filters\<close>

lemma sides_condition:
  assumes "columns_valid m" and "condition_vertices m cond = Some (l, r)" and "a \<noteq> b" and "b = l \<and> a = r \<or> b = r \<and> a = l"
  shows "FindRename m (colref_binding (if b = l then cond_left cond else cond_right cond)) = Some (fst (sides (rename_cols m) a (comparison_of cond))) \<and>
    FindRename m (colref_binding (if b = l then cond_right cond else cond_left cond)) = Some (snd (sides (rename_cols m) a (comparison_of cond)))"
proof -
  obtain lc rc where lr: "FindRename m (colref_binding (cond_left cond)) = Some lc" "FindRename m (colref_binding (cond_right cond)) = Some rc"
    "table_index lc \<in> dom (nodes m)" "table_index rc \<in> dom (nodes m)" "l = table_index lc" "r = table_index rc"
    using assms(2) by (auto simp: condition_vertices_def split: option.splits if_splits)
  obtain cl where cl: "cond_left cond = BoundColumnRef cl" "follow_rename (rename_cols m) cl = Some lc"
    by (rule resolved_colref [OF assms(1) lr(1,3)])
  obtain cr where cr: "cond_right cond = BoundColumnRef cr" "follow_rename (rename_cols m) cr = Some rc"
    by (rule resolved_colref [OF assms(1) lr(2,4)])
  have "sides (rename_cols m) a (comparison_of cond) = (if table_index lc = a then (rc, lc) else (lc, rc))"
    using cl cr by (simp add: sides_def comparison_of_def)
  then show ?thesis using assms(3,4) lr by auto
qed

text \<open>The column pairs of a filter sent from \<open>a\<close> to \<open>b\<close>, each justified by a join.\<close>

definition pair_justified :: "NodesManager \<Rightarrow> LogicalOperator list \<Rightarrow> ColumnBinding \<Rightarrow> ColumnBinding \<Rightarrow> bool" where
  "pair_justified m ops applied built \<longleftrightarrow> (\<exists>op \<in> set ops. \<exists>cond \<in> set (conditions (op_of op)).
     cond_comparison cond = COMPARE_EQUAL \<and>
     (FindRename m (colref_binding (cond_left cond)) = Some applied \<and>
        FindRename m (colref_binding (cond_right cond)) = Some built \<and> join_type (op_of op) \<noteq> JT_LEFT \<or>
      FindRename m (colref_binding (cond_right cond)) = Some applied \<and>
        FindRename m (colref_binding (cond_left cond)) = Some built \<and> join_type (op_of op) \<noteq> JT_RIGHT))"

lemma edge_pairs_justified:
  assumes g: "transfer_graph (rename_cols m) (edge_origin m ops) (nodes m) ks par D" and col: "columns_valid m"
    and named: "nodes_named (nodes m)" and a: "a \<in> dom (nodes m)" "dag_nodes D a = Some na"
    and e: "e \<in> set (outgoing fw na)" "f \<in> set (filters e)"
  shows "pair_justified m ops (fst (sides (rename_cols m) a f)) (snd (sides (rename_cols m) a f))"
proof -
  let ?b = "edge_dest e"
  have "f \<in> set (edge_filters ?b (outgoing fw na))" by (rule edge_filters_member [OF e])
  then have flow: "f \<in> set (flow (nodes m) par (selected_filters_and_bindings D) a ?b fw)"
    using transfer_graph_vertex [OF g a(1)] a(2) by (auto simp: vertex_spec_def)
  have "edge_origin m ops info" if "info \<in> set (infos (selected_filters_and_bindings D))" for info
    using g that unfolding transfer_graph_def selected_ok_def infos_def good_edge_def by force
  then obtain info where info: "edge_origin m ops info" "edge_between (nodes m) a ?b info" "receives info ?b" "ei_filter info = f"
    using flow by (auto simp: flow_def split: if_splits)
  have par: "if fw then par a = Some ?b else par ?b = Some a" using flow by (auto simp: flow_def split: if_splits)
  then have ab: "a \<noteq> ?b" using transfer_graph_priority(3) [OF g] by (metis (full_types))
  obtain op cond l r where c: "op \<in> set ops" "cond \<in> set (conditions (op_of op))" "f = comparison_of cond"
    "cond_comparison cond = COMPARE_EQUAL" "condition_vertices m cond = Some (l, r)"
    and side: "?b = l \<and> a = r \<and> join_type (op_of op) \<noteq> JT_LEFT \<or> ?b = r \<and> a = l \<and> join_type (op_of op) \<noteq> JT_RIGHT"
    using edge_origin_protected [OF named info(1-3) ab] info(4) by metis
  have "?b = l \<and> a = r \<or> ?b = r \<and> a = l" using side by blast
  from sides_condition [OF col c(5) ab this] side ab show ?thesis
    unfolding pair_justified_def c(3) by (intro bexI [OF _ c(1)] bexI [OF _ c(2)]) (auto simp: c(4) split: if_splits)
qed

section \<open>The sample plan\<close>

lemma sample_columns_valid: "columns_valid sample_manager"
  by (simp add: columns_valid_def sample_manager_def INVALID_INDEX_def)

lemma sample_ids_distinct: "distinct (plan_ids sample_plan)"
  using sample_plan_wf by (simp add: plan_wf_def plan_ids_def)

lemma sample_plain: "list_all (\<lambda>op. \<not> is_bf_op (op_of op)) (operators sample_plan)"
  by (simp add: sample_defs is_bf_op_def)

lemma sample_addresses: "vertex_oid (nodes sample_manager) ` dom (nodes sample_manager) \<subseteq> set (plan_ids sample_plan)"
  by (auto simp: sample_manager_def vertex_oid_def sample_ids sample_plan_def sample_join_def sample_filter_def sample_get_def blank_info_def)

lemma used_filter_operator:
  assumes "transfer_done rn N G ks n0 hnd L heap" and "b \<in> set ks" and "in_edges True G b \<noteq> []"
  shows "\<exists>u \<in> set (both L (vertex_oid N b)). op_type u = LOGICAL_USE_BF \<and> bf_to_use u \<noteq> []"
proof -
  obtain n1 where o: "ops_state True N G n0 (rev ks) (hnd True) (L True) n1" using assms(1) unfolding transfer_done_def by blast
  obtain n where n: "L True (vertex_oid N b) = vertex_infos (create_id N (L True)) n (vertex_uses True G (hnd True) b) (vertex_creates True G (hnd True) b)"
    using ops_stateE [OF o] assms(2) by (metis set_rev)
  obtain e where "e \<in> set (in_edges True G b)" using assms(3) by (meson last_in_set)
  then have "(hnd True (edge_dest e) b, edge_dest e) \<in> set (vertex_uses True G (hnd True) b)" by (auto simp: vertex_uses_def)
  from use_infos_covers [OF this, of "create_id N (L True)" n] n obtain i h c where "use_info i h c \<in> set (L True (vertex_oid N b))"
    by (auto simp: vertex_infos_def)
  then show ?thesis by (intro bexI [of _ "use_info i h c"]) (simp_all add: both_def)
qed

lemma sample_optimized:
  "\<exists>D result S' u. Build (\<lambda>op. 10) sample_orders sample_plan DAGManager_new = Some (True, D) \<and>
     Optimize sample_plan ((PredicateTransferOptimizer_new 6)\<lparr>dag_manager := D\<rparr>) = Inr (result, S') \<and>
     u \<in> set (plan_infos result) \<and> op_type u = LOGICAL_USE_BF \<and> bf_to_use u \<noteq> []"
proof -
  obtain D nb where D: "Build (\<lambda>op. 10) sample_orders sample_plan DAGManager_new = Some (True, D)" "dag_nodes D 1 = Some nb"
    "forward_in nb \<noteq> []" using sample_graph by (metis list.discI)
  define S where "S = (PredicateTransferOptimizer_new 6)\<lparr>dag_manager := D\<rparr>"
  have S: "dag_manager S = D" "bloom_heap S = []" "replace_map_forward S = Map.empty" "replace_map_backward S = Map.empty"
    by (simp_all add: S_def PredicateTransferOptimizer_new_def)
  note ready = Build_ready [OF sample_orders_ok sample_plan_wf sample_extract sample_resolved sample_columns_valid D(1)]
  then obtain ks par where ks: "transfer_graph (rename_cols sample_manager) (edge_origin sample_manager [sample_join]) (nodes sample_manager) ks par (dag_manager S)"
    "origin_ok (rename_cols sample_manager) (nodes sample_manager) (edge_origin sample_manager [sample_join])"
    "nodes_named (nodes sample_manager)" "addresses_distinct (nodes sample_manager)" using S(1) by auto
  from Optimize_weaves [OF this S(2-4) sample_ids_distinct] obtain hnd L S' where
    r: "Optimize sample_plan S = Inr (weave (both L) sample_plan, S')"
    and t: "transfer_done (rename_cols sample_manager) (nodes sample_manager) (dag_nodes D |` set ks) ks (next_op_id S) hnd L (bloom_heap S')"
    using S(1) by auto
  have one: "1 \<in> set ks" using ks(1) by (simp add: transfer_graph_def sample_manager_def)
  then have "in_edges True (dag_nodes D |` set ks) 1 \<noteq> []" using D(2,3) by (simp add: incoming_def)
  from used_filter_operator [OF t one this] obtain u where "u \<in> set (both L (vertex_oid (nodes sample_manager) 1))" "op_type u = LOGICAL_USE_BF" "bf_to_use u \<noteq> []"
    by blast
  moreover have "vertex_oid (nodes sample_manager) 1 \<in> set (plan_ids sample_plan)"
    using sample_addresses by (rule subsetD) (simp add: sample_manager_def)
  ultimately have "u \<in> set (plan_infos (weave (both L) sample_plan))" "op_type u = LOGICAL_USE_BF" "bf_to_use u \<noteq> []"
    by (auto simp: set_plan_infos_weave)
  then show ?thesis using D(1) r unfolding S_def by blast
qed

section \<open>Claims\<close>


text \<open>
  C2. Predicate transfer never fails and never changes what a plan computes on the way:
  for every well-formed plan the first phase returns, and the second phase, run on any
  plan (the join order may have changed in between), returns that plan with operators
  that create or use Bloom filters put on top of some nodes, and nothing else changed.
\<close>

theorem Optimize_keeps_plan:
  assumes "hash_ok H" and "plan_wf rank plan" and "ExtractNodes E plan (NodesManager_new, []) = Some (m, ops)"
    and "distinct (unresolved m ops)" and "columns_valid m"
    and "distinct (plan_ids plan')" and "list_all (\<lambda>op. \<not> is_bf_op (op_of op)) (operators plan')"
  shows "\<exists>S result S'. PreOptimize E H plan (PredicateTransferOptimizer_new n) = Inr (plan, S) \<and>
    Optimize plan' S = Inr (result, S') \<and> strip result = plan'"
proof -
  obtain success D where D: "Build E H plan DAGManager_new = Some (success, D)" using Build_spec [OF assms(1-4)] by blast
  define S where "S = (PredicateTransferOptimizer_new n)\<lparr>dag_manager := D\<rparr>"
  have S: "dag_manager S = D" "bloom_heap S = []" "replace_map_forward S = Map.empty" "replace_map_backward S = Map.empty"
    by (simp_all add: S_def PredicateTransferOptimizer_new_def)
  have pre: "PreOptimize E H plan (PredicateTransferOptimizer_new n) = Inr (plan, S)"
    using D by (simp add: PreOptimize_def S_def PredicateTransferOptimizer_new_def)
  show ?thesis
  proof (cases success)
    case True
    obtain ks par where "transfer_graph (rename_cols m) (edge_origin m ops) (nodes m) ks par (dag_manager S)"
      "origin_ok (rename_cols m) (nodes m) (edge_origin m ops)" "nodes_named (nodes m)" "addresses_distinct (nodes m)"
      using Build_ready [OF assms(1-5), of D] D True S(1) by auto
    from Optimize_weaves [OF this S(2-4) assms(6)] obtain hnd L S' where opt: "Optimize plan' S = Inr (weave (both L) plan', S')"
      "transfer_done (rename_cols m) (nodes m) (dag_nodes (dag_manager S) |` set ks) ks (next_op_id S) hnd L (bloom_heap S')" by blast
    have "strip (weave (both L) plan') = plan'" by (rule strip_weave [OF both_is_bf [OF opt(2)] assms(7)])
    then show ?thesis using pre opt(1) by blast
  next
    case False
    then obtain S' where "Optimize plan' S = Inr (plan', S')"
      using Optimize_no_graph [OF _ S(3,4) assms(6)] Build_no_graph [of E H plan D] D S(1) by auto
    moreover have "strip plan' = plan'" using strip_weave [of "\<lambda>k. []", OF _ assms(7)] by (simp add: weave_nothing)
    ultimately show ?thesis using pre by blast
  qed
qed

theorem Optimize_keeps_plan_witness:
  "hash_ok sample_orders \<and> plan_wf id sample_plan \<and>
   ExtractNodes (\<lambda>op. 10) sample_plan (NodesManager_new, []) = Some (sample_manager, [sample_join]) \<and>
   distinct (unresolved sample_manager [sample_join]) \<and> columns_valid sample_manager \<and> distinct (plan_ids sample_plan) \<and>
   list_all (\<lambda>op. \<not> is_bf_op (op_of op)) (operators sample_plan) \<and>
   (\<exists>S result S'. PreOptimize (\<lambda>op. 10) sample_orders sample_plan (PredicateTransferOptimizer_new 6) = Inr (sample_plan, S) \<and>
      Optimize sample_plan S = Inr (result, S') \<and> strip result = sample_plan)"
  using Optimize_keeps_plan [OF sample_orders_ok sample_plan_wf sample_extract sample_resolved sample_columns_valid
      sample_ids_distinct sample_plain] sample_orders_ok sample_plan_wf sample_extract sample_resolved sample_columns_valid
      sample_ids_distinct sample_plain by blast



text \<open>
  C3. Filters are applied where joins allow it: new operators stand on top of the nodes
  of vertices only, and one that uses a filter on top of the node of vertex \<open>b\<close> finds in it columns of \<open>b\<close> only, each paired with a column
  the filter is built on, and every pair is equated by a join of the plan that does
  not preserve the rows of \<open>b\<close>.
\<close>

theorem Optimize_filter_columns:
  assumes "hash_ok H" and "plan_wf rank plan" and "ExtractNodes E plan (NodesManager_new, []) = Some (m, ops)"
    and "distinct (unresolved m ops)" and "columns_valid m" and "Build E H plan DAGManager_new = Some (True, D)"
    and "distinct (plan_ids plan')"
    and "Optimize plan' ((PredicateTransferOptimizer_new n)\<lparr>dag_manager := D\<rparr>) = Inr (result, S')"
  shows "\<exists>L. result = weave L plan' \<and> (\<forall>k. L k \<noteq> [] \<longrightarrow> k \<in> vertex_oid (nodes m) ` dom (nodes m)) \<and>
    (\<forall>b \<in> dom (nodes m). \<forall>u \<in> set (L (vertex_oid (nodes m) b)). \<forall>h \<in> set (bf_to_use u). op_type u = LOGICAL_USE_BF \<longrightarrow>
       h < length (bloom_heap S') \<and> column_bindings_applied (bloom_heap S' ! h) \<noteq> [] \<and>
       list_all (\<lambda>c. table_index c = b) (column_bindings_applied (bloom_heap S' ! h)) \<and>
       list_all2 (pair_justified m ops) (column_bindings_applied (bloom_heap S' ! h)) (column_bindings_built (bloom_heap S' ! h)))"
proof -
  obtain ks par hnd L where g: "transfer_graph (rename_cols m) (edge_origin m ops) (nodes m) ks par D"
    and ks: "set ks = dom (nodes m)" and named: "nodes_named (nodes m)" and addr: "addresses_distinct (nodes m)"
    and p: "\<And>fw. pass_graph fw (rename_cols m) (pass_order fw ks) (dag_nodes D |` set ks)"
    and res: "result = weave (both L) plan'"
    and t: "transfer_done (rename_cols m) (nodes m) (dag_nodes D |` set ks) ks n hnd L (bloom_heap S')"
    using Optimize_result [OF assms(1-8)] by blast
  let ?G = "dag_nodes D |` set ks" and ?heap = "bloom_heap S'" and ?rn = "rename_cols m"
  have "h < length ?heap \<and> column_bindings_applied (?heap ! h) \<noteq> [] \<and>
      list_all (\<lambda>c. table_index c = b) (column_bindings_applied (?heap ! h)) \<and>
      list_all2 (pair_justified m ops) (column_bindings_applied (?heap ! h)) (column_bindings_built (?heap ! h))"
    if b: "b \<in> dom (nodes m)" and u: "u \<in> set (both L (vertex_oid (nodes m) b))" "h \<in> set (bf_to_use u)" "op_type u = LOGICAL_USE_BF" for b u h
  proof -
    obtain fw where fw: "u \<in> set (L fw (vertex_oid (nodes m) b))" using u(1) by (auto simp: both_def)
    obtain n n' heap0 heap' where o: "ops_state fw (nodes m) ?G n (pass_order fw ks) (hnd fw) (L fw) n'"
      and hs: "heap_state fw ?rn ?G heap0 (pass_order fw ks) (hnd fw) heap'"
      and le: "length heap' \<le> length ?heap" "take (length heap') ?heap = heap'" using transfer_done_ops [OF t, of fw] by blast
    obtain a e where a: "a \<in> set ks" "e \<in> set (out_edges fw ?G a)" "vertex_oid (nodes m) b = vertex_oid (nodes m) (edge_dest e)"
        "edge_dest e \<in> set ks" "bf_to_use u = [hnd fw a (edge_dest e)]"
      using pass_use_linked [OF p o fw u(3)] by auto
    have e_b: "edge_dest e = b"
      using a(3,4) b ks addr by (auto simp: vertex_oid_def addresses_distinct_def same_op_def)
    have h: "h = hnd fw a (edge_dest e)" using u(2) a(5) by simp
    have a': "a \<in> set (pass_order fw ks)" using a(1) by simp
    have lt: "h < length heap'" and at: "heap' ! h = (edge_filter ?rn a (filters e))\<lparr>Used := edge_dest e \<in> set (pass_order fw ks)\<rparr>"
      using heap_stateD(2,3) [OF hs a' a(2)] h by simp_all
    have "?heap ! h = heap' ! h" using lt le by (metis nth_take)
    then have cols: "column_bindings_applied (?heap ! h) = map (fst \<circ> sides ?rn a) (filters e)"
      "column_bindings_built (?heap ! h) = map (snd \<circ> sides ?rn a) (filters e)" using at by (simp_all add: edge_filter_def)
    have ne: "a \<noteq> edge_dest e" using pass_graph_out(5) [OF p a' a(2)] before_irrefl p by (metis pass_graph_def)
    have "table_index (fst (sides ?rn a f)) = b" if "f \<in> set (filters e)" for f
      using sides_tables(1) [OF _ ne] pass_graph_out(4) [OF p a' a(2)] that e_b by blast
    moreover obtain na where na: "dag_nodes D a = Some na" "e \<in> set (outgoing fw na)"
      using transfer_graph_vertex [OF g, of a] a(1,2) ks by auto
    have "pair_justified m ops (fst (sides ?rn a f)) (snd (sides ?rn a f))" if "f \<in> set (filters e)" for f
      using edge_pairs_justified [OF g assms(5) named _ na that] a(1) ks by blast
    ultimately show ?thesis
      using lt le(1) pass_graph_out(3) [OF p a' a(2)] by (auto simp: cols list_all_iff list_all2_conv_all_nth)
  qed
  moreover have "k \<in> vertex_oid (nodes m) ` dom (nodes m)" if k: "both L k \<noteq> []" for k
  proof -
    obtain fw where "L fw k \<noteq> []" using k by (auto simp: both_def)
    then show ?thesis using transfer_done_ops [OF t, of fw] ks unfolding ops_state_def set_pass_order by metis
  qed
  ultimately show ?thesis using res by blast
qed

theorem Optimize_filter_columns_witness:
  "\<exists>D result S' L b u h. hash_ok sample_orders \<and> plan_wf id sample_plan \<and>
     ExtractNodes (\<lambda>op. 10) sample_plan (NodesManager_new, []) = Some (sample_manager, [sample_join]) \<and>
     distinct (unresolved sample_manager [sample_join]) \<and> columns_valid sample_manager \<and>
     Build (\<lambda>op. 10) sample_orders sample_plan DAGManager_new = Some (True, D) \<and> distinct (plan_ids sample_plan) \<and>
     Optimize sample_plan ((PredicateTransferOptimizer_new 6)\<lparr>dag_manager := D\<rparr>) = Inr (result, S') \<and>
     result = weave L sample_plan \<and> b \<in> dom (nodes sample_manager) \<and>
     u \<in> set (L (vertex_oid (nodes sample_manager) b)) \<and> h \<in> set (bf_to_use u) \<and> op_type u = LOGICAL_USE_BF \<and>
     column_bindings_applied (bloom_heap S' ! h) \<noteq> [] \<and>
     list_all (\<lambda>c. table_index c = b) (column_bindings_applied (bloom_heap S' ! h))"
proof -
  obtain D result S' u where D: "Build (\<lambda>op. 10) sample_orders sample_plan DAGManager_new = Some (True, D)"
    "Optimize sample_plan ((PredicateTransferOptimizer_new 6)\<lparr>dag_manager := D\<rparr>) = Inr (result, S')"
    and u: "u \<in> set (plan_infos result)" "op_type u = LOGICAL_USE_BF" "bf_to_use u \<noteq> []" using sample_optimized by blast
  obtain h where h: "h \<in> set (bf_to_use u)" using u(3) by (meson last_in_set)
  from Optimize_filter_columns [OF sample_orders_ok sample_plan_wf sample_extract sample_resolved sample_columns_valid
      D(1) sample_ids_distinct D(2)] obtain L where L: "result = weave L sample_plan"
    "\<And>k. L k \<noteq> [] \<Longrightarrow> k \<in> vertex_oid (nodes sample_manager) ` dom (nodes sample_manager)"
    "\<And>b u h. b \<in> dom (nodes sample_manager) \<Longrightarrow> u \<in> set (L (vertex_oid (nodes sample_manager) b)) \<Longrightarrow> h \<in> set (bf_to_use u) \<Longrightarrow>
       op_type u = LOGICAL_USE_BF \<Longrightarrow> column_bindings_applied (bloom_heap S' ! h) \<noteq> [] \<and>
       list_all (\<lambda>c. table_index c = b) (column_bindings_applied (bloom_heap S' ! h))" by blast
  have "\<not> is_bf_op v" if "v \<in> set (plan_infos sample_plan)" for v
    using sample_plain that by (auto simp: plan_infos_def list_all_iff)
  then obtain k where k: "u \<in> set (L k)" using u(1,2) by (auto simp: L(1) set_plan_infos_weave is_bf_op_def)
  then have "L k \<noteq> []" by auto
  then obtain b where b: "b \<in> dom (nodes sample_manager)" "k = vertex_oid (nodes sample_manager) b" using L(2) by blast
  from L(3) [OF b(1) k [unfolded b(2)] h u(2)] show ?thesis
    using D L(1) b k h u(2) sample_orders_ok sample_plan_wf sample_extract sample_resolved sample_columns_valid sample_ids_distinct by blast
qed

end
