(* ===== verification/Hash_Value.thy ===== *)
theory Hash_Value
  imports PT_Prelude "HOL-Library.Signed_Division"
begin

text \<open>
  The hash functions of single values (common/types/hash.hpp, hash.cpp): the keys of the
  Bloom filters are hashes made by them. A floating point number is its bit pattern, a
  string the bytes \<open>string_t\<close> refers to, an interval its three signed fields.

  What is shown: a hash depends only on what SQL compares. Both zeros hash alike, all
  NaNs hash alike, intervals that \<open>operator==\<close> identifies hash alike; the mixing step of
  the integer hash loses nothing.
\<close>

type_synonym hash_t = u64

section \<open>Integers\<close>

definition murmurhash64 :: "u64 \<Rightarrow> hash_t" where
  "murmurhash64 x0 =
     (let x1 = x0 XOR drop_bit 32 x0;
          x2 = x1 * 0xd6e8feb86659fd93;
          x3 = x2 XOR drop_bit 32 x2;
          x4 = x3 * 0xd6e8feb86659fd93;
          x5 = x4 XOR drop_bit 32 x4
      in x5)"

definition murmurhash32 :: "u32 \<Rightarrow> hash_t" where
  "murmurhash32 x = murmurhash64 (ucast x)"

text \<open>
  The template \<open>Hash<T>\<close>: the argument is converted to \<open>uint32_t\<close>, which sign-extends the
  signed types.
\<close>

definition Hash_int8 :: "8 word \<Rightarrow> hash_t" where
  "Hash_int8 v = murmurhash32 (scast v)"

definition Hash_int16 :: "16 word \<Rightarrow> hash_t" where
  "Hash_int16 v = murmurhash32 (scast v)"

definition Hash_int32 :: "32 word \<Rightarrow> hash_t" where
  "Hash_int32 v = murmurhash32 v"

definition Hash_uint8 :: "8 word \<Rightarrow> hash_t" where
  "Hash_uint8 v = murmurhash32 (ucast v)"

definition Hash_uint16 :: "16 word \<Rightarrow> hash_t" where
  "Hash_uint16 v = murmurhash32 (ucast v)"

definition Hash_uint32 :: "32 word \<Rightarrow> hash_t" where
  "Hash_uint32 v = murmurhash32 v"

definition Hash_uint64 :: "u64 \<Rightarrow> hash_t" where
  "Hash_uint64 val = murmurhash64 val"

definition Hash_int64 :: "u64 \<Rightarrow> hash_t" where
  "Hash_int64 val = murmurhash64 val"

record hugeint_t =
  lower :: u64
  upper :: u64

definition Hash_hugeint :: "hugeint_t \<Rightarrow> hash_t" where
  "Hash_hugeint val = murmurhash64 (lower val) XOR murmurhash64 (upper val)"

definition Hash_uhugeint :: "hugeint_t \<Rightarrow> hash_t" where
  "Hash_uhugeint val = murmurhash64 (lower val) XOR murmurhash64 (upper val)"

section \<open>Floating point numbers\<close>

text \<open>
  IEEE 754 single and double precision: \<open>val == 0.0\<close> holds of the two zeros, \<open>isnan\<close> of
  a full exponent with a mantissa that is not zero, and the quiet NaN of
  \<open>numeric_limits\<close> has the top mantissa bit set.
\<close>

definition float_is_zero :: "u32 \<Rightarrow> bool" where
  "float_is_zero v \<longleftrightarrow> v = 0 \<or> v = 0x80000000"

definition float_isnan :: "u32 \<Rightarrow> bool" where
  "float_isnan v \<longleftrightarrow> v AND 0x7F800000 = 0x7F800000 \<and> v AND 0x7FFFFF \<noteq> 0"

definition double_is_zero :: "u64 \<Rightarrow> bool" where
  "double_is_zero v \<longleftrightarrow> v = 0 \<or> v = 0x8000000000000000"

definition double_isnan :: "u64 \<Rightarrow> bool" where
  "double_isnan v \<longleftrightarrow> v AND 0x7FF0000000000000 = 0x7FF0000000000000 \<and> v AND 0xFFFFFFFFFFFFF \<noteq> 0"

definition FloatEqualityTransform :: "u32 \<Rightarrow> u32" where
  "FloatEqualityTransform val =
     (if float_is_zero val then 0 else if float_isnan val then 0x7FC00000 else val)"

definition DoubleEqualityTransform :: "u64 \<Rightarrow> u64" where
  "DoubleEqualityTransform val =
     (if double_is_zero val then 0 else if double_isnan val then 0x7FF8000000000000 else val)"

definition Hash_float :: "u32 \<Rightarrow> hash_t" where
  "Hash_float val = murmurhash64 (ucast (FloatEqualityTransform val))"

definition Hash_double :: "u64 \<Rightarrow> hash_t" where
  "Hash_double val = murmurhash64 (DoubleEqualityTransform val)"

section \<open>Intervals\<close>

record interval_t =
  months :: "32 word"
  days :: "32 word"
  micros :: "64 word"

definition DAYS_PER_MONTH :: int where "DAYS_PER_MONTH = 30"

definition MICROS_PER_DAY :: int where "MICROS_PER_DAY = 86400000000"

definition MICROS_PER_MONTH :: int where "MICROS_PER_MONTH = 2592000000000"

text \<open>Signed division truncates towards zero; the fields wrap at their width.\<close>

definition interval_Normalize :: "interval_t \<Rightarrow> 64 word \<times> 64 word \<times> 64 word" where
  "interval_Normalize input =
     (let extra_months_d = sint (days input) sdiv DAYS_PER_MONTH;
          extra_months_micros = sint (micros input) sdiv MICROS_PER_MONTH;
          days' = days input - of_int (extra_months_d * DAYS_PER_MONTH);
          micros1 = micros input - of_int (extra_months_micros * MICROS_PER_MONTH);
          extra_days_micros = sint micros1 sdiv MICROS_PER_DAY;
          micros2 = micros1 - of_int (extra_days_micros * MICROS_PER_DAY)
      in (scast (months input) + of_int extra_months_d + of_int extra_months_micros,
          scast days' + of_int extra_days_micros,
          micros2))"

definition interval_eq :: "interval_t \<Rightarrow> interval_t \<Rightarrow> bool" where
  "interval_eq left right \<longleftrightarrow>
     (if months left = months right \<and> days left = days right \<and> micros left = micros right then True
      else let (lmonths, ldays, lmicros) = interval_Normalize left;
               (rmonths, rdays, rmicros) = interval_Normalize right
           in lmonths = rmonths \<and> ldays = rdays \<and> lmicros = rmicros)"

definition Hash_interval :: "interval_t \<Rightarrow> hash_t" where
  "Hash_interval val =
     (case interval_Normalize val of (months', days', micros') \<Rightarrow>
        Hash_int64 days' XOR Hash_int64 months' XOR Hash_int64 micros')"

section \<open>Strings\<close>

definition hash_M :: u64 where "hash_M = 0xc6a4a7935bd1e995"

definition hash_SEED :: u64 where "hash_SEED = 0xe17a1465"

definition hash_R :: nat where "hash_R = 47"

text \<open>One eight byte block.\<close>

definition hash_block :: "u8 list \<Rightarrow> nat \<Rightarrow> u64 \<Rightarrow> u64" where
  "hash_block bs i h =
     (let k0 = SafeLoadAs_uint64 bs (8 * i);
          k1 = k0 * hash_M;
          k2 = k1 XOR drop_bit hash_R k1;
          k3 = k2 * hash_M
      in (h XOR k3) * hash_M)"

text \<open>The \<open>switch\<close> on the remaining bytes falls through from the last byte to the first.\<close>

definition hash_tail :: "u8 list \<Rightarrow> u64 \<Rightarrow> u64" where
  "hash_tail data8 h0 =
     (let r = length data8;
          h7 = (if r \<ge> 7 then h0 XOR push_bit 48 (ucast (data8 ! 6)) else h0);
          h6 = (if r \<ge> 6 then h7 XOR push_bit 40 (ucast (data8 ! 5)) else h7);
          h5 = (if r \<ge> 5 then h6 XOR push_bit 32 (ucast (data8 ! 4)) else h6);
          h4 = (if r \<ge> 4 then h5 XOR push_bit 24 (ucast (data8 ! 3)) else h5);
          h3 = (if r \<ge> 3 then h4 XOR push_bit 16 (ucast (data8 ! 2)) else h4);
          h2 = (if r \<ge> 2 then h3 XOR push_bit 8 (ucast (data8 ! 1)) else h3)
      in if r \<ge> 1 then (h2 XOR ucast (data8 ! 0)) * hash_M else h2)"

definition HashBytes :: "u8 list \<Rightarrow> hash_t" where
  "HashBytes bs =
     (let len = length bs;
          n_blocks = len div 8;
          h0 = hash_SEED XOR (of_nat len * hash_M);
          h1 = fold (hash_block bs) [0..<n_blocks] h0;
          h2 = hash_tail (drop (8 * n_blocks) bs) h1;
          h3 = h2 XOR drop_bit hash_R h2;
          h4 = h3 * hash_M
      in h4 XOR drop_bit hash_R h4)"

definition Hash_string :: "u8 list \<Rightarrow> hash_t" where
  "Hash_string val = HashBytes val"

section \<open>What the hashes respect\<close>

lemma interval_eq_normal:
  "interval_eq a b \<Longrightarrow> interval_Normalize a = interval_Normalize b"
  by (auto simp: interval_eq_def interval_Normalize_def Let_def split: if_splits)

lemma xorshift_inj:
  fixes x y :: u64
  assumes "x XOR drop_bit 32 x = y XOR drop_bit 32 y"
  shows "x = y"
proof -
  have high: "bit x n = bit y n" if "32 \<le> n" for n
  proof -
    have "bit (x XOR drop_bit 32 x) n = bit (y XOR drop_bit 32 y) n" using assms by simp
    then show ?thesis using that bit_imp_le_length [of x "32 + n"] bit_imp_le_length [of y "32 + n"]
      by (auto simp: bit_simps)
  qed
  show ?thesis
  proof (rule bit_word_eqI)
    fix n :: nat
    have "bit (x XOR drop_bit 32 x) n = bit (y XOR drop_bit 32 y) n" using assms by simp
    then show "bit x n = bit y n" using high [of "32 + n"] by (auto simp: bit_simps)
  qed
qed

text \<open>The multiplier is odd: \<open>0xcfee444d8b59a89b\<close> is its inverse modulo \<open>2 ^ 64\<close>.\<close>

lemma murmur_multiplier_inverse: "(0xd6e8feb86659fd93 :: u64) * 0xcfee444d8b59a89b = 1"
  by simp

lemma unit_mult_inj:
  fixes a b x y :: u64
  assumes "x * a = y * a" and "a * b = 1"
  shows "x = y"
  using arg_cong [OF assms(1), of "\<lambda>z. z * b"] unfolding mult.assoc assms(2) by simp

lemma murmurhash64_inj: "murmurhash64 x = murmurhash64 y \<Longrightarrow> x = y"
  unfolding murmurhash64_def Let_def
  by (drule xorshift_inj, drule unit_mult_inj [OF _ murmur_multiplier_inverse], drule xorshift_inj,
      drule unit_mult_inj [OF _ murmur_multiplier_inverse], drule xorshift_inj)

lemma murmurhash64_eq_iff: "murmurhash64 x = murmurhash64 y \<longleftrightarrow> x = y"
  using murmurhash64_inj by blast

lemma ucast_u32_inj: "(ucast a :: u64) = ucast b \<longleftrightarrow> a = b" for a b :: u32
proof
  assume eq: "(ucast a :: u64) = ucast b"
  show "a = b"
  proof (rule bit_word_eqI)
    fix n assume "n < LENGTH(32)"
    then show "bit a n = bit b n" using arg_cong [OF eq, of "\<lambda>x. bit x n"] by (simp add: bit_simps)
  qed
qed simp

lemma FloatEqualityTransform_eq_iff:
  "FloatEqualityTransform u = FloatEqualityTransform w \<longleftrightarrow>
     u = w \<or> float_is_zero u \<and> float_is_zero w \<or> float_isnan u \<and> float_isnan w"
  by (auto simp: FloatEqualityTransform_def float_is_zero_def float_isnan_def)

lemma DoubleEqualityTransform_eq_iff:
  "DoubleEqualityTransform u = DoubleEqualityTransform w \<longleftrightarrow>
     u = w \<or> double_is_zero u \<and> double_is_zero w \<or> double_isnan u \<and> double_isnan w"
  by (auto simp: DoubleEqualityTransform_def double_is_zero_def double_isnan_def)

section \<open>Claims\<close>

text \<open>
  C29. The hashes of single values identify what SQL compares as equal, and for the types
  of at most 64 bits nothing else: integers of 32 and 64 bits have equal hashes exactly
  when they are equal, floating point numbers exactly when they are equal, both zeros or
  both not a number, and intervals that \<open>operator==\<close> identifies hash alike.
\<close>

theorem Hash_scalar_correct:
  "(Hash_int64 i = Hash_int64 j \<longleftrightarrow> i = j) \<and>
   (Hash_int32 m = Hash_int32 n \<longleftrightarrow> m = n) \<and>
   (Hash_float u = Hash_float w \<longleftrightarrow>
      u = w \<or> float_is_zero u \<and> float_is_zero w \<or> float_isnan u \<and> float_isnan w) \<and>
   (Hash_double x = Hash_double y \<longleftrightarrow>
      x = y \<or> double_is_zero x \<and> double_is_zero y \<or> double_isnan x \<and> double_isnan y) \<and>
   (interval_eq a b \<longrightarrow> Hash_interval a = Hash_interval b)"
  using interval_eq_normal [of a b]
  by (auto simp: Hash_int64_def Hash_int32_def murmurhash32_def Hash_float_def Hash_double_def Hash_interval_def
      murmurhash64_eq_iff ucast_u32_inj FloatEqualityTransform_eq_iff DoubleEqualityTransform_eq_iff)

theorem Hash_scalar_correct_witness:
  "interval_eq \<lparr>months = 1, days = 0, micros = 0\<rparr> \<lparr>months = 0, days = 30, micros = 0\<rparr> \<and>
   Hash_interval \<lparr>months = 1, days = 0, micros = 0\<rparr> = Hash_interval \<lparr>months = 0, days = 30, micros = 0\<rparr>"
proof -
  have "interval_eq \<lparr>months = 1, days = 0, micros = 0\<rparr> \<lparr>months = 0, days = 30, micros = 0\<rparr>"
    by (simp add: interval_eq_def interval_Normalize_def DAYS_PER_MONTH_def MICROS_PER_MONTH_def MICROS_PER_DAY_def)
  then show ?thesis
    using Hash_scalar_correct [of 0 0 0 0 0 0 0 0 "\<lparr>months = 1, days = 0, micros = 0\<rparr>" "\<lparr>months = 0, days = 30, micros = 0\<rparr>"]
    by simp
qed

end
