(* ===== verification/Vector_Hash.thy ===== *)
theory Vector_Hash
  imports Hash_Value
begin

text \<open>
  The vectorised hash functions (common/vector_operations/vector_hash.cpp):
  \<open>VectorOperations::Hash\<close> hashes a column of a chunk, \<open>VectorOperations::CombineHash\<close>
  mixes a further column into the hashes.

  A column is a \<open>Vector\<close>: its physical form (flat, constant, or a dictionary with its
  selection), its validity mask (\<open>None\<close> when it was never allocated: all rows valid) and
  its data by \<open>PhysicalType\<close>. Sequence and FSST vectors are flattened by
  \<open>ToUnifiedFormat\<close> and stand for their flat form. The vector of hashes is flat or
  constant; an entry that was never written is \<open>None\<close>, and reading it is an error of the
  model, as is an access outside an array.
\<close>

section \<open>Vectors\<close>

datatype VectorType = FLAT_VECTOR | CONSTANT_VECTOR | DICTIONARY_VECTOR "nat list"

datatype Vector = Vector (vector_type: VectorType) (validity: "bool list option") (data: VectorData)
and VectorData =
    INT8 "8 word list"
  | INT16 "16 word list"
  | INT32 "32 word list"
  | INT64 "64 word list"
  | UINT8 "8 word list"
  | UINT16 "16 word list"
  | UINT32 "32 word list"
  | UINT64 "64 word list"
  | INT128 "hugeint_t list"
  | UINT128 "hugeint_t list"
  | FLOAT "u32 list"
  | DOUBLE "u64 list"
  | INTERVAL "interval_t list"
  | VARCHAR "u8 list list"
  | STRUCT "Vector list"
  | LIST "(nat \<times> nat) list" Vector nat
  | ARRAY nat Vector
  | INVALID

text \<open>What goes wrong: the exception of the type switch, memory read before it is written, an access outside an array.\<close>

datatype hash_error = InvalidTypeException | Uninitialised_memory | Out_of_bounds

type_synonym 'a hash_result = "hash_error + 'a"

definition read_at :: "'a list \<Rightarrow> nat \<Rightarrow> 'a hash_result" where
  "read_at xs i = (if i < length xs then Inr (xs ! i) else Inl Out_of_bounds)"

abbreviation bind_res :: "'e + 'a \<Rightarrow> ('a \<Rightarrow> 'e + 'b) \<Rightarrow> 'e + 'b" where
  "bind_res r f \<equiv> (case r of Inl e \<Rightarrow> Inl e | Inr x \<Rightarrow> f x)"

text \<open>A \<open>SelectionVector\<close>: without an array it is the identity.\<close>

type_synonym SelectionVector = "nat list option"

definition get_index :: "SelectionVector \<Rightarrow> nat \<Rightarrow> nat hash_result" where
  "get_index sel i = (case sel of None \<Rightarrow> Inr i | Some s \<Rightarrow> read_at s i)"

definition STANDARD_VECTOR_SIZE :: nat where "STANDARD_VECTOR_SIZE = 2048"

text \<open>\<open>ToUnifiedFormat\<close> gives the selection to read the data with.\<close>

definition unified_sel :: "VectorType \<Rightarrow> nat \<Rightarrow> SelectionVector" where
  "unified_sel t cnt =
     (case t of
        DICTIONARY_VECTOR sel \<Rightarrow> Some sel
      | CONSTANT_VECTOR \<Rightarrow> Some (replicate (max STANDARD_VECTOR_SIZE cnt) 0)
      | FLAT_VECTOR \<Rightarrow> None)"

definition RowIsValid :: "bool list option \<Rightarrow> nat \<Rightarrow> bool hash_result" where
  "RowIsValid vmask idx = (case vmask of None \<Rightarrow> Inr True | Some bits \<Rightarrow> read_at bits idx)"

record HashVector =
  is_constant :: bool
  hashes_of :: "hash_t option list"

definition read_hash :: "hash_t option list \<Rightarrow> nat \<Rightarrow> hash_t hash_result" where
  "read_hash hdata i = bind_res (read_at hdata i)
     (\<lambda>h. case h of None \<Rightarrow> Inl Uninitialised_memory | Some x \<Rightarrow> Inr x)"

definition write_hash :: "hash_t option list \<Rightarrow> nat \<Rightarrow> hash_t \<Rightarrow> hash_t option list hash_result" where
  "write_hash hdata i h = (if i < length hdata then Inr (hdata[i := Some h]) else Inl Out_of_bounds)"

section \<open>Scalar columns\<close>

definition NULL_HASH :: hash_t where "NULL_HASH = 0xbf58476d1ce4e5b9"

definition HashOp :: "('a \<Rightarrow> hash_t) \<Rightarrow> 'a \<Rightarrow> bool \<Rightarrow> hash_t" where
  "HashOp hash input is_null = (if is_null then NULL_HASH else hash input)"

definition CombineHashScalar :: "hash_t \<Rightarrow> hash_t \<Rightarrow> hash_t" where
  "CombineHashScalar a b = (a * 0xbf58476d1ce4e5b9) XOR b"

text \<open>The row that iteration \<open>i\<close> of a loop with \<open>HAS_RSEL\<close> handles; no selection means row \<open>i\<close>.\<close>

definition rsel_index :: "SelectionVector \<Rightarrow> nat \<Rightarrow> nat hash_result" where
  "rsel_index rsel i = get_index rsel i"

definition TightLoopHash :: "('a \<Rightarrow> hash_t) \<Rightarrow> 'a list \<Rightarrow> SelectionVector \<Rightarrow> nat \<Rightarrow> SelectionVector \<Rightarrow> bool list option \<Rightarrow>
    hash_t option list \<Rightarrow> hash_t option list hash_result" where
  "TightLoopHash hash ldata rsel cnt sel_vector vmask result_data =
     (if vmask \<noteq> None
      then for_res (\<lambda>i result_data.
             bind_res (rsel_index rsel i) (\<lambda>ridx.
             bind_res (get_index sel_vector ridx) (\<lambda>idx.
             bind_res (read_at ldata idx) (\<lambda>x.
             bind_res (RowIsValid vmask idx) (\<lambda>valid.
             write_hash result_data ridx (HashOp hash x (\<not> valid))))))) [0..<cnt] result_data
      else for_res (\<lambda>i result_data.
             bind_res (rsel_index rsel i) (\<lambda>ridx.
             bind_res (get_index sel_vector ridx) (\<lambda>idx.
             bind_res (read_at ldata idx) (\<lambda>x.
             write_hash result_data ridx (hash x))))) [0..<cnt] result_data)"

definition TemplatedLoopHash :: "('a \<Rightarrow> hash_t) \<Rightarrow> VectorType \<Rightarrow> bool list option \<Rightarrow> 'a list \<Rightarrow> SelectionVector \<Rightarrow> nat \<Rightarrow>
    HashVector \<Rightarrow> HashVector hash_result" where
  "TemplatedLoopHash hash vt vmask ldata rsel cnt result =
     (if vt = CONSTANT_VECTOR
      then bind_res (read_at ldata 0) (\<lambda>x.
           bind_res (RowIsValid vmask 0) (\<lambda>valid.
           bind_res (write_hash (hashes_of result) 0 (HashOp hash x (\<not> valid))) (\<lambda>d.
           Inr \<lparr> is_constant = True, hashes_of = d \<rparr>)))
      else bind_res (TightLoopHash hash ldata rsel cnt (unified_sel vt cnt) vmask (hashes_of result)) (\<lambda>d.
           Inr \<lparr> is_constant = False, hashes_of = d \<rparr>))"

definition TightLoopCombineHashConstant :: "('a \<Rightarrow> hash_t) \<Rightarrow> 'a list \<Rightarrow> hash_t \<Rightarrow> SelectionVector \<Rightarrow> nat \<Rightarrow>
    SelectionVector \<Rightarrow> bool list option \<Rightarrow> hash_t option list \<Rightarrow> hash_t option list hash_result" where
  "TightLoopCombineHashConstant hash ldata constant_hash rsel cnt sel_vector vmask hash_data =
     (if vmask \<noteq> None
      then for_res (\<lambda>i hash_data.
             bind_res (rsel_index rsel i) (\<lambda>ridx.
             bind_res (get_index sel_vector ridx) (\<lambda>idx.
             bind_res (read_at ldata idx) (\<lambda>x.
             bind_res (RowIsValid vmask idx) (\<lambda>valid.
             write_hash hash_data ridx (CombineHashScalar constant_hash (HashOp hash x (\<not> valid)))))))) [0..<cnt] hash_data
      else for_res (\<lambda>i hash_data.
             bind_res (rsel_index rsel i) (\<lambda>ridx.
             bind_res (get_index sel_vector ridx) (\<lambda>idx.
             bind_res (read_at ldata idx) (\<lambda>x.
             write_hash hash_data ridx (CombineHashScalar constant_hash (hash x)))))) [0..<cnt] hash_data)"

definition TightLoopCombineHash :: "('a \<Rightarrow> hash_t) \<Rightarrow> 'a list \<Rightarrow> SelectionVector \<Rightarrow> nat \<Rightarrow>
    SelectionVector \<Rightarrow> bool list option \<Rightarrow> hash_t option list \<Rightarrow> hash_t option list hash_result" where
  "TightLoopCombineHash hash ldata rsel cnt sel_vector vmask hash_data =
     (if vmask \<noteq> None
      then for_res (\<lambda>i hash_data.
             bind_res (rsel_index rsel i) (\<lambda>ridx.
             bind_res (get_index sel_vector ridx) (\<lambda>idx.
             bind_res (read_at ldata idx) (\<lambda>x.
             bind_res (RowIsValid vmask idx) (\<lambda>valid.
             bind_res (read_hash hash_data ridx) (\<lambda>h.
             write_hash hash_data ridx (CombineHashScalar h (HashOp hash x (\<not> valid))))))))) [0..<cnt] hash_data
      else for_res (\<lambda>i hash_data.
             bind_res (rsel_index rsel i) (\<lambda>ridx.
             bind_res (get_index sel_vector ridx) (\<lambda>idx.
             bind_res (read_at ldata idx) (\<lambda>x.
             bind_res (read_hash hash_data ridx) (\<lambda>h.
             write_hash hash_data ridx (CombineHashScalar h (hash x))))))) [0..<cnt] hash_data)"

definition TemplatedLoopCombineHash :: "('a \<Rightarrow> hash_t) \<Rightarrow> VectorType \<Rightarrow> bool list option \<Rightarrow> 'a list \<Rightarrow> SelectionVector \<Rightarrow> nat \<Rightarrow>
    HashVector \<Rightarrow> HashVector hash_result" where
  "TemplatedLoopCombineHash hash vt vmask ldata rsel cnt hashes =
     (if vt = CONSTANT_VECTOR \<and> is_constant hashes
      then bind_res (read_at ldata 0) (\<lambda>x.
           bind_res (RowIsValid vmask 0) (\<lambda>valid.
           bind_res (read_hash (hashes_of hashes) 0) (\<lambda>h.
           bind_res (write_hash (hashes_of hashes) 0 (CombineHashScalar h (HashOp hash x (\<not> valid)))) (\<lambda>d.
           Inr (hashes\<lparr>hashes_of := d\<rparr>)))))
      else if is_constant hashes
      then bind_res (read_hash (hashes_of hashes) 0) (\<lambda>constant_hash.
           bind_res (TightLoopCombineHashConstant hash ldata constant_hash rsel cnt (unified_sel vt cnt) vmask
             (hashes_of hashes)) (\<lambda>d.
           Inr \<lparr> is_constant = False, hashes_of = d \<rparr>))
      else bind_res (TightLoopCombineHash hash ldata rsel cnt (unified_sel vt cnt) vmask (hashes_of hashes)) (\<lambda>d.
           Inr (hashes\<lparr>hashes_of := d\<rparr>)))"

section \<open>List columns\<close>

text \<open>
  The first loop of \<open>ListLoopHash\<close> collects the rows whose list is not empty and where
  in the child their elements begin. Both are selection vectors filled from the front;
  the cursor has room for \<open>STANDARD_VECTOR_SIZE\<close> rows when there is a row selection.
\<close>

type_synonym list_cursors = "hash_t option list \<times> nat list \<times> (nat \<rightharpoonup> nat)"

definition list_start :: "bool \<Rightarrow> (nat \<times> nat) list \<Rightarrow> SelectionVector \<Rightarrow> bool list option \<Rightarrow> SelectionVector \<Rightarrow> nat \<Rightarrow>
    nat \<Rightarrow> list_cursors \<Rightarrow> list_cursors hash_result" where
  "list_start first ldata sel vmask rsel cnt i s =
     (case s of (hdata, unprocessed, cursor) \<Rightarrow>
        bind_res (rsel_index rsel i) (\<lambda>ridx.
        bind_res (get_index sel ridx) (\<lambda>lidx.
        bind_res (read_at ldata lidx) (\<lambda>entry.
        bind_res (RowIsValid vmask lidx) (\<lambda>valid.
          if valid \<and> snd entry > 0
          then if ridx < (case rsel of None \<Rightarrow> cnt | Some _ \<Rightarrow> STANDARD_VECTOR_SIZE)
               then Inr (hdata, unprocessed @ [ridx], cursor(ridx \<mapsto> fst entry))
               else Inl Out_of_bounds
          else if first then bind_res (write_hash hdata ridx NULL_HASH) (\<lambda>d. Inr (d, unprocessed, cursor))
          else Inr s)))))"

text \<open>
  One round over the unprocessed rows. \<open>combine\<close> says how the hash of the element under
  the cursor enters the hash of the row: it replaces it in the first round of a first
  hash, otherwise it is combined. The rows with elements left stay, in place, in
  \<open>unprocessed\<close>.
\<close>

definition list_step :: "bool \<Rightarrow> (nat \<times> nat) list \<Rightarrow> SelectionVector \<Rightarrow> hash_t option list \<Rightarrow> nat \<Rightarrow> nat \<Rightarrow>
    list_cursors \<Rightarrow> list_cursors hash_result" where
  "list_step replaces ldata sel chdata position ridx s =
     (case s of (hdata, unprocessed, cursor) \<Rightarrow>
        (case cursor ridx of
           None \<Rightarrow> Inl Uninitialised_memory
         | Some cidx \<Rightarrow>
             bind_res (read_hash chdata cidx) (\<lambda>ch.
             bind_res (if replaces then Inr ch
                       else bind_res (read_hash hdata ridx) (\<lambda>h. Inr (CombineHashScalar h ch))) (\<lambda>h'.
             bind_res (write_hash hdata ridx h') (\<lambda>hdata'.
             bind_res (get_index sel ridx) (\<lambda>lidx.
             bind_res (read_at ldata lidx) (\<lambda>entry.
               if snd entry > position
               then Inr (hdata', unprocessed @ [ridx], cursor(ridx \<mapsto> cidx + 1))
               else Inr (hdata', unprocessed, cursor))))))))"

definition list_round :: "bool \<Rightarrow> (nat \<times> nat) list \<Rightarrow> SelectionVector \<Rightarrow> hash_t option list \<Rightarrow> nat \<Rightarrow>
    list_cursors \<Rightarrow> list_cursors hash_result" where
  "list_round replaces ldata sel chdata position s =
     (case s of (hdata, unprocessed, cursor) \<Rightarrow>
        for_res (list_step replaces ldata sel chdata position) unprocessed (hdata, [], cursor))"

definition longest :: "(nat \<times> nat) list \<Rightarrow> nat" where
  "longest ldata = Max (insert 0 (snd ` set ldata))"

lemma list_step_remaining:
  assumes "list_step replaces ldata sel chdata position ridx (d, U, c) = Inr (d', U', c')"
    and "U \<noteq> [] \<Longrightarrow> position < longest ldata" and "U' \<noteq> []"
  shows "position < longest ldata"
proof (cases "U' = U")
  case True
  then show ?thesis using assms by simp
next
  case False
  then obtain lidx where "lidx < length ldata" "position < snd (ldata ! lidx)"
    using assms(1) by (auto simp: list_step_def read_at_def split: option.splits sum.splits if_splits)
  then have "snd (ldata ! lidx) \<le> longest ldata" by (auto simp: longest_def intro!: Max_ge)
  then show ?thesis using \<open>position < snd (ldata ! lidx)\<close> by simp
qed

lemma list_steps_remaining:
  assumes "for_res (list_step replaces ldata sel chdata position) rows (d, U, c) = Inr (d', U', c')"
    and "U \<noteq> [] \<Longrightarrow> position < longest ldata" and "U' \<noteq> []"
  shows "position < longest ldata"
  using assms
proof (induction rows arbitrary: d U c)
  case (Cons r rows)
  then obtain d1 U1 c1 where s: "list_step replaces ldata sel chdata position r (d, U, c) = Inr (d1, U1, c1)"
    and "for_res (list_step replaces ldata sel chdata position) rows (d1, U1, c1) = Inr (d', U', c')"
    by (auto split: sum.splits)
  then show ?case using Cons.IH [of d1 U1 c1] list_step_remaining [OF s] Cons.prems by blast
qed simp

text \<open>The loop over the positions, which ends when no row has elements left.\<close>

function list_loop :: "(nat \<times> nat) list \<Rightarrow> SelectionVector \<Rightarrow> hash_t option list \<Rightarrow> nat \<Rightarrow> list_cursors \<Rightarrow>
    hash_t option list hash_result" where
  "list_loop ldata sel chdata position s =
     (case list_round False ldata sel chdata position s of
        Inl e \<Rightarrow> Inl e
      | Inr (hdata, unprocessed, cursor) \<Rightarrow>
          if unprocessed = [] then Inr hdata
          else list_loop ldata sel chdata (Suc position) (hdata, unprocessed, cursor))"
  by pat_completeness auto
termination
proof (relation "measure (\<lambda>(ldata, sel, chdata, position, s). longest ldata - position)", goal_cases)
  case (2 ldata sel chdata position s r x xa y z)
  obtain d U c where s: "s = (d, U, c)" by (cases s)
  have "position < longest ldata"
    using 2 list_steps_remaining [of False ldata sel chdata position U d "[]" c] by (auto simp: list_round_def s)
  then show ?case by simp
qed simp

declare list_loop.simps [simp del]

definition ListLoopHash :: "bool \<Rightarrow> VectorType \<Rightarrow> bool list option \<Rightarrow> (nat \<times> nat) list \<Rightarrow> hash_t option list \<Rightarrow>
    SelectionVector \<Rightarrow> nat \<Rightarrow> HashVector \<Rightarrow> HashVector hash_result" where
  "ListLoopHash first vt vmask ldata chdata rsel cnt hashes =
     (let sel = unified_sel vt cnt in
      bind_res (for_res (list_start first ldata sel vmask rsel cnt) [0..<cnt] (hashes_of hashes, [], Map.empty)) (\<lambda>s.
        case s of (hdata, unprocessed, cursor) \<Rightarrow>
          if unprocessed = [] then Inr (hashes\<lparr>hashes_of := hdata\<rparr>)
          else if first
          then bind_res (list_round True ldata sel chdata 1 s) (\<lambda>s'.
                 case s' of (hdata', unprocessed', cursor') \<Rightarrow>
                   if unprocessed' = [] then Inr (hashes\<lparr>hashes_of := hdata'\<rparr>)
                   else bind_res (list_loop ldata sel chdata 2 s') (\<lambda>d. Inr (hashes\<lparr>hashes_of := d\<rparr>)))
          else bind_res (list_loop ldata sel chdata 1 s) (\<lambda>d. Inr (hashes\<lparr>hashes_of := d\<rparr>))))"

section \<open>Array columns\<close>

definition ArrayLoopHash :: "nat \<Rightarrow> hash_t option list \<Rightarrow> nat \<Rightarrow> HashVector \<Rightarrow> HashVector hash_result" where
  "ArrayLoopHash array_size chdata cnt hashes =
     bind_res (for_res (\<lambda>i. for_res (\<lambda>j hdata.
         bind_res (read_hash hdata i) (\<lambda>h.
         bind_res (read_hash chdata j) (\<lambda>ch.
         write_hash hdata i (CombineHashScalar h ch)))) [i * array_size..<(i + 1) * array_size]) [0..<cnt]
       (hashes_of hashes)) (\<lambda>d. Inr (hashes\<lparr>hashes_of := d\<rparr>))"

section \<open>The type switches\<close>

text \<open>A fresh vector of hashes, and \<open>Vector::Flatten\<close> on a vector of hashes.\<close>

definition fresh_hashes :: "nat \<Rightarrow> HashVector" where
  "fresh_hashes capacity = \<lparr> is_constant = False, hashes_of = replicate capacity None \<rparr>"

definition Flatten :: "nat \<Rightarrow> HashVector \<Rightarrow> HashVector hash_result" where
  "Flatten cnt hashes =
     (if is_constant hashes
      then bind_res (read_at (hashes_of hashes) 0) (\<lambda>h.
             Inr \<lparr> is_constant = False,
                   hashes_of = replicate cnt h @ replicate (STANDARD_VECTOR_SIZE - cnt) None \<rparr>)
      else Inr hashes)"

fun HashTypeSwitch :: "Vector \<Rightarrow> SelectionVector \<Rightarrow> nat \<Rightarrow> HashVector \<Rightarrow> HashVector hash_result"
  and CombineHashTypeSwitch :: "Vector \<Rightarrow> SelectionVector \<Rightarrow> nat \<Rightarrow> HashVector \<Rightarrow> HashVector hash_result"
  and StructLoopHash :: "bool \<Rightarrow> Vector list \<Rightarrow> SelectionVector \<Rightarrow> nat \<Rightarrow> HashVector \<Rightarrow> HashVector hash_result" where
  "HashTypeSwitch (Vector vt vmask d) rsel cnt result =
     (case d of
        INT8 xs \<Rightarrow> TemplatedLoopHash Hash_int8 vt vmask xs rsel cnt result
      | INT16 xs \<Rightarrow> TemplatedLoopHash Hash_int16 vt vmask xs rsel cnt result
      | INT32 xs \<Rightarrow> TemplatedLoopHash Hash_int32 vt vmask xs rsel cnt result
      | INT64 xs \<Rightarrow> TemplatedLoopHash Hash_int64 vt vmask xs rsel cnt result
      | UINT8 xs \<Rightarrow> TemplatedLoopHash Hash_uint8 vt vmask xs rsel cnt result
      | UINT16 xs \<Rightarrow> TemplatedLoopHash Hash_uint16 vt vmask xs rsel cnt result
      | UINT32 xs \<Rightarrow> TemplatedLoopHash Hash_uint32 vt vmask xs rsel cnt result
      | UINT64 xs \<Rightarrow> TemplatedLoopHash Hash_uint64 vt vmask xs rsel cnt result
      | INT128 xs \<Rightarrow> TemplatedLoopHash Hash_hugeint vt vmask xs rsel cnt result
      | UINT128 xs \<Rightarrow> TemplatedLoopHash Hash_uhugeint vt vmask xs rsel cnt result
      | FLOAT xs \<Rightarrow> TemplatedLoopHash Hash_float vt vmask xs rsel cnt result
      | DOUBLE xs \<Rightarrow> TemplatedLoopHash Hash_double vt vmask xs rsel cnt result
      | INTERVAL xs \<Rightarrow> TemplatedLoopHash Hash_interval vt vmask xs rsel cnt result
      | VARCHAR xs \<Rightarrow> TemplatedLoopHash Hash_string vt vmask xs rsel cnt result
      | STRUCT children \<Rightarrow> StructLoopHash True children rsel cnt result
      | LIST entries child child_count \<Rightarrow>
          bind_res (if child_count > 0
                    then bind_res (HashTypeSwitch child None child_count (fresh_hashes child_count)) (Flatten child_count)
                    else Inr (fresh_hashes child_count)) (\<lambda>child_hashes.
          ListLoopHash True vt vmask entries (hashes_of child_hashes) rsel cnt result)
      | ARRAY array_size child \<Rightarrow>
          bind_res (if array_size * cnt > 0
                    then bind_res (Flatten (array_size * cnt) (fresh_hashes (array_size * cnt)))
                           (HashTypeSwitch child None (array_size * cnt))
                    else Inr (fresh_hashes (array_size * cnt))) (\<lambda>child_hashes.
          ArrayLoopHash array_size (hashes_of child_hashes) cnt result)
      | INVALID \<Rightarrow> Inl InvalidTypeException)"
| "CombineHashTypeSwitch (Vector vt vmask d) rsel cnt hashes =
     (case d of
        INT8 xs \<Rightarrow> TemplatedLoopCombineHash Hash_int8 vt vmask xs rsel cnt hashes
      | INT16 xs \<Rightarrow> TemplatedLoopCombineHash Hash_int16 vt vmask xs rsel cnt hashes
      | INT32 xs \<Rightarrow> TemplatedLoopCombineHash Hash_int32 vt vmask xs rsel cnt hashes
      | INT64 xs \<Rightarrow> TemplatedLoopCombineHash Hash_int64 vt vmask xs rsel cnt hashes
      | UINT8 xs \<Rightarrow> TemplatedLoopCombineHash Hash_uint8 vt vmask xs rsel cnt hashes
      | UINT16 xs \<Rightarrow> TemplatedLoopCombineHash Hash_uint16 vt vmask xs rsel cnt hashes
      | UINT32 xs \<Rightarrow> TemplatedLoopCombineHash Hash_uint32 vt vmask xs rsel cnt hashes
      | UINT64 xs \<Rightarrow> TemplatedLoopCombineHash Hash_uint64 vt vmask xs rsel cnt hashes
      | INT128 xs \<Rightarrow> TemplatedLoopCombineHash Hash_hugeint vt vmask xs rsel cnt hashes
      | UINT128 xs \<Rightarrow> TemplatedLoopCombineHash Hash_uhugeint vt vmask xs rsel cnt hashes
      | FLOAT xs \<Rightarrow> TemplatedLoopCombineHash Hash_float vt vmask xs rsel cnt hashes
      | DOUBLE xs \<Rightarrow> TemplatedLoopCombineHash Hash_double vt vmask xs rsel cnt hashes
      | INTERVAL xs \<Rightarrow> TemplatedLoopCombineHash Hash_interval vt vmask xs rsel cnt hashes
      | VARCHAR xs \<Rightarrow> TemplatedLoopCombineHash Hash_string vt vmask xs rsel cnt hashes
      | STRUCT children \<Rightarrow> StructLoopHash False children rsel cnt hashes
      | LIST entries child child_count \<Rightarrow>
          bind_res (if child_count > 0
                    then bind_res (HashTypeSwitch child None child_count (fresh_hashes child_count)) (Flatten child_count)
                    else Inr (fresh_hashes child_count)) (\<lambda>child_hashes.
          ListLoopHash False vt vmask entries (hashes_of child_hashes) rsel cnt hashes)
      | ARRAY array_size child \<Rightarrow>
          bind_res (if array_size * cnt > 0
                    then bind_res (Flatten (array_size * cnt) (fresh_hashes (array_size * cnt)))
                           (HashTypeSwitch child None (array_size * cnt))
                    else Inr (fresh_hashes (array_size * cnt))) (\<lambda>child_hashes.
          ArrayLoopHash array_size (hashes_of child_hashes) cnt hashes)
      | INVALID \<Rightarrow> Inl InvalidTypeException)"
| "StructLoopHash first [] rsel cnt hashes = (if first then Inl Out_of_bounds else Inr hashes)"
| "StructLoopHash first (c # cs) rsel cnt hashes =
     bind_res (if first then HashTypeSwitch c rsel cnt hashes else CombineHashTypeSwitch c rsel cnt hashes)
       (StructLoopHash False cs rsel cnt)"

end
