(* ===== verification/Vector_Values.thy ===== *)
theory Vector_Values
  imports Vector_Hash
begin

text \<open>
  The values a vector holds, and the hash of a value. The hashes that
  \<open>VectorOperations::Hash\<close> and \<open>CombineHash\<close> compute are shown to be functions of the
  values alone: two columns with the same values have the same hashes, however either
  is represented. The predicates \<open>hash_ok\<close> and \<open>combine_ok\<close> say for which columns.
\<close>

section \<open>Values\<close>

datatype Scalar =
    S_INT8 "8 word" | S_INT16 "16 word" | S_INT32 "32 word" | S_INT64 "64 word"
  | S_UINT8 "8 word" | S_UINT16 "16 word" | S_UINT32 "32 word" | S_UINT64 "64 word"
  | S_INT128 hugeint_t | S_UINT128 hugeint_t | S_FLOAT u32 | S_DOUBLE u64
  | S_INTERVAL interval_t | S_VARCHAR "u8 list"

text \<open>\<open>None\<close> is the SQL null.\<close>

datatype Value = ScalarValue "Scalar option" | StructValue "Value list" | ListValue "Value list option"

definition row_index :: "VectorType \<Rightarrow> nat \<Rightarrow> nat option" where
  "row_index vt r =
     (case vt of
        FLAT_VECTOR \<Rightarrow> Some r
      | CONSTANT_VECTOR \<Rightarrow> Some 0
      | DICTIONARY_VECTOR s \<Rightarrow> if r < length s then Some (s ! r) else None)"

text \<open>The cell of row \<open>r\<close>: \<open>None\<close> when it lies outside the data, \<open>Some None\<close> when it is null.\<close>

definition cell_at :: "VectorType \<Rightarrow> bool list option \<Rightarrow> 'a list \<Rightarrow> nat \<Rightarrow> 'a option option" where
  "cell_at vt vmask xs r =
     (case row_index vt r of
        None \<Rightarrow> None
      | Some i \<Rightarrow>
          if i < length xs \<and> (case vmask of None \<Rightarrow> True | Some m \<Rightarrow> i < length m)
          then Some (if (case vmask of None \<Rightarrow> True | Some m \<Rightarrow> m ! i) then Some (xs ! i) else None)
          else None)"

definition scalar_at :: "('a \<Rightarrow> Scalar) \<Rightarrow> VectorType \<Rightarrow> bool list option \<Rightarrow> 'a list \<Rightarrow> nat \<Rightarrow> Value option" where
  "scalar_at con vt vmask xs r = map_option (\<lambda>c. ScalarValue (map_option con c)) (cell_at vt vmask xs r)"

fun row_value :: "Vector \<Rightarrow> nat \<Rightarrow> Value option" where
  "row_value (Vector vt vmask d) r =
     (case d of
        INT8 xs \<Rightarrow> scalar_at S_INT8 vt vmask xs r
      | INT16 xs \<Rightarrow> scalar_at S_INT16 vt vmask xs r
      | INT32 xs \<Rightarrow> scalar_at S_INT32 vt vmask xs r
      | INT64 xs \<Rightarrow> scalar_at S_INT64 vt vmask xs r
      | UINT8 xs \<Rightarrow> scalar_at S_UINT8 vt vmask xs r
      | UINT16 xs \<Rightarrow> scalar_at S_UINT16 vt vmask xs r
      | UINT32 xs \<Rightarrow> scalar_at S_UINT32 vt vmask xs r
      | UINT64 xs \<Rightarrow> scalar_at S_UINT64 vt vmask xs r
      | INT128 xs \<Rightarrow> scalar_at S_INT128 vt vmask xs r
      | UINT128 xs \<Rightarrow> scalar_at S_UINT128 vt vmask xs r
      | FLOAT xs \<Rightarrow> scalar_at S_FLOAT vt vmask xs r
      | DOUBLE xs \<Rightarrow> scalar_at S_DOUBLE vt vmask xs r
      | INTERVAL xs \<Rightarrow> scalar_at S_INTERVAL vt vmask xs r
      | VARCHAR xs \<Rightarrow> scalar_at S_VARCHAR vt vmask xs r
      | STRUCT cs \<Rightarrow>
          if row_index vt r = None then None else map_option StructValue (those (map (\<lambda>c. row_value c r) cs))
      | LIST entries child n \<Rightarrow>
          (case cell_at vt vmask entries r of
             None \<Rightarrow> None
           | Some None \<Rightarrow> Some (ListValue None)
           | Some (Some (off, len)) \<Rightarrow>
               if len = 0 then Some (ListValue (Some []))
               else if off + len \<le> n
               then map_option (\<lambda>vs. ListValue (Some vs)) (those (map (row_value child) [off..<off + len]))
               else None)
      | ARRAY _ _ \<Rightarrow> None
      | INVALID \<Rightarrow> None)"

definition hash_scalar :: "Scalar \<Rightarrow> hash_t" where
  "hash_scalar s =
     (case s of
        S_INT8 x \<Rightarrow> Hash_int8 x | S_INT16 x \<Rightarrow> Hash_int16 x | S_INT32 x \<Rightarrow> Hash_int32 x | S_INT64 x \<Rightarrow> Hash_int64 x
      | S_UINT8 x \<Rightarrow> Hash_uint8 x | S_UINT16 x \<Rightarrow> Hash_uint16 x | S_UINT32 x \<Rightarrow> Hash_uint32 x | S_UINT64 x \<Rightarrow> Hash_uint64 x
      | S_INT128 x \<Rightarrow> Hash_hugeint x | S_UINT128 x \<Rightarrow> Hash_uhugeint x | S_FLOAT x \<Rightarrow> Hash_float x | S_DOUBLE x \<Rightarrow> Hash_double x
      | S_INTERVAL x \<Rightarrow> Hash_interval x | S_VARCHAR x \<Rightarrow> Hash_string x)"

definition hash_cell :: "('a \<Rightarrow> hash_t) \<Rightarrow> 'a option \<Rightarrow> hash_t" where
  "hash_cell hash c = (case c of None \<Rightarrow> NULL_HASH | Some x \<Rightarrow> hash x)"

fun hash_value :: "Value \<Rightarrow> hash_t"
  and combine_value :: "hash_t \<Rightarrow> Value \<Rightarrow> hash_t"
  and combine_fields :: "hash_t \<Rightarrow> Value list \<Rightarrow> hash_t"
  and combine_items :: "hash_t \<Rightarrow> Value list \<Rightarrow> hash_t" where
  "hash_value (ScalarValue c) = hash_cell hash_scalar c"
| "hash_value (StructValue []) = NULL_HASH"
| "hash_value (StructValue (v # vs)) = combine_fields (hash_value v) vs"
| "hash_value (ListValue None) = NULL_HASH"
| "hash_value (ListValue (Some [])) = NULL_HASH"
| "hash_value (ListValue (Some (v # vs))) = combine_items (hash_value v) vs"
| "combine_value h (ScalarValue c) = CombineHashScalar h (hash_cell hash_scalar c)"
| "combine_value h (StructValue vs) = combine_fields h vs"
| "combine_value h (ListValue None) = h"
| "combine_value h (ListValue (Some vs)) = combine_items h vs"
| "combine_fields h [] = h"
| "combine_fields h (v # vs) = combine_fields (combine_value h v) vs"
| "combine_items h [] = h"
| "combine_items h (v # vs) = combine_items (CombineHashScalar h (hash_value v)) vs"

text \<open>
  Whether the vector of hashes is constant after a column was hashed into it, or combined
  with it, and the columns for which the hashes are defined. A list may not be combined
  into a constant vector of hashes: \<open>ListLoopHash\<close> takes it for a flat one.
\<close>

fun combine_form :: "bool \<Rightarrow> Vector \<Rightarrow> bool" and combine_forms :: "bool \<Rightarrow> Vector list \<Rightarrow> bool" where
  "combine_form k (Vector vt vmask d) =
     (case d of STRUCT cs \<Rightarrow> combine_forms k cs | LIST _ _ _ \<Rightarrow> k | _ \<Rightarrow> k \<and> vt = CONSTANT_VECTOR)"
| "combine_forms k [] = k"
| "combine_forms k (c # cs) = combine_forms (combine_form k c) cs"

fun hash_form :: "Vector \<Rightarrow> bool" where
  "hash_form (Vector vt vmask d) =
     (case d of
        STRUCT cs \<Rightarrow> (case cs of [] \<Rightarrow> False | c # cs' \<Rightarrow> combine_forms (hash_form c) cs')
      | LIST _ _ _ \<Rightarrow> False
      | _ \<Rightarrow> vt = CONSTANT_VECTOR)"

fun hash_ok :: "Vector \<Rightarrow> bool"
  and combine_ok :: "bool \<Rightarrow> Vector \<Rightarrow> bool"
  and combines_ok :: "bool \<Rightarrow> Vector list \<Rightarrow> bool" where
  "hash_ok (Vector vt vmask d) =
     (case d of
        STRUCT cs \<Rightarrow> (case cs of [] \<Rightarrow> False | c # cs' \<Rightarrow> hash_ok c \<and> combines_ok (hash_form c) cs')
      | LIST _ child n \<Rightarrow> hash_ok child \<and> list_all (\<lambda>j. row_value child j \<noteq> None) [0..<n]
      | ARRAY _ _ \<Rightarrow> False
      | INVALID \<Rightarrow> False
      | _ \<Rightarrow> True)"
| "combine_ok k (Vector vt vmask d) =
     (case d of
        STRUCT cs \<Rightarrow> combines_ok k cs
      | LIST _ child n \<Rightarrow> \<not> k \<and> hash_ok child \<and> list_all (\<lambda>j. row_value child j \<noteq> None) [0..<n]
      | ARRAY _ _ \<Rightarrow> False
      | INVALID \<Rightarrow> False
      | _ \<Rightarrow> True)"
| "combines_ok k [] = True"
| "combines_ok k (c # cs) \<longleftrightarrow> combine_ok k c \<and> combines_ok (combine_form k c) cs"

section \<open>Loops over the rows\<close>

definition rows_of :: "SelectionVector \<Rightarrow> nat \<Rightarrow> nat list" where
  "rows_of rsel cnt = (case rsel of None \<Rightarrow> [0..<cnt] | Some s \<Rightarrow> take cnt s)"

definition rows_ok :: "SelectionVector \<Rightarrow> nat \<Rightarrow> bool" where
  "rows_ok rsel cnt \<longleftrightarrow> cnt > 0 \<and>
     (case rsel of
        None \<Rightarrow> True
      | Some s \<Rightarrow> cnt \<le> length s \<and> distinct (take cnt s) \<and> list_all (\<lambda>r. r < STANDARD_VECTOR_SIZE) (take cnt s))"

lemma rows_distinct: "rows_ok rsel cnt \<Longrightarrow> distinct (rows_of rsel cnt)"
  by (auto simp: rows_ok_def rows_of_def split: option.splits)

lemma rows_nonempty: "rows_ok rsel cnt \<Longrightarrow> rows_of rsel cnt \<noteq> []"
  by (auto simp: rows_ok_def rows_of_def split: option.splits)

lemma rows_bound: "rows_ok rsel cnt \<Longrightarrow> r \<in> set (rows_of rsel cnt) \<Longrightarrow> r < max STANDARD_VECTOR_SIZE cnt"
  by (auto simp: rows_ok_def rows_of_def list_all_iff split: option.splits)

lemma for_res_map: "for_res F (map g xs) s = for_res (\<lambda>i. F (g i)) xs s"
  by (induction xs arbitrary: s) (auto split: sum.splits)

lemma for_res_cong:
  "(\<And>x s. x \<in> set xs \<Longrightarrow> F x s = G x s) \<Longrightarrow> for_res F xs s = for_res G xs s"
  by (induction xs arbitrary: s) (auto split: sum.splits)

lemma for_rows:
  assumes "rows_ok rsel cnt"
  shows "for_res (\<lambda>i d. bind_res (rsel_index rsel i) (\<lambda>r. F r d)) [0..<cnt] d = for_res F (rows_of rsel cnt) d"
proof -
  have rows: "rows_of rsel cnt = map (\<lambda>i. rows_of rsel cnt ! i) [0..<cnt]"
    using assms by (intro nth_equalityI) (auto simp: rows_ok_def rows_of_def split: option.splits)
  have "rsel_index rsel i = Inr (rows_of rsel cnt ! i)" if "i < cnt" for i
    using assms that
    by (auto simp: rsel_index_def get_index_def read_at_def rows_ok_def rows_of_def split: option.splits)
  then show ?thesis
    by (subst rows, subst for_res_map) (auto intro!: for_res_cong)
qed

text \<open>A loop that writes each row once, from what it finds there.\<close>

lemma for_rows_write:
  assumes "distinct rows" and "\<And>r. r \<in> set rows \<Longrightarrow> r < length d"
    and "\<And>r d'. r \<in> set rows \<Longrightarrow> length d' = length d \<Longrightarrow> d' ! r = d ! r \<Longrightarrow> F r d' = write_hash d' r (w r)"
  shows "\<exists>d2. for_res F rows d = Inr d2 \<and> length d2 = length d \<and>
    (\<forall>r < length d. d2 ! r = (if r \<in> set rows then Some (w r) else d ! r))"
  using assms
proof (induction rows arbitrary: d)
  case (Cons r rows)
  have F: "F r d = Inr (d[r := Some (w r)])"
    using Cons.prems(2) [of r] Cons.prems(3) [of r d] by (simp add: write_hash_def)
  have "\<exists>d2. for_res F rows (d[r := Some (w r)]) = Inr d2 \<and> length d2 = length (d[r := Some (w r)]) \<and>
      (\<forall>q < length (d[r := Some (w r)]). d2 ! q = (if q \<in> set rows then Some (w q) else d[r := Some (w r)] ! q))"
  proof (rule Cons.IH)
    show "F q d' = write_hash d' q (w q)"
      if "q \<in> set rows" and "length d' = length (d[r := Some (w r)])" and "d' ! q = d[r := Some (w r)] ! q" for q d'
    proof -
      have "q \<noteq> r" using that(1) Cons.prems(1) by auto
      then show ?thesis using that Cons.prems(3) [of q d'] by simp
    qed
  qed (use Cons.prems in auto)
  then show ?case using F Cons.prems(1) by (fastforce simp: nth_list_update)
qed simp

section \<open>Scalar columns\<close>

definition hashes_ok :: "HashVector \<Rightarrow> nat list \<Rightarrow> (nat \<Rightarrow> hash_t) \<Rightarrow> bool" where
  "hashes_ok hv rows h \<longleftrightarrow>
     (if is_constant hv then \<forall>r \<in> set rows. hashes_of hv ! 0 = Some (h r)
      else \<forall>r \<in> set rows. hashes_of hv ! r = Some (h r))"

definition room_for :: "HashVector \<Rightarrow> nat list \<Rightarrow> bool" where
  "room_for hv rows \<longleftrightarrow> 0 < length (hashes_of hv) \<and> (\<forall>r \<in> set rows. r < length (hashes_of hv))"

lemma cell_read:
  assumes "cell_at vt vmask xs r = Some c" and "rows_ok rsel cnt" and "r \<in> set (rows_of rsel cnt)"
  obtains idx where "get_index (unified_sel vt cnt) r = Inr idx" and "read_at xs idx = Inr (xs ! idx)"
    and "RowIsValid vmask idx = Inr (c \<noteq> None)" and "c \<noteq> None \<Longrightarrow> c = Some (xs ! idx)"
    and "vt = CONSTANT_VECTOR \<Longrightarrow> idx = 0"
proof -
  obtain i where i: "row_index vt r = Some i" "i < length xs" "case vmask of None \<Rightarrow> True | Some m \<Rightarrow> i < length m"
    "c = (if (case vmask of None \<Rightarrow> True | Some m \<Rightarrow> m ! i) then Some (xs ! i) else None)"
    using assms(1) by (auto simp: cell_at_def split: option.splits if_splits)
  have "get_index (unified_sel vt cnt) r = Inr i"
    using i(1) rows_bound [OF assms(2,3)]
    by (auto simp: row_index_def unified_sel_def get_index_def read_at_def split: VectorType.splits if_splits)
  moreover have "RowIsValid vmask i = Inr (c \<noteq> None)"
    using i(3,4) by (auto simp: RowIsValid_def read_at_def split: option.splits)
  moreover have "vt = CONSTANT_VECTOR \<Longrightarrow> i = 0" using i(1) by (simp add: row_index_def)
  ultimately show thesis
    using that [of i] i by (auto simp: read_at_def split: if_splits)
qed

lemma cell_valid: "cell_at vt None xs r = Some c \<Longrightarrow> c \<noteq> None"
  by (auto simp: cell_at_def split: option.splits if_splits)

lemma tight_loop_write:
  assumes "rows_ok rsel cnt" and "\<And>r. r \<in> set (rows_of rsel cnt) \<Longrightarrow> r < length d"
    and "\<And>r d'. r \<in> set (rows_of rsel cnt) \<Longrightarrow> length d' = length d \<Longrightarrow> d' ! r = d ! r \<Longrightarrow> F r d' = write_hash d' r (w r)"
  shows "\<exists>d2. for_res (\<lambda>i d. bind_res (rsel_index rsel i) (\<lambda>r. F r d)) [0..<cnt] d = Inr d2 \<and>
    length d2 = length d \<and> (\<forall>r \<in> set (rows_of rsel cnt). d2 ! r = Some (w r))"
proof -
  obtain d2 where d2: "for_res F (rows_of rsel cnt) d = Inr d2" "length d2 = length d"
    "\<And>r. r < length d \<Longrightarrow> d2 ! r = (if r \<in> set (rows_of rsel cnt) then Some (w r) else d ! r)"
    using for_rows_write [OF rows_distinct [OF assms(1)] assms(2), of F w] assms(3) by auto
  have "for_res (\<lambda>i d. bind_res (rsel_index rsel i) (\<lambda>r. F r d)) [0..<cnt] d = Inr d2"
    using d2(1) by (simp only: for_rows [OF assms(1)])
  moreover have "\<forall>r \<in> set (rows_of rsel cnt). d2 ! r = Some (w r)"
    using d2(3) assms(2) by auto
  ultimately show ?thesis using d2(2) by blast
qed

lemma TightLoopHash_ok:
  assumes "rows_ok rsel cnt" and "\<And>r. r \<in> set (rows_of rsel cnt) \<Longrightarrow> r < length d"
    and cells: "\<And>r. r \<in> set (rows_of rsel cnt) \<Longrightarrow> cell_at vt vmask xs r = Some (c r)"
  shows "\<exists>d2. TightLoopHash hash xs rsel cnt (unified_sel vt cnt) vmask d = Inr d2 \<and>
    length d2 = length d \<and> (\<forall>r \<in> set (rows_of rsel cnt). d2 ! r = Some (hash_cell hash (c r)))"
proof (cases vmask)
  case None
  have "bind_res (get_index (unified_sel vt cnt) r) (\<lambda>idx. bind_res (read_at xs idx) (\<lambda>x. write_hash d' r (hash x))) =
      write_hash d' r (hash_cell hash (c r))" if r: "r \<in> set (rows_of rsel cnt)" for r d'
    using cells [OF r] cell_valid [of vt xs r "c r"] None
    by (auto simp: hash_cell_def elim!: cell_read [OF _ assms(1) r])
  from tight_loop_write [OF assms(1,2) this] show ?thesis
    unfolding TightLoopHash_def using None by simp
next
  case (Some m)
  have "bind_res (get_index (unified_sel vt cnt) r) (\<lambda>idx. bind_res (read_at xs idx) (\<lambda>x.
      bind_res (RowIsValid vmask idx) (\<lambda>valid. write_hash d' r (HashOp hash x (\<not> valid))))) =
      write_hash d' r (hash_cell hash (c r))" if r: "r \<in> set (rows_of rsel cnt)" for r d'
    using cells [OF r]
    by (auto simp: hash_cell_def HashOp_def split: option.splits elim!: cell_read [OF _ assms(1) r])
  from tight_loop_write [OF assms(1,2) this] show ?thesis
    unfolding TightLoopHash_def using Some by simp
qed

lemma TightLoopCombineHashConstant_ok:
  assumes "rows_ok rsel cnt" and "\<And>r. r \<in> set (rows_of rsel cnt) \<Longrightarrow> r < length d"
    and cells: "\<And>r. r \<in> set (rows_of rsel cnt) \<Longrightarrow> cell_at vt vmask xs r = Some (c r)"
  shows "\<exists>d2. TightLoopCombineHashConstant hash xs k rsel cnt (unified_sel vt cnt) vmask d = Inr d2 \<and>
    length d2 = length d \<and>
    (\<forall>r \<in> set (rows_of rsel cnt). d2 ! r = Some (CombineHashScalar k (hash_cell hash (c r))))"
proof (cases vmask)
  case None
  have "bind_res (get_index (unified_sel vt cnt) r) (\<lambda>idx. bind_res (read_at xs idx) (\<lambda>x.
      write_hash d' r (CombineHashScalar k (hash x)))) =
      write_hash d' r (CombineHashScalar k (hash_cell hash (c r)))" if r: "r \<in> set (rows_of rsel cnt)" for r d'
    using cells [OF r] cell_valid [of vt xs r "c r"] None
    by (auto simp: hash_cell_def elim!: cell_read [OF _ assms(1) r])
  from tight_loop_write [OF assms(1,2) this] show ?thesis
    unfolding TightLoopCombineHashConstant_def using None by simp
next
  case (Some m)
  have "bind_res (get_index (unified_sel vt cnt) r) (\<lambda>idx. bind_res (read_at xs idx) (\<lambda>x.
      bind_res (RowIsValid vmask idx) (\<lambda>valid. write_hash d' r (CombineHashScalar k (HashOp hash x (\<not> valid)))))) =
      write_hash d' r (CombineHashScalar k (hash_cell hash (c r)))" if r: "r \<in> set (rows_of rsel cnt)" for r d'
    using cells [OF r]
    by (auto simp: hash_cell_def HashOp_def split: option.splits elim!: cell_read [OF _ assms(1) r])
  from tight_loop_write [OF assms(1,2) this] show ?thesis
    unfolding TightLoopCombineHashConstant_def using Some by simp
qed

lemma TightLoopCombineHash_ok:
  assumes "rows_ok rsel cnt" and room: "\<And>r. r \<in> set (rows_of rsel cnt) \<Longrightarrow> r < length d"
    and cells: "\<And>r. r \<in> set (rows_of rsel cnt) \<Longrightarrow> cell_at vt vmask xs r = Some (c r)"
    and old: "\<And>r. r \<in> set (rows_of rsel cnt) \<Longrightarrow> d ! r = Some (h r)"
  shows "\<exists>d2. TightLoopCombineHash hash xs rsel cnt (unified_sel vt cnt) vmask d = Inr d2 \<and>
    length d2 = length d \<and>
    (\<forall>r \<in> set (rows_of rsel cnt). d2 ! r = Some (CombineHashScalar (h r) (hash_cell hash (c r))))"
proof (cases vmask)
  case None
  let ?F = "\<lambda>r d'. bind_res (get_index (unified_sel vt cnt) r) (\<lambda>idx. bind_res (read_at xs idx) (\<lambda>x.
      bind_res (read_hash d' r) (\<lambda>h. write_hash d' r (CombineHashScalar h (hash x)))))"
  have step: "?F r d' = write_hash d' r (CombineHashScalar (h r) (hash_cell hash (c r)))"
    if r: "r \<in> set (rows_of rsel cnt)" and "length d' = length d" and "d' ! r = d ! r" for r d'
  proof -
    have "read_hash d' r = Inr (h r)" using old [OF r] room [OF r] that by (simp add: read_hash_def read_at_def)
    with cells [OF r] cell_valid [of vt xs r "c r"] None show ?thesis
      by (auto simp: hash_cell_def elim!: cell_read [OF _ assms(1) r])
  qed
  note loop = tight_loop_write [of rsel cnt d ?F "\<lambda>r. CombineHashScalar (h r) (hash_cell hash (c r))", OF assms(1) room step]
  have eq: "TightLoopCombineHash hash xs rsel cnt (unified_sel vt cnt) vmask d =
      for_res (\<lambda>i d. bind_res (rsel_index rsel i) (\<lambda>r. ?F r d)) [0..<cnt] d"
    unfolding TightLoopCombineHash_def by (rule if_not_P) (simp add: None)
  show ?thesis unfolding eq by (rule loop)
next
  case (Some m)
  let ?F = "\<lambda>r d'. bind_res (get_index (unified_sel vt cnt) r) (\<lambda>idx. bind_res (read_at xs idx) (\<lambda>x.
      bind_res (RowIsValid vmask idx) (\<lambda>valid. bind_res (read_hash d' r) (\<lambda>h.
      write_hash d' r (CombineHashScalar h (HashOp hash x (\<not> valid)))))))"
  have step: "?F r d' = write_hash d' r (CombineHashScalar (h r) (hash_cell hash (c r)))"
    if r: "r \<in> set (rows_of rsel cnt)" and "length d' = length d" and "d' ! r = d ! r" for r d'
  proof -
    have "read_hash d' r = Inr (h r)" using old [OF r] room [OF r] that by (simp add: read_hash_def read_at_def)
    with cells [OF r] show ?thesis
      by (auto simp: hash_cell_def HashOp_def split: option.splits elim!: cell_read [OF _ assms(1) r])
  qed
  note loop = tight_loop_write [of rsel cnt d ?F "\<lambda>r. CombineHashScalar (h r) (hash_cell hash (c r))", OF assms(1) room step]
  have eq: "TightLoopCombineHash hash xs rsel cnt (unified_sel vt cnt) vmask d =
      for_res (\<lambda>i d. bind_res (rsel_index rsel i) (\<lambda>r. ?F r d)) [0..<cnt] d"
    unfolding TightLoopCombineHash_def by (rule if_P) (simp add: Some)
  show ?thesis unfolding eq by (rule loop)
qed

text \<open>The row of a constant column that stands for all rows.\<close>

lemma constant_cell:
  assumes "cell_at CONSTANT_VECTOR vmask xs r = Some c"
  shows "read_at xs 0 = Inr (xs ! 0)" and "RowIsValid vmask 0 = Inr (c \<noteq> None)"
    and "HashOp hash (xs ! 0) (\<not> c \<noteq> None) = hash_cell hash c"
  using assms by (auto simp: cell_at_def row_index_def read_at_def RowIsValid_def HashOp_def hash_cell_def
      split: option.splits if_splits)

lemma constant_cells_equal:
  "cell_at CONSTANT_VECTOR vmask xs r = cell_at CONSTANT_VECTOR vmask xs q"
  by (simp add: cell_at_def row_index_def)

lemma TemplatedLoopHash_ok:
  assumes rows: "rows_ok rsel cnt" and room: "room_for result (rows_of rsel cnt)"
    and cells: "\<And>r. r \<in> set (rows_of rsel cnt) \<Longrightarrow> cell_at vt vmask xs r = Some (c r)"
  shows "\<exists>h'. TemplatedLoopHash hash vt vmask xs rsel cnt result = Inr h' \<and>
    is_constant h' = (vt = CONSTANT_VECTOR) \<and> length (hashes_of h') = length (hashes_of result) \<and>
    hashes_ok h' (rows_of rsel cnt) (\<lambda>r. hash_cell hash (c r))"
proof (cases "vt = CONSTANT_VECTOR")
  case True
  obtain r where r: "r \<in> set (rows_of rsel cnt)" using rows_nonempty [OF rows] by (cases "rows_of rsel cnt") auto
  have same: "c q = c r" if "q \<in> set (rows_of rsel cnt)" for q
    using cells [OF that] cells [OF r] constant_cells_equal [of vmask xs q r] True by simp
  note cc = constant_cell [of vmask xs r "c r"]
  show ?thesis
    using cells [OF r] cc room True same
    by (auto simp: TemplatedLoopHash_def write_hash_def room_for_def hashes_ok_def)
next
  case False
  obtain d2 where "TightLoopHash hash xs rsel cnt (unified_sel vt cnt) vmask (hashes_of result) = Inr d2"
    "length d2 = length (hashes_of result)" "\<forall>r \<in> set (rows_of rsel cnt). d2 ! r = Some (hash_cell hash (c r))"
    using TightLoopHash_ok [where hash = hash and d = "hashes_of result", OF rows _ cells] room by (auto simp: room_for_def)
  then show ?thesis using False by (simp add: TemplatedLoopHash_def hashes_ok_def)
qed

lemma TemplatedLoopCombineHash_ok:
  assumes rows: "rows_ok rsel cnt" and room: "room_for hashes (rows_of rsel cnt)"
    and cells: "\<And>r. r \<in> set (rows_of rsel cnt) \<Longrightarrow> cell_at vt vmask xs r = Some (c r)"
    and old: "hashes_ok hashes (rows_of rsel cnt) h"
  shows "\<exists>h'. TemplatedLoopCombineHash hash vt vmask xs rsel cnt hashes = Inr h' \<and>
    is_constant h' = (is_constant hashes \<and> vt = CONSTANT_VECTOR) \<and> length (hashes_of h') = length (hashes_of hashes) \<and>
    hashes_ok h' (rows_of rsel cnt) (\<lambda>r. CombineHashScalar (h r) (hash_cell hash (c r)))"
proof -
  obtain r where r: "r \<in> set (rows_of rsel cnt)" using rows_nonempty [OF rows] by (cases "rows_of rsel cnt") auto
  have k0: "hashes_of hashes ! 0 = Some (h q)" if "is_constant hashes" and "q \<in> set (rows_of rsel cnt)" for q
    using old that by (simp add: hashes_ok_def)
  have k: "read_hash (hashes_of hashes) 0 = Inr (h r)" "\<And>q. q \<in> set (rows_of rsel cnt) \<Longrightarrow> h q = h r" if "is_constant hashes"
    using k0 [OF that r] k0 [OF that] room by (auto simp: read_hash_def read_at_def room_for_def)
  consider (both) "is_constant hashes" "vt = CONSTANT_VECTOR" | (mixed) "is_constant hashes" "vt \<noteq> CONSTANT_VECTOR"
    | (flat) "\<not> is_constant hashes" by blast
  then show ?thesis
  proof cases
    case both
    have same: "c q = c r" if "q \<in> set (rows_of rsel cnt)" for q
      using cells [OF that] cells [OF r] constant_cells_equal [of vmask xs q r] both by simp
    show ?thesis
      using cells [OF r] constant_cell [of vmask xs r "c r"] room both same k
      by (auto simp: TemplatedLoopCombineHash_def write_hash_def room_for_def hashes_ok_def)
  next
    case mixed
    obtain d2 where "TightLoopCombineHashConstant hash xs (h r) rsel cnt (unified_sel vt cnt) vmask (hashes_of hashes) = Inr d2"
      "length d2 = length (hashes_of hashes)"
      "\<forall>q \<in> set (rows_of rsel cnt). d2 ! q = Some (CombineHashScalar (h r) (hash_cell hash (c q)))"
      using TightLoopCombineHashConstant_ok [where hash = hash and k = "h r" and d = "hashes_of hashes", OF rows _ cells] room by (auto simp: room_for_def)
    then show ?thesis using mixed k by (auto simp: TemplatedLoopCombineHash_def hashes_ok_def)
  next
    case flat
    obtain d2 where "TightLoopCombineHash hash xs rsel cnt (unified_sel vt cnt) vmask (hashes_of hashes) = Inr d2"
      "length d2 = length (hashes_of hashes)"
      "\<forall>q \<in> set (rows_of rsel cnt). d2 ! q = Some (CombineHashScalar (h q) (hash_cell hash (c q)))"
      using TightLoopCombineHash_ok [where hash = hash and h = h and d = "hashes_of hashes", OF rows _ cells] room old flat
      by (auto simp: room_for_def hashes_ok_def)
    then show ?thesis using flat by (auto simp: TemplatedLoopCombineHash_def hashes_ok_def)
  qed
qed

end
