(* ===== verification/List_Hash.thy ===== *)
theory List_Hash
  imports Vector_Values
begin

text \<open>
  The loops over the elements of list columns: \<open>ListLoopHash\<close> walks all rows in
  lockstep, one position at a time, and gives every row the hash of its own elements in
  their order.
\<close>

definition entry_len :: "(nat \<times> nat) option \<Rightarrow> nat" where
  "entry_len c = (case c of None \<Rightarrow> 0 | Some e \<Rightarrow> snd e)"

definition entry_off :: "(nat \<times> nat) option \<Rightarrow> nat" where
  "entry_off c = (case c of None \<Rightarrow> 0 | Some e \<Rightarrow> fst e)"

definition fold_elements :: "(nat \<Rightarrow> hash_t) \<Rightarrow> hash_t \<Rightarrow> nat list \<Rightarrow> hash_t" where
  "fold_elements ch h js = foldl (\<lambda>a j. CombineHashScalar a (ch j)) h js"

definition list_hash :: "bool \<Rightarrow> (nat \<Rightarrow> hash_t) \<Rightarrow> hash_t \<Rightarrow> (nat \<times> nat) option \<Rightarrow> hash_t" where
  "list_hash first ch h c =
     (if entry_len c = 0 then if first then NULL_HASH else h
      else if first then fold_elements ch (ch (entry_off c)) [Suc (entry_off c)..<entry_off c + entry_len c]
      else fold_elements ch h [entry_off c..<entry_off c + entry_len c])"

section \<open>Collecting the rows\<close>

definition start_row :: "bool \<Rightarrow> (nat \<times> nat) list \<Rightarrow> SelectionVector \<Rightarrow> bool list option \<Rightarrow> SelectionVector \<Rightarrow> nat \<Rightarrow>
    nat \<Rightarrow> list_cursors \<Rightarrow> list_cursors hash_result" where
  "start_row first ldata sel vmask rsel cnt ridx s =
     (case s of (hdata, unprocessed, cursor) \<Rightarrow>
        bind_res (get_index sel ridx) (\<lambda>lidx.
        bind_res (read_at ldata lidx) (\<lambda>entry.
        bind_res (RowIsValid vmask lidx) (\<lambda>valid.
          if valid \<and> snd entry > 0
          then if ridx < (case rsel of None \<Rightarrow> cnt | Some _ \<Rightarrow> STANDARD_VECTOR_SIZE)
               then Inr (hdata, unprocessed @ [ridx], cursor(ridx \<mapsto> fst entry))
               else Inl Out_of_bounds
          else if first then bind_res (write_hash hdata ridx NULL_HASH) (\<lambda>d. Inr (d, unprocessed, cursor))
          else Inr s))))"

lemma list_start_row:
  "list_start first ldata sel vmask rsel cnt i s =
     bind_res (rsel_index rsel i) (\<lambda>r. start_row first ldata sel vmask rsel cnt r s)"
  by (cases s; cases "rsel_index rsel i") (simp_all add: list_start_def start_row_def)

lemma start_row_ok:
  assumes "rows_ok rsel cnt" and r: "r \<in> set (rows_of rsel cnt)" and "cell_at vt vmask ldata r = Some c" and "r < length d"
  shows "start_row first ldata (unified_sel vt cnt) vmask rsel cnt r (d, U, cur) =
    Inr (if entry_len c > 0 then (d, U @ [r], cur(r \<mapsto> entry_off c))
         else if first then (d[r := Some NULL_HASH], U, cur) else (d, U, cur))"
proof -
  have "r < (case rsel of None \<Rightarrow> cnt | Some _ \<Rightarrow> STANDARD_VECTOR_SIZE)"
    using assms(1) r by (auto simp: rows_ok_def rows_of_def list_all_iff split: option.splits)
  moreover obtain idx where "get_index (unified_sel vt cnt) r = Inr idx" "read_at ldata idx = Inr (ldata ! idx)"
    "RowIsValid vmask idx = Inr (c \<noteq> None)" "c \<noteq> None \<Longrightarrow> c = Some (ldata ! idx)"
    by (rule cell_read [OF assms(3,1) r]) blast
  ultimately show ?thesis
    using assms(4) by (cases c) (auto simp: start_row_def entry_len_def entry_off_def write_hash_def)
qed

lemma start_rows_ok:
  assumes "rows_ok rsel cnt" and "set rows \<subseteq> set (rows_of rsel cnt)" and "distinct rows"
    and "\<And>r. r \<in> set rows \<Longrightarrow> cell_at vt vmask ldata r = Some (c r)" and "\<And>r. r \<in> set rows \<Longrightarrow> r < length d"
  shows "\<exists>d' cur'. for_res (start_row first ldata (unified_sel vt cnt) vmask rsel cnt) rows (d, U, cur) =
      Inr (d', U @ filter (\<lambda>r. entry_len (c r) > 0) rows, cur') \<and> length d' = length d \<and>
    (\<forall>r. d' ! r = (if r \<in> set rows \<and> entry_len (c r) = 0 \<and> first then Some NULL_HASH else d ! r)) \<and>
    (\<forall>r. cur' r = (if r \<in> set rows \<and> entry_len (c r) > 0 then Some (entry_off (c r)) else cur r))"
  using assms(2-)
proof (induction rows arbitrary: d U cur)
  case (Cons r rows)
  define s where "s = (if entry_len (c r) > 0 then (d, U @ [r], cur(r \<mapsto> entry_off (c r)))
         else if first then (d[r := Some NULL_HASH], U, cur) else (d, U, cur))"
  have step: "start_row first ldata (unified_sel vt cnt) vmask rsel cnt r (d, U, cur) = Inr s"
    unfolding s_def using Cons.prems by (intro start_row_ok [OF assms(1)]) auto
  obtain d1 U1 cur1 where s: "s = (d1, U1, cur1)" by (cases s)
  have l1: "length d1 = length d" using s by (auto simp: s_def split: if_splits)
  from Cons.IH [of d1 U1 cur1] Cons.prems l1 obtain d' cur' where
    IH: "for_res (start_row first ldata (unified_sel vt cnt) vmask rsel cnt) rows (d1, U1, cur1) =
      Inr (d', U1 @ filter (\<lambda>r. entry_len (c r) > 0) rows, cur')" "length d' = length d1"
    "\<And>q. d' ! q = (if q \<in> set rows \<and> entry_len (c q) = 0 \<and> first then Some NULL_HASH else d1 ! q)"
    "\<And>q. cur' q = (if q \<in> set rows \<and> entry_len (c q) > 0 then Some (entry_off (c q)) else cur1 q)"
    by auto
  have "r < length d" using Cons.prems by simp
  then have "d' ! q = (if q \<in> set (r # rows) \<and> entry_len (c q) = 0 \<and> first then Some NULL_HASH else d ! q)" for q
    using IH(3) [of q] s Cons.prems(2) by (auto simp: s_def nth_list_update split: if_splits)
  moreover have "cur' q = (if q \<in> set (r # rows) \<and> entry_len (c q) > 0 then Some (entry_off (c q)) else cur q)" for q
    using IH(4) [of q] s Cons.prems(2) by (auto simp: s_def split: if_splits)
  moreover have "U1 @ filter (\<lambda>r. entry_len (c r) > 0) rows = U @ filter (\<lambda>r. entry_len (c r) > 0) (r # rows)"
    using s by (auto simp: s_def split: if_splits)
  ultimately show ?case using step IH(1,2) s l1 by simp
qed simp

section \<open>The rounds\<close>

lemma list_step_ok:
  assumes "get_index sel r = Inr l" and "l < length ldata" and "ldata ! l = (off, len)"
    and "cur r = Some k" and "k < length chdata" and "chdata ! k = Some (ch k)" and "r < length d"
    and "\<not> replaces \<Longrightarrow> d ! r = Some h"
  shows "list_step replaces ldata sel chdata position r (d, U, cur) =
    Inr (d[r := Some (if replaces then ch k else CombineHashScalar h (ch k))],
         if len > position then U @ [r] else U, if len > position then cur(r \<mapsto> k + 1) else cur)"
  using assms by (auto simp: list_step_def read_hash_def read_at_def write_hash_def)

text \<open>The entries of the rows that are still processed, and where their cursors stand.\<close>

definition cursors_ok :: "(nat \<times> nat) list \<Rightarrow> SelectionVector \<Rightarrow> hash_t option list \<Rightarrow> (nat \<Rightarrow> hash_t) \<Rightarrow> (nat \<Rightarrow> nat \<times> nat) \<Rightarrow>
    nat \<Rightarrow> nat list \<Rightarrow> (nat \<rightharpoonup> nat) \<Rightarrow> nat \<Rightarrow> bool" where
  "cursors_ok ldata sel chdata ch entry position rows cur room \<longleftrightarrow>
     distinct rows \<and>
     (\<forall>r \<in> set rows. r < room \<and> (\<exists>l. get_index sel r = Inr l \<and> l < length ldata \<and> ldata ! l = entry r) \<and>
        position < snd (entry r) \<and> fst (entry r) + snd (entry r) \<le> length chdata \<and>
        cur r = Some (fst (entry r) + position)) \<and>
     (\<forall>r \<in> set rows. \<forall>j. fst (entry r) \<le> j \<and> j < fst (entry r) + snd (entry r) \<longrightarrow> chdata ! j = Some (ch j))"

lemma list_steps_ok:
  assumes "cursors_ok ldata sel chdata ch entry position rows cur (length d)"
    and "\<And>r. r \<in> set rows \<Longrightarrow> \<not> replaces \<Longrightarrow> d ! r = Some (h r)"
  shows "\<exists>d' cur'. for_res (list_step replaces ldata sel chdata (Suc position)) rows (d, U, cur) =
      Inr (d', U @ filter (\<lambda>r. Suc position < snd (entry r)) rows, cur') \<and> length d' = length d \<and>
    (\<forall>r. d' ! r = (if r \<in> set rows
       then Some (if replaces then ch (fst (entry r) + position)
                  else CombineHashScalar (h r) (ch (fst (entry r) + position))) else d ! r)) \<and>
    (\<forall>r. cur' r = (if r \<in> set rows \<and> Suc position < snd (entry r) then Some (fst (entry r) + Suc position) else cur r))"
  using assms
proof (induction rows arbitrary: d U cur)
  case (Cons r rows)
  obtain off len where e: "entry r = (off, len)" by (cases "entry r")
  obtain l where l: "get_index sel r = Inr l" "l < length ldata" "ldata ! l = (off, len)" "r < length d"
    "cur r = Some (off + position)" "off + position < length chdata" "chdata ! (off + position) = Some (ch (off + position))"
    using Cons.prems(1) e by (fastforce simp: cursors_ok_def)
  define d1 where "d1 = d[r := Some (if replaces then ch (off + position) else CombineHashScalar (h r) (ch (off + position)))]"
  define U1 where "U1 = (if len > Suc position then U @ [r] else U)"
  define cur1 where "cur1 = (if len > Suc position then cur(r \<mapsto> off + position + 1) else cur)"
  have step: "list_step replaces ldata sel chdata (Suc position) r (d, U, cur) = Inr (d1, U1, cur1)"
    unfolding d1_def U1_def cur1_def using l Cons.prems(2) by (intro list_step_ok) auto
  have fresh: "r \<notin> set rows" using Cons.prems(1) by (simp add: cursors_ok_def)
  have "cursors_ok ldata sel chdata ch entry position rows cur1 (length d1)"
    using Cons.prems(1) fresh by (auto simp: cursors_ok_def cur1_def d1_def)
  moreover have "d1 ! q = Some (h q)" if "q \<in> set rows" "\<not> replaces" for q
    using Cons.prems(2) [of q] that fresh by (cases "q = r") (auto simp: d1_def)
  ultimately obtain d' cur' where
    IH: "for_res (list_step replaces ldata sel chdata (Suc position)) rows (d1, U1, cur1) =
      Inr (d', U1 @ filter (\<lambda>r. Suc position < snd (entry r)) rows, cur')" "length d' = length d1"
    "\<And>q. d' ! q = (if q \<in> set rows
       then Some (if replaces then ch (fst (entry q) + position)
                  else CombineHashScalar (h q) (ch (fst (entry q) + position))) else d1 ! q)"
    "\<And>q. cur' q = (if q \<in> set rows \<and> Suc position < snd (entry q) then Some (fst (entry q) + Suc position) else cur1 q)"
    using Cons.IH [of cur1 d1 U1] by blast
  have "d' ! q = (if q \<in> set (r # rows)
       then Some (if replaces then ch (fst (entry q) + position)
                  else CombineHashScalar (h q) (ch (fst (entry q) + position))) else d ! q)" for q
    using IH(3) [of q] fresh l(4) e by (auto simp: d1_def nth_list_update)
  moreover have "cur' q = (if q \<in> set (r # rows) \<and> Suc position < snd (entry q)
      then Some (fst (entry q) + Suc position) else cur q)" for q
    using IH(4) [of q] fresh e by (auto simp: cur1_def)
  moreover have "length d' = length d" using IH(2) by (simp add: d1_def)
  moreover have "U1 @ filter (\<lambda>r. Suc position < snd (entry r)) rows = U @ filter (\<lambda>r. Suc position < snd (entry r)) (r # rows)"
    using e by (simp add: U1_def)
  ultimately show ?case using step IH(1) by simp
qed simp

lemma cursors_next:
  assumes "cursors_ok ldata sel chdata ch entry position rows cur n"
    and "\<forall>r. cur' r = (if r \<in> set rows \<and> Suc position < snd (entry r) then Some (fst (entry r) + Suc position) else cur r)"
  shows "cursors_ok ldata sel chdata ch entry (Suc position) (filter (\<lambda>r. Suc position < snd (entry r)) rows) cur' n"
  using assms by (auto simp: cursors_ok_def)

lemma list_loop_ok:
  assumes "cursors_ok ldata sel chdata ch entry position rows cur (length d)"
    and "\<And>r. r \<in> set rows \<Longrightarrow> d ! r = Some (h r)"
  shows "\<exists>d'. list_loop ldata sel chdata (Suc position) (d, rows, cur) = Inr d' \<and> length d' = length d \<and>
    (\<forall>r. d' ! r = (if r \<in> set rows
       then Some (fold_elements ch (h r) [fst (entry r) + position..<fst (entry r) + snd (entry r)]) else d ! r))"
  using assms
proof (induction "longest ldata - position" arbitrary: position rows cur d h rule: less_induct)
  case less
  obtain d1 cur1 where
    round: "list_round False ldata sel chdata (Suc position) (d, rows, cur) =
      Inr (d1, filter (\<lambda>r. Suc position < snd (entry r)) rows, cur1)" "length d1 = length d"
    "\<And>r. d1 ! r = (if r \<in> set rows then Some (CombineHashScalar (h r) (ch (fst (entry r) + position))) else d ! r)"
    "\<And>r. cur1 r = (if r \<in> set rows \<and> Suc position < snd (entry r) then Some (fst (entry r) + Suc position) else cur r)"
    using list_steps_ok [of ldata sel chdata ch entry position rows cur d False h "[]"] less.prems
    by (auto simp: list_round_def)
  let ?U = "filter (\<lambda>r. Suc position < snd (entry r)) rows"
  have pos: "position < snd (entry r)" if "r \<in> set rows" for r
    using less.prems(1) that by (auto simp: cursors_ok_def)
  have unfold: "fold_elements ch x [fst (entry r) + position..<fst (entry r) + snd (entry r)] =
      fold_elements ch (CombineHashScalar x (ch (fst (entry r) + position)))
        [fst (entry r) + Suc position..<fst (entry r) + snd (entry r)]" if "r \<in> set rows" for r x
    using pos [OF that] by (simp add: fold_elements_def upt_conv_Cons)
  have rest: "d1 ! r = Some (fold_elements ch (h r) [fst (entry r) + position..<fst (entry r) + snd (entry r)])"
    if "r \<in> set rows" "r \<notin> set ?U" for r
    using that round(3) [of r] unfold [of r "h r"] by (simp add: fold_elements_def)
  show ?case
  proof (cases "?U = []")
    case True
    then have "list_loop ldata sel chdata (Suc position) (d, rows, cur) = Inr d1"
      by (simp add: list_loop.simps [of ldata sel chdata "Suc position"] round(1))
    then show ?thesis using round(2,3) rest True by (metis empty_iff list.set(1))
  next
    case False
    then obtain r where r: "r \<in> set ?U" by (cases ?U) auto
    obtain l where "l < length ldata" "ldata ! l = entry r"
      using less.prems(1) r by (auto simp: cursors_ok_def)
    then have "entry r \<in> set ldata" by (metis nth_mem)
    then have "snd (entry r) \<le> longest ldata" by (auto simp: longest_def intro!: Max_ge)
    then have decr: "longest ldata - Suc position < longest ldata - position" using r by auto
    have "cursors_ok ldata sel chdata ch entry (Suc position) ?U cur1 (length d1)"
      using cursors_next [OF less.prems(1), of cur1] round(2,4) by auto
    moreover have "d1 ! q = Some (CombineHashScalar (h q) (ch (fst (entry q) + position)))" if "q \<in> set ?U" for q
      using round(3) [of q] that by simp
    ultimately obtain d' where d': "list_loop ldata sel chdata (Suc (Suc position)) (d1, ?U, cur1) = Inr d'"
      "length d' = length d1"
      "\<And>q. d' ! q = (if q \<in> set ?U then Some (fold_elements ch (CombineHashScalar (h q) (ch (fst (entry q) + position)))
          [fst (entry q) + Suc position..<fst (entry q) + snd (entry q)]) else d1 ! q)"
      using less.hyps [OF decr, of ?U cur1 d1 "\<lambda>q. CombineHashScalar (h q) (ch (fst (entry q) + position))"] by blast
    have "list_loop ldata sel chdata (Suc position) (d, rows, cur) = Inr d'"
      using False d'(1) by (simp add: list_loop.simps [of ldata sel chdata "Suc position"] round(1))
    moreover have "d' ! q = (if q \<in> set rows
       then Some (fold_elements ch (h q) [fst (entry q) + position..<fst (entry q) + snd (entry q)]) else d ! q)" for q
      using d'(3) [of q] rest [of q] round(3) [of q] unfold [of q "h q"] by auto
    ultimately show ?thesis using d'(2) round(2) by simp
  qed
qed

section \<open>The whole loop\<close>

lemma cell_entry:
  assumes "cell_at vt vmask ldata r = Some (Some e)" and "rows_ok rsel cnt" and "r \<in> set (rows_of rsel cnt)"
  shows "\<exists>l. get_index (unified_sel vt cnt) r = Inr l \<and> l < length ldata \<and> ldata ! l = e"
proof (rule cell_read [OF assms])
  fix idx
  assume "get_index (unified_sel vt cnt) r = Inr idx" "read_at ldata idx = Inr (ldata ! idx)"
    "Some e \<noteq> None \<Longrightarrow> Some e = Some (ldata ! idx)"
  then show ?thesis by (auto simp: read_at_def split: if_splits)
qed

lemma list_started:
  assumes rows: "rows_ok rsel cnt" and room: "\<And>r. r \<in> set (rows_of rsel cnt) \<Longrightarrow> r < length d"
    and cells: "\<And>r. r \<in> set (rows_of rsel cnt) \<Longrightarrow> cell_at vt vmask ldata r = Some (c r)"
    and elems: "\<forall>r \<in> set (rows_of rsel cnt). \<forall>j. entry_off (c r) \<le> j \<and> j < entry_off (c r) + entry_len (c r) \<longrightarrow>
      j < length chdata \<and> chdata ! j = Some (ch j)"
  shows "\<exists>d0 cur0. for_res (list_start first ldata (unified_sel vt cnt) vmask rsel cnt) [0..<cnt] (d, [], Map.empty) =
      Inr (d0, filter (\<lambda>r. entry_len (c r) > 0) (rows_of rsel cnt), cur0) \<and> length d0 = length d \<and>
    (\<forall>r. d0 ! r = (if r \<in> set (rows_of rsel cnt) \<and> entry_len (c r) = 0 \<and> first then Some NULL_HASH else d ! r)) \<and>
    cursors_ok ldata (unified_sel vt cnt) chdata ch (\<lambda>r. (entry_off (c r), entry_len (c r))) 0
      (filter (\<lambda>r. entry_len (c r) > 0) (rows_of rsel cnt)) cur0 (length d0)"
proof -
  let ?rows = "rows_of rsel cnt" and ?sel = "unified_sel vt cnt"
  let ?U = "filter (\<lambda>r. entry_len (c r) > 0) ?rows"
  let ?entry = "\<lambda>r. (entry_off (c r), entry_len (c r))"
  have eq: "list_start first ldata ?sel vmask rsel cnt =
      (\<lambda>i s. bind_res (rsel_index rsel i) (\<lambda>r. start_row first ldata ?sel vmask rsel cnt r s))"
    by (intro ext) (rule list_start_row)
  obtain d0 cur0 where start: "for_res (list_start first ldata ?sel vmask rsel cnt) [0..<cnt] (d, [], Map.empty) =
      Inr (d0, ?U, cur0)" "length d0 = length d"
    "\<And>r. d0 ! r = (if r \<in> set ?rows \<and> entry_len (c r) = 0 \<and> first then Some NULL_HASH else d ! r)"
    "\<And>r. cur0 r = (if r \<in> set ?rows \<and> entry_len (c r) > 0 then Some (entry_off (c r)) else None)"
    using start_rows_ok [of rsel cnt ?rows vt vmask ldata c d first "[]" Map.empty]
      rows rows_distinct [OF rows] cells room
    unfolding eq for_rows [OF rows] by auto
  have "\<exists>l. get_index ?sel r = Inr l \<and> l < length ldata \<and> ldata ! l = ?entry r" if rU: "r \<in> set ?U" for r
  proof -
    obtain e where "c r = Some e" using rU by (cases "c r") (auto simp: entry_len_def)
    then show ?thesis using cell_entry [of vt vmask ldata r e] cells [of r] rows rU
      by (auto simp: entry_len_def entry_off_def)
  qed
  moreover have "entry_off (c r) + entry_len (c r) \<le> length chdata" if rU: "r \<in> set ?U" for r
  proof -
    obtain m where "entry_len (c r) = Suc m" using rU by (cases "entry_len (c r)") auto
    then show ?thesis using elems [rule_format, of r "entry_off (c r) + m"] rU by simp
  qed
  ultimately have "cursors_ok ldata ?sel chdata ch ?entry 0 ?U cur0 (length d0)"
    using rows_distinct [OF rows] room start(2,4) elems by (auto simp: cursors_ok_def)
  then show ?thesis using start(1-3) by blast
qed

lemma ListLoopHash_ok:
  assumes rows: "rows_ok rsel cnt" and room: "\<And>r. r \<in> set (rows_of rsel cnt) \<Longrightarrow> r < length (hashes_of hashes)"
    and cells: "\<And>r. r \<in> set (rows_of rsel cnt) \<Longrightarrow> cell_at vt vmask ldata r = Some (c r)"
    and elems: "\<And>r j. r \<in> set (rows_of rsel cnt) \<Longrightarrow> entry_off (c r) \<le> j \<Longrightarrow> j < entry_off (c r) + entry_len (c r) \<Longrightarrow>
      j < length chdata \<and> chdata ! j = Some (ch j)"
    and old: "\<And>r. r \<in> set (rows_of rsel cnt) \<Longrightarrow> \<not> first \<Longrightarrow> hashes_of hashes ! r = Some (h r)"
  shows "\<exists>d'. ListLoopHash first vt vmask ldata chdata rsel cnt hashes = Inr (hashes\<lparr>hashes_of := d'\<rparr>) \<and>
    length d' = length (hashes_of hashes) \<and>
    (\<forall>r \<in> set (rows_of rsel cnt). d' ! r = Some (list_hash first ch (h r) (c r)))"
proof -
  let ?rows = "rows_of rsel cnt" and ?sel = "unified_sel vt cnt"
  let ?U = "filter (\<lambda>r. entry_len (c r) > 0) ?rows"
  let ?entry = "\<lambda>r. (entry_off (c r), entry_len (c r))"
  obtain d0 cur0 where start: "for_res (list_start first ldata ?sel vmask rsel cnt) [0..<cnt] (hashes_of hashes, [], Map.empty) =
      Inr (d0, ?U, cur0)" "length d0 = length (hashes_of hashes)"
    "\<And>r. d0 ! r = (if r \<in> set ?rows \<and> entry_len (c r) = 0 \<and> first then Some NULL_HASH else hashes_of hashes ! r)"
    and U0: "cursors_ok ldata ?sel chdata ch ?entry 0 ?U cur0 (length d0)"
    using list_started [where first = first and ch = ch and chdata = chdata, OF rows room cells] elems by blast
  have empty: "d0 ! r = Some (list_hash first ch (h r) (c r))" if "r \<in> set ?rows" "r \<notin> set ?U" for r
    using start(3) [of r] old [of r] that by (auto simp: list_hash_def)
  consider (none) "?U = []" | (first) "?U \<noteq> []" "first" | (more) "?U \<noteq> []" "\<not> first" by blast
  then show ?thesis
  proof cases
    case none
    then have "ListLoopHash first vt vmask ldata chdata rsel cnt hashes = Inr (hashes\<lparr>hashes_of := d0\<rparr>)"
      by (simp add: ListLoopHash_def Let_def start(1))
    then show ?thesis using empty none start(2) by (metis empty_iff list.set(1))
  next
    case more
    obtain d' where d': "list_loop ldata ?sel chdata (Suc 0) (d0, ?U, cur0) = Inr d'" "length d' = length d0"
      "\<And>r. d' ! r = (if r \<in> set ?U then Some (fold_elements ch (h r) [entry_off (c r)..<entry_off (c r) + entry_len (c r)]) else d0 ! r)"
      using list_loop_ok [OF U0, of h] start(3) old more(2) by auto
    have "ListLoopHash first vt vmask ldata chdata rsel cnt hashes = Inr (hashes\<lparr>hashes_of := d'\<rparr>)"
      unfolding ListLoopHash_def Let_def start(1) using more d'(1) by simp
    moreover have "d' ! r = Some (list_hash first ch (h r) (c r))" if "r \<in> set ?rows" for r
      using d'(3) [of r] empty [OF that] that more(2) by (auto simp: list_hash_def)
    ultimately show ?thesis using d'(2) start(2) by (intro exI [of _ d']) simp
  next
    case first
    obtain d1 cur1 where
      round: "list_round True ldata ?sel chdata (Suc 0) (d0, ?U, cur0) =
        Inr (d1, filter (\<lambda>r. Suc 0 < entry_len (c r)) ?U, cur1)" "length d1 = length d0"
      "\<And>r. d1 ! r = (if r \<in> set ?U then Some (ch (entry_off (c r))) else d0 ! r)"
      "\<forall>r. cur1 r = (if r \<in> set ?U \<and> Suc 0 < entry_len (c r) then Some (entry_off (c r) + Suc 0) else cur0 r)"
      using list_steps_ok [OF U0, of True h "[]"] by (auto simp: list_round_def)
    let ?U1 = "filter (\<lambda>r. Suc 0 < entry_len (c r)) ?U"
    have U1: "cursors_ok ldata ?sel chdata ch ?entry (Suc 0) ?U1 cur1 (length d1)"
      using cursors_next [OF U0, of cur1] round(2,4) by simp
    obtain d' where d': "list_loop ldata ?sel chdata (Suc (Suc 0)) (d1, ?U1, cur1) = Inr d'" "length d' = length d1"
      "\<And>r. d' ! r = (if r \<in> set ?U1 then Some (fold_elements ch (ch (entry_off (c r)))
          [entry_off (c r) + Suc 0..<entry_off (c r) + entry_len (c r)]) else d1 ! r)"
      using list_loop_ok [OF U1, of "\<lambda>r. ch (entry_off (c r))"] round(3) by auto
    define d2 where "d2 = (if ?U1 = [] then d1 else d')"
    have "ListLoopHash first vt vmask ldata chdata rsel cnt hashes = Inr (hashes\<lparr>hashes_of := d2\<rparr>)"
      unfolding ListLoopHash_def Let_def start(1) using first d'(1) round(1) by (simp add: d2_def numeral_2_eq_2)
    moreover have "d2 ! r = (if r \<in> set ?U1 then Some (fold_elements ch (ch (entry_off (c r)))
          [entry_off (c r) + Suc 0..<entry_off (c r) + entry_len (c r)]) else d1 ! r)" for r
      using d'(3) [of r] by (cases "?U1 = []") (simp_all only: d2_def if_True if_False list.set(1) empty_iff simp_thms)
    then have "d2 ! r = Some (list_hash first ch (h r) (c r))" if "r \<in> set ?rows" for r
      using round(3) [of r] empty [OF that] that first(2) by (auto simp: list_hash_def fold_elements_def)
    ultimately show ?thesis using d'(2) round(2) start(2) by (intro exI [of _ d2]) (simp add: d2_def)
  qed
qed

end
