(* ===== verification/Column_Hash.thy ===== *)
theory Column_Hash
  imports List_Hash
begin

text \<open>
  The hashes of whole columns: \<open>VectorOperations::Hash\<close> and \<open>CombineHash\<close> compute
  \<open>hash_value\<close> and \<open>combine_value\<close> of the values of the column, for flat, constant and
  dictionary vectors, nested or not.
\<close>

section \<open>Scalar columns\<close>

lemma hash_cell_map: "hash_cell hash_scalar (map_option con c) = hash_cell (\<lambda>x. hash_scalar (con x)) c"
  by (simp add: hash_cell_def split: option.splits)

lemma scalar_cells:
  assumes "\<And>r. r \<in> R \<Longrightarrow> scalar_at con vt vmask xs r \<noteq> None"
  obtains c where "\<And>r. r \<in> R \<Longrightarrow> cell_at vt vmask xs r = Some (c r)"
    and "\<And>r. r \<in> R \<Longrightarrow> scalar_at con vt vmask xs r = Some (ScalarValue (map_option con (c r)))"
proof
  show "cell_at vt vmask xs r = Some (the (cell_at vt vmask xs r))" if "r \<in> R" for r
    using assms [OF that] by (auto simp: scalar_at_def)
  show "scalar_at con vt vmask xs r = Some (ScalarValue (map_option con (the (cell_at vt vmask xs r))))" if "r \<in> R" for r
    using assms [OF that] by (auto simp: scalar_at_def)
qed

lemma scalar_hash_ok:
  assumes hash: "\<And>x. hash_scalar (con x) = hash x"
    and rows: "rows_ok rsel cnt" and room: "room_for result (rows_of rsel cnt)"
    and vals: "\<And>r. r \<in> set (rows_of rsel cnt) \<Longrightarrow> scalar_at con vt vmask xs r \<noteq> None"
  shows "\<exists>h'. TemplatedLoopHash hash vt vmask xs rsel cnt result = Inr h' \<and>
    is_constant h' = (vt = CONSTANT_VECTOR) \<and> length (hashes_of h') = length (hashes_of result) \<and>
    hashes_ok h' (rows_of rsel cnt) (\<lambda>r. hash_value (the (scalar_at con vt vmask xs r)))"
proof (rule scalar_cells [of "set (rows_of rsel cnt)", OF vals])
  fix c
  assume c: "\<And>r. r \<in> set (rows_of rsel cnt) \<Longrightarrow> cell_at vt vmask xs r = Some (c r)"
    "\<And>r. r \<in> set (rows_of rsel cnt) \<Longrightarrow> scalar_at con vt vmask xs r = Some (ScalarValue (map_option con (c r)))"
  from TemplatedLoopHash_ok [OF rows room c(1), of hash] show ?thesis
    using c(2) hash by (auto simp: hashes_ok_def hash_cell_map)
qed

lemma scalar_combine_ok:
  assumes hash: "\<And>x. hash_scalar (con x) = hash x"
    and rows: "rows_ok rsel cnt" and room: "room_for hashes (rows_of rsel cnt)"
    and vals: "\<And>r. r \<in> set (rows_of rsel cnt) \<Longrightarrow> scalar_at con vt vmask xs r \<noteq> None"
    and old: "hashes_ok hashes (rows_of rsel cnt) h"
  shows "\<exists>h'. TemplatedLoopCombineHash hash vt vmask xs rsel cnt hashes = Inr h' \<and>
    is_constant h' = (is_constant hashes \<and> vt = CONSTANT_VECTOR) \<and> length (hashes_of h') = length (hashes_of hashes) \<and>
    hashes_ok h' (rows_of rsel cnt) (\<lambda>r. combine_value (h r) (the (scalar_at con vt vmask xs r)))"
proof (rule scalar_cells [of "set (rows_of rsel cnt)", OF vals])
  fix c
  assume c: "\<And>r. r \<in> set (rows_of rsel cnt) \<Longrightarrow> cell_at vt vmask xs r = Some (c r)"
    "\<And>r. r \<in> set (rows_of rsel cnt) \<Longrightarrow> scalar_at con vt vmask xs r = Some (ScalarValue (map_option con (c r)))"
  from TemplatedLoopCombineHash_ok [OF rows room c(1) old, of hash] show ?thesis
    using c(2) hash by (auto simp: hashes_ok_def hash_cell_map)
qed

section \<open>Lists\<close>

lemma combine_items_foldl: "combine_items h vs = foldl (\<lambda>a v. CombineHashScalar a (hash_value v)) h vs"
  by (induction vs arbitrary: h) simp_all

lemma those_map_Some: "those (map f xs) = Some ys \<Longrightarrow> ys = map (\<lambda>x. the (f x)) xs \<and> (\<forall>x \<in> set xs. f x \<noteq> None)"
  by (induction xs arbitrary: ys) (auto split: option.splits)

abbreviation child_hash :: "Vector \<Rightarrow> nat \<Rightarrow> hash_t" where
  "child_hash child j \<equiv> hash_value (the (row_value child j))"

lemma fold_elements_items:
  "fold_elements (child_hash child) h js = combine_items h (map (\<lambda>j. the (row_value child j)) js)"
  by (simp add: fold_elements_def combine_items_foldl foldl_map)

lemma list_value:
  assumes "row_value (Vector vt vmask (LIST entries child n)) r = Some v"
  shows "\<exists>c. cell_at vt vmask entries r = Some c \<and>
    (entry_len c > 0 \<longrightarrow> entry_off c + entry_len c \<le> n) \<and>
    hash_value v = list_hash True (child_hash child) h c \<and> combine_value h v = list_hash False (child_hash child) h c"
proof (cases "cell_at vt vmask entries r")
  case None
  then show ?thesis using assms by simp
next
  case (Some c)
  consider (null) "c = None" | (empty) off where "c = Some (off, 0)" | (items) off len where "c = Some (off, Suc len)"
    by (cases c) (auto, metis old.nat.exhaust)
  then show ?thesis
  proof cases
    case (items off len)
    have n: "off + Suc len \<le> n" and v: "v = ListValue (Some (map (\<lambda>j. the (row_value child j)) [off..<off + Suc len]))"
      using assms Some items by (auto split: if_splits dest!: those_map_Some simp del: upt_Suc)
    have "[off..<off + Suc len] = off # [Suc off..<off + Suc len]" by (rule upt_rec [THEN trans]) simp
    then have "hash_value v = list_hash True (child_hash child) h c"
      using v items by (simp add: list_hash_def entry_len_def entry_off_def fold_elements_items del: upt_Suc)
    moreover have "combine_value h v = list_hash False (child_hash child) h c"
      using v items by (simp add: list_hash_def entry_len_def entry_off_def fold_elements_items del: upt_Suc)
    ultimately show ?thesis using Some items n by (simp add: entry_len_def entry_off_def)
  qed (use assms Some in \<open>auto simp: list_hash_def entry_len_def\<close>)
qed

lemma child_hashes_ok:
  assumes "n > 0" and "is_constant h1 \<Longrightarrow> hashes_of h1 \<noteq> []"
    and "hashes_ok h1 [0..<n] f" and "length (hashes_of h1) = n"
  shows "\<exists>h2. Flatten n h1 = Inr h2 \<and> n \<le> length (hashes_of h2) \<and> (\<forall>j < n. hashes_of h2 ! j = Some (f j))"
proof (cases "is_constant h1")
  case True
  have k: "hashes_of h1 ! 0 = Some (f j)" if "j < n" for j
    using assms(3) True that by (simp add: hashes_ok_def)
  have "Flatten n h1 = Inr \<lparr> is_constant = False,
      hashes_of = replicate n (hashes_of h1 ! 0) @ replicate (STANDARD_VECTOR_SIZE - n) None \<rparr>"
    using True assms(1,4) by (simp add: Flatten_def read_at_def)
  moreover have "(replicate n (hashes_of h1 ! 0) @ replicate (STANDARD_VECTOR_SIZE - n) None) ! j = Some (f j)"
    if "j < n" for j
    using that k [OF that] by (simp add: nth_append)
  ultimately show ?thesis by simp
qed (use assms in \<open>auto simp: Flatten_def hashes_ok_def\<close>)

text \<open>The hashes of the child column, as both type switches compute them for a list.\<close>

definition list_child :: "Vector \<Rightarrow> nat \<Rightarrow> HashVector hash_result" where
  "list_child child n =
     (if n > 0 then bind_res (HashTypeSwitch child None n (fresh_hashes n)) (Flatten n) else Inr (fresh_hashes n))"

definition hashed :: "HashVector hash_result \<Rightarrow> bool \<Rightarrow> nat \<Rightarrow> nat list \<Rightarrow> (nat \<Rightarrow> hash_t) \<Rightarrow> bool" where
  "hashed R k n rows f \<longleftrightarrow>
     (\<exists>h'. R = Inr h' \<and> is_constant h' = k \<and> length (hashes_of h') = n \<and> hashes_ok h' rows f)"

lemma hashed_cong: "hashed R k n rows f \<Longrightarrow> (\<And>r. r \<in> set rows \<Longrightarrow> f r = g r) \<Longrightarrow> hashed R k n rows g"
  by (auto simp: hashed_def hashes_ok_def)

lemma rows_ok_None: "n > 0 \<Longrightarrow> rows_ok None n"
  by (simp add: rows_ok_def)

lemma room_for_fresh: "n > 0 \<Longrightarrow> room_for (fresh_hashes n) (rows_of None n)"
  by (auto simp: room_for_def fresh_hashes_def rows_of_def)

lemma list_child_ok:
  assumes "n > 0 \<Longrightarrow> hashed (HashTypeSwitch child None n (fresh_hashes n)) k n (rows_of None n) f"
  shows "\<exists>h2. list_child child n = Inr h2 \<and> n \<le> length (hashes_of h2) \<and> (\<forall>j < n. hashes_of h2 ! j = Some (f j))"
proof (cases "n > 0")
  case True
  from assms [OF True] obtain h1 where "HashTypeSwitch child None n (fresh_hashes n) = Inr h1"
    "length (hashes_of h1) = n" "hashes_ok h1 [0..<n] f" by (auto simp: hashed_def rows_of_def)
  with child_hashes_ok [OF True, of h1 f] True show ?thesis by (auto simp: list_child_def)
qed (simp add: list_child_def)

lemma list_column_ok:
  assumes rows: "rows_ok rsel cnt" and room: "room_for hashes (rows_of rsel cnt)" and flat: "\<not> is_constant hashes"
    and vals: "\<And>r. r \<in> set (rows_of rsel cnt) \<Longrightarrow> row_value (Vector vt vmask (LIST entries child n)) r \<noteq> None"
    and child: "n > 0 \<Longrightarrow> hashed (HashTypeSwitch child None n (fresh_hashes n)) k n (rows_of None n) (child_hash child)"
    and old: "\<not> first \<Longrightarrow> hashes_ok hashes (rows_of rsel cnt) h"
  shows "hashed (bind_res (list_child child n) (\<lambda>child_hashes.
      ListLoopHash first vt vmask entries (hashes_of child_hashes) rsel cnt hashes)) False (length (hashes_of hashes))
      (rows_of rsel cnt) (\<lambda>r. if first then hash_value (the (row_value (Vector vt vmask (LIST entries child n)) r))
        else combine_value (h r) (the (row_value (Vector vt vmask (LIST entries child n)) r)))"
proof -
  let ?v = "Vector vt vmask (LIST entries child n)"
  obtain h2 where h2: "list_child child n = Inr h2" "n \<le> length (hashes_of h2)"
    "\<And>j. j < n \<Longrightarrow> hashes_of h2 ! j = Some (child_hash child j)"
    using list_child_ok [OF child] by auto
  define c where "c r = the (cell_at vt vmask entries r)" for r
  have c: "cell_at vt vmask entries r = Some (c r) \<and> (entry_len (c r) > 0 \<longrightarrow> entry_off (c r) + entry_len (c r) \<le> n) \<and>
      hash_value (the (row_value ?v r)) = list_hash True (child_hash child) (h r) (c r) \<and>
      combine_value (h r) (the (row_value ?v r)) = list_hash False (child_hash child) (h r) (c r)"
    if r: "r \<in> set (rows_of rsel cnt)" for r
  proof -
    obtain v where v: "row_value ?v r = Some v" using vals [OF r] by blast
    from list_value [OF this, of "h r"] show ?thesis unfolding v c_def by auto
  qed
  obtain d' where d': "ListLoopHash first vt vmask entries (hashes_of h2) rsel cnt hashes = Inr (hashes\<lparr>hashes_of := d'\<rparr>)"
    "length d' = length (hashes_of hashes)"
    "\<And>r. r \<in> set (rows_of rsel cnt) \<Longrightarrow> d' ! r = Some (list_hash first (child_hash child) (h r) (c r))"
  proof -
    have "\<exists>d'. ListLoopHash first vt vmask entries (hashes_of h2) rsel cnt hashes = Inr (hashes\<lparr>hashes_of := d'\<rparr>) \<and>
      length d' = length (hashes_of hashes) \<and>
      (\<forall>r \<in> set (rows_of rsel cnt). d' ! r = Some (list_hash first (child_hash child) (h r) (c r)))"
    proof (rule ListLoopHash_ok [OF rows])
      show "j < length (hashes_of h2) \<and> hashes_of h2 ! j = Some (child_hash child j)"
        if "r \<in> set (rows_of rsel cnt)" "entry_off (c r) \<le> j" "j < entry_off (c r) + entry_len (c r)" for r j
        using c [OF that(1)] that h2(2) h2(3) [of j] by auto
    qed (use c room old flat in \<open>auto simp: room_for_def hashes_ok_def\<close>)
    then show thesis using that by blast
  qed
  have "d' ! r = Some (if first then hash_value (the (row_value ?v r)) else combine_value (h r) (the (row_value ?v r)))"
    if "r \<in> set (rows_of rsel cnt)" for r
    using d'(3) [OF that] c [OF that] by (simp del: row_value.simps)
  then show ?thesis
    unfolding hashed_def h2(1) using d'(1,2) flat
    by (intro exI [of _ "hashes\<lparr>hashes_of := d'\<rparr>"]) (simp add: hashes_ok_def del: row_value.simps)
qed

section \<open>Columns of every type\<close>

lemma hashes_ok_cong: "hashes_ok hv rows f \<Longrightarrow> (\<And>r. r \<in> set rows \<Longrightarrow> f r = g r) \<Longrightarrow> hashes_ok hv rows g"
  by (auto simp: hashes_ok_def)

lemma struct_values:
  assumes "row_value (Vector vt vmask (STRUCT cs)) r \<noteq> None"
  shows "\<And>c. c \<in> set cs \<Longrightarrow> row_value c r \<noteq> None"
    and "the (row_value (Vector vt vmask (STRUCT cs)) r) = StructValue (map (\<lambda>c. the (row_value c r)) cs)"
proof -
  obtain vs where "those (map (\<lambda>c. row_value c r) cs) = Some vs" "row_index vt r \<noteq> None"
    using assms by (auto split: if_splits)
  then show "\<And>c. c \<in> set cs \<Longrightarrow> row_value c r \<noteq> None"
    and "the (row_value (Vector vt vmask (STRUCT cs)) r) = StructValue (map (\<lambda>c. the (row_value c r)) cs)"
    by (auto dest!: those_map_Some)
qed

text \<open>What is shown of the two type switches and of the loop over the fields of a struct.\<close>

definition hash_spec :: "Vector \<Rightarrow> SelectionVector \<Rightarrow> nat \<Rightarrow> HashVector \<Rightarrow> bool" where
  "hash_spec v rsel cnt result \<longleftrightarrow>
     (hash_ok v \<and> rows_ok rsel cnt \<and> room_for result (rows_of rsel cnt) \<and> \<not> is_constant result \<and>
      (\<forall>r \<in> set (rows_of rsel cnt). row_value v r \<noteq> None) \<longrightarrow>
      hashed (HashTypeSwitch v rsel cnt result) (hash_form v) (length (hashes_of result)) (rows_of rsel cnt)
        (\<lambda>r. hash_value (the (row_value v r))))"

definition combine_spec :: "Vector \<Rightarrow> SelectionVector \<Rightarrow> nat \<Rightarrow> HashVector \<Rightarrow> bool" where
  "combine_spec v rsel cnt hashes \<longleftrightarrow>
     (\<forall>h. combine_ok (is_constant hashes) v \<and> rows_ok rsel cnt \<and> room_for hashes (rows_of rsel cnt) \<and>
      (\<forall>r \<in> set (rows_of rsel cnt). row_value v r \<noteq> None) \<and> hashes_ok hashes (rows_of rsel cnt) h \<longrightarrow>
      hashed (CombineHashTypeSwitch v rsel cnt hashes) (combine_form (is_constant hashes) v) (length (hashes_of hashes))
        (rows_of rsel cnt) (\<lambda>r. combine_value (h r) (the (row_value v r))))"

definition fields_spec :: "bool \<Rightarrow> Vector list \<Rightarrow> SelectionVector \<Rightarrow> nat \<Rightarrow> HashVector \<Rightarrow> bool" where
  "fields_spec first cs rsel cnt hashes \<longleftrightarrow>
     (\<forall>h. rows_ok rsel cnt \<and> room_for hashes (rows_of rsel cnt) \<and>
      (\<forall>r \<in> set (rows_of rsel cnt). \<forall>c \<in> set cs. row_value c r \<noteq> None) \<longrightarrow>
      (if first then \<not> is_constant hashes \<and> cs \<noteq> [] \<and> hash_ok (List.hd cs) \<and> combines_ok (hash_form (List.hd cs)) (tl cs) \<longrightarrow>
         hashed (StructLoopHash True cs rsel cnt hashes) (combine_forms (hash_form (List.hd cs)) (tl cs)) (length (hashes_of hashes))
           (rows_of rsel cnt) (\<lambda>r. combine_fields (hash_value (the (row_value (List.hd cs) r))) (map (\<lambda>c. the (row_value c r)) (tl cs)))
       else combines_ok (is_constant hashes) cs \<and> hashes_ok hashes (rows_of rsel cnt) h \<longrightarrow>
         hashed (StructLoopHash False cs rsel cnt hashes) (combine_forms (is_constant hashes) cs) (length (hashes_of hashes))
           (rows_of rsel cnt) (\<lambda>r. combine_fields (h r) (map (\<lambda>c. the (row_value c r)) cs))))"

lemma hash_spec_step:
  assumes struct: "\<And>children. d = STRUCT children \<Longrightarrow> fields_spec True children rsel cnt result"
    and list: "\<And>entries child n. d = LIST entries child n \<Longrightarrow> 0 < n \<Longrightarrow> hash_spec child None n (fresh_hashes n)"
  shows "hash_spec (Vector vt vmask d) rsel cnt result"
  unfolding hash_spec_def
proof (intro impI, elim conjE)
  let ?v = "Vector vt vmask d"
  assume ok: "hash_ok ?v" and rows: "rows_ok rsel cnt" and room: "room_for result (rows_of rsel cnt)"
    and flat: "\<not> is_constant result" and vals: "\<forall>r \<in> set (rows_of rsel cnt). row_value ?v r \<noteq> None"
  show "hashed (HashTypeSwitch ?v rsel cnt result) (hash_form ?v) (length (hashes_of result)) (rows_of rsel cnt)
        (\<lambda>r. hash_value (the (row_value ?v r)))"
  proof (cases d)
    case (STRUCT cs)
    then obtain c cs' where cs: "cs = c # cs'" using ok by (cases cs) auto
    have v: "\<And>r c. r \<in> set (rows_of rsel cnt) \<Longrightarrow> c \<in> set cs \<Longrightarrow> row_value c r \<noteq> None"
      "\<And>r. r \<in> set (rows_of rsel cnt) \<Longrightarrow> the (row_value ?v r) = StructValue (map (\<lambda>c. the (row_value c r)) cs)"
      using struct_values [of vt vmask cs] vals STRUCT by blast+
    have "hashed (StructLoopHash True cs rsel cnt result) (combine_forms (hash_form c) cs') (length (hashes_of result))
        (rows_of rsel cnt) (\<lambda>r. combine_fields (hash_value (the (row_value c r))) (map (\<lambda>c. the (row_value c r)) cs'))"
      using struct [OF STRUCT] rows room flat ok v(1) STRUCT cs by (simp add: fields_spec_def)
    then show ?thesis
      using v(2) STRUCT cs by (auto elim!: hashed_cong simp del: row_value.simps)
  next
    case (LIST entries child n)
    have "hashed (HashTypeSwitch child None n (fresh_hashes n)) (hash_form child) n (rows_of None n) (child_hash child)"
      if "0 < n"
      using list [OF LIST that] ok LIST that rows_ok_None room_for_fresh
      by (simp add: hash_spec_def list_all_iff rows_of_def fresh_hashes_def)
    from list_column_ok [OF rows room flat _ this, of vt vmask entries True "\<lambda>_. 0"] vals LIST ok
    show ?thesis by (simp add: list_child_def del: row_value.simps)
  qed (use ok vals in \<open>auto simp: hashed_def hash_scalar_def intro!: scalar_hash_ok rows room\<close>)
qed

lemma combine_spec_step:
  assumes struct: "\<And>children. d = STRUCT children \<Longrightarrow> fields_spec False children rsel cnt hashes"
    and list: "\<And>entries child n. d = LIST entries child n \<Longrightarrow> 0 < n \<Longrightarrow> hash_spec child None n (fresh_hashes n)"
  shows "combine_spec (Vector vt vmask d) rsel cnt hashes"
  unfolding combine_spec_def
proof (intro allI impI, elim conjE)
  let ?v = "Vector vt vmask d"
  fix h
  assume ok: "combine_ok (is_constant hashes) ?v" and rows: "rows_ok rsel cnt" and room: "room_for hashes (rows_of rsel cnt)"
    and vals: "\<forall>r \<in> set (rows_of rsel cnt). row_value ?v r \<noteq> None" and old: "hashes_ok hashes (rows_of rsel cnt) h"
  show "hashed (CombineHashTypeSwitch ?v rsel cnt hashes) (combine_form (is_constant hashes) ?v) (length (hashes_of hashes))
        (rows_of rsel cnt) (\<lambda>r. combine_value (h r) (the (row_value ?v r)))"
  proof (cases d)
    case (STRUCT cs)
    have v: "\<And>r c. r \<in> set (rows_of rsel cnt) \<Longrightarrow> c \<in> set cs \<Longrightarrow> row_value c r \<noteq> None"
      "\<And>r. r \<in> set (rows_of rsel cnt) \<Longrightarrow> the (row_value ?v r) = StructValue (map (\<lambda>c. the (row_value c r)) cs)"
      using struct_values [of vt vmask cs] vals STRUCT by blast+
    have "hashed (StructLoopHash False cs rsel cnt hashes) (combine_forms (is_constant hashes) cs) (length (hashes_of hashes))
        (rows_of rsel cnt) (\<lambda>r. combine_fields (h r) (map (\<lambda>c. the (row_value c r)) cs))"
      using struct [OF STRUCT] rows room ok v(1) STRUCT old by (simp add: fields_spec_def)
    then show ?thesis
      using v(2) STRUCT by (auto elim!: hashed_cong simp del: row_value.simps)
  next
    case (LIST entries child n)
    have flat: "\<not> is_constant hashes" using ok LIST by simp
    have "hashed (HashTypeSwitch child None n (fresh_hashes n)) (hash_form child) n (rows_of None n) (child_hash child)"
      if "0 < n"
      using list [OF LIST that] ok LIST that rows_ok_None room_for_fresh
      by (simp add: hash_spec_def list_all_iff rows_of_def fresh_hashes_def)
    from list_column_ok [OF rows room flat _ this, of vt vmask entries False h] vals LIST ok old
    show ?thesis by (simp add: list_child_def del: row_value.simps)
  qed (use ok vals in \<open>auto simp: hashed_def hash_scalar_def intro!: scalar_combine_ok rows room old\<close>)
qed

lemma fields_spec_step:
  assumes first: "first \<Longrightarrow> hash_spec c rsel cnt hashes" and more: "\<not> first \<Longrightarrow> combine_spec c rsel cnt hashes"
    and rest: "\<And>h'. (if first then HashTypeSwitch c rsel cnt hashes else CombineHashTypeSwitch c rsel cnt hashes) = Inr h' \<Longrightarrow>
      fields_spec False cs rsel cnt h'"
  shows "fields_spec first (c # cs) rsel cnt hashes"
proof -
  let ?R = "if first then HashTypeSwitch c rsel cnt hashes else CombineHashTypeSwitch c rsel cnt hashes"
  have next_field: "hashed (bind_res ?R (StructLoopHash False cs rsel cnt)) (combine_forms k cs) n (rows_of rsel cnt)
      (\<lambda>r. combine_fields (f r) (map (\<lambda>c. the (row_value c r)) cs))"
    if R: "hashed ?R k n (rows_of rsel cnt) f" and "combines_ok k cs" and "rows_ok rsel cnt"
      and "0 < n" and "\<forall>r \<in> set (rows_of rsel cnt). r < n"
      and "\<forall>r \<in> set (rows_of rsel cnt). \<forall>c \<in> set cs. row_value c r \<noteq> None" for k n f
  proof -
    obtain h' where "?R = Inr h'" "is_constant h' = k" "length (hashes_of h') = n" "hashes_ok h' (rows_of rsel cnt) f"
      using R by (auto simp: hashed_def)
    then show ?thesis using rest [of h'] that(2-) by (auto simp: fields_spec_def room_for_def)
  qed
  show ?thesis
  proof (cases first)
    case True
    then show ?thesis
      using hash_spec_def [of c rsel cnt hashes] first next_field
      by (auto simp: fields_spec_def room_for_def)
  next
    case False
    then show ?thesis
      using combine_spec_def [of c rsel cnt hashes] more next_field
      by (auto simp: fields_spec_def room_for_def)
  qed
qed

lemma column_specs:
  "hash_spec v rsel cnt result" "combine_spec v rsel cnt hashes" "fields_spec first cs rsel cnt hashes"
proof (induction v rsel cnt result and v rsel cnt hashes and first cs rsel cnt hashes
    rule: HashTypeSwitch_CombineHashTypeSwitch_StructLoopHash.induct)
  case (1 vt vmask d rsel cnt result)
  then show ?case by (intro hash_spec_step) auto
next
  case (2 vt vmask d rsel cnt hashes)
  then show ?case by (intro combine_spec_step) auto
next
  case (3 first rsel cnt hashes)
  then show ?case by (auto simp: fields_spec_def hashed_def)
next
  case (4 first c cs rsel cnt hashes)
  then show ?case by (intro fields_spec_step) auto
qed

lemmas HashTypeSwitch_hashed = column_specs(1) [unfolded hash_spec_def, rule_format, OF conjI [OF _ conjI [OF _ conjI [OF _ conjI]]]]

lemmas CombineHashTypeSwitch_hashed = column_specs(2) [unfolded combine_spec_def, rule_format, OF conjI [OF _ conjI [OF _ conjI [OF _ conjI]]]]

definition hash_at :: "HashVector \<Rightarrow> nat \<Rightarrow> hash_t option" where
  "hash_at hv r = (if is_constant hv then hashes_of hv ! 0 else hashes_of hv ! r)"

lemma hashes_ok_hash_at: "hashes_ok hv rows f \<longleftrightarrow> (\<forall>r \<in> set rows. hash_at hv r = Some (f r))"
  by (auto simp: hashes_ok_def hash_at_def)

section \<open>Arrays, and lists after a constant\<close>

lemma for_res_Inl: "for_res F xs s = Inl e \<Longrightarrow> for_res F (xs @ ys) s = Inl e"
  by simp

lemma ArrayLoopHash_fresh:
  assumes "array_size > 0" and "cnt > 0" and "capacity > 0"
  shows "ArrayLoopHash array_size chdata cnt (fresh_hashes capacity) = Inl Uninitialised_memory"
proof -
  let ?step = "\<lambda>i j hdata. bind_res (read_hash hdata i) (\<lambda>h. bind_res (read_hash chdata j) (\<lambda>ch.
         write_hash hdata i (CombineHashScalar h ch)))"
  have row: "for_res (?step 0) [0..<array_size] (replicate capacity None) = Inl Uninitialised_memory"
    using assms(1,3) by (simp add: upt_conv_Cons read_hash_def read_at_def)
  have "for_res (\<lambda>i. for_res (?step i) [i * array_size..<(i + 1) * array_size]) [0..<cnt] (replicate capacity None) =
      Inl Uninitialised_memory"
    using assms(2) row by (simp add: upt_conv_Cons)
  then show ?thesis by (simp add: ArrayLoopHash_def fresh_hashes_def)
qed

lemma list_step_unwritten:
  assumes "cur r = Some k" and "k < length chdata" and "chdata ! k = Some x" and "r < length d" and "d ! r = None"
  shows "list_step False ldata sel chdata position r (d, U, cur) = Inl Uninitialised_memory"
  using assms by (simp add: list_step_def read_hash_def read_at_def)

text \<open>Among sorted rows the first one after row 0 is reached at once.\<close>

lemma rows_after_zero:
  fixes r :: nat
  assumes "sorted_wrt (<) U" and "r \<in> set U" and "0 < r"
  obtains pre q post where "U = pre @ q # post" "0 < q" "set pre \<subseteq> {0}" "length pre \<le> 1"
proof (cases U)
  case Nil
  then show thesis using assms(2) by simp
next
  case (Cons a U')
  show thesis
  proof (cases "a = 0")
    case True
    with Cons assms obtain q post where "U' = q # post" "0 < q" by (cases U') auto
    then show thesis using that [of "[0]" q post] Cons True by simp
  next
    case False
    then show thesis using that [of "[]" a U'] Cons by simp
  qed
qed

lemma list_loop_unwritten:
  assumes U: "cursors_ok ldata sel chdata ch entry 0 rows cur (length d)" and "sorted_wrt (<) rows"
    and "r \<in> set rows" and "0 < r"
    and d: "d ! 0 = Some h" "\<And>q. q \<in> set rows \<Longrightarrow> 0 < q \<Longrightarrow> d ! q = None"
  shows "list_loop ldata sel chdata 1 (d, rows, cur) = Inl Uninitialised_memory"
proof -
  obtain pre q post where rows: "rows = pre @ q # post" "0 < q" "set pre \<subseteq> {0}" "length pre \<le> 1"
    using rows_after_zero [OF assms(2-4)] .
  have sub: "cursors_ok ldata sel chdata ch entry 0 pre cur (length d)"
    using U rows(1) by (auto simp: cursors_ok_def)
  obtain d' cur' where pre: "for_res (list_step False ldata sel chdata (Suc 0)) pre (d, [], cur) =
      Inr (d', filter (\<lambda>r. Suc 0 < snd (entry r)) pre, cur')" "length d' = length d"
    "\<And>p. p \<notin> set pre \<Longrightarrow> d' ! p = d ! p" "\<And>p. p \<notin> set pre \<Longrightarrow> cur' p = cur p"
    using list_steps_ok [OF sub, of False "\<lambda>_. h" "[]"] rows(3) d(1) by fastforce
  have q: "q \<notin> set pre" "q \<in> set rows" using rows by auto
  have cq: "cur q = Some (fst (entry q))" "fst (entry q) < length chdata" "chdata ! fst (entry q) = Some (ch (fst (entry q)))" "q < length d"
    using U q(2) by (fastforce simp: cursors_ok_def)+
  have "list_step False ldata sel chdata (Suc 0) q (d', filter (\<lambda>r. Suc 0 < snd (entry r)) pre, cur') = Inl Uninitialised_memory"
    using cq d(2) [OF q(2) rows(2)] pre(2-4) q(1) by (intro list_step_unwritten) auto
  then have "list_round False ldata sel chdata (Suc 0) (d, rows, cur) = Inl Uninitialised_memory"
    using pre(1) by (simp add: list_round_def rows(1))
  then show ?thesis by (simp add: list_loop.simps)
qed

section \<open>Claims\<close>

text \<open>
  C28. The hashes of a column are a function of the values it holds. Whatever the physical
  form of the column (flat, constant, dictionary; with or without a validity mask;
  structs and lists of such columns), \<open>VectorOperations::Hash\<close> returns, stays within its
  arrays, reads nothing it has not written, and leaves for every selected row the hash of
  the row's value.
\<close>

theorem Hash_column_correct:
  assumes "hash_ok v" and "rows_ok rsel cnt" and "room_for result (rows_of rsel cnt)" and "\<not> is_constant result"
    and "\<forall>r \<in> set (rows_of rsel cnt). row_value v r \<noteq> None"
  shows "\<exists>h'. HashTypeSwitch v rsel cnt result = Inr h' \<and>
    (\<forall>r \<in> set (rows_of rsel cnt). hash_at h' r = Some (hash_value (the (row_value v r))))"
  using HashTypeSwitch_hashed [OF assms(1-4)] assms(5) by (auto simp: hashed_def hashes_ok_hash_at)

text \<open>A list of two strings and a null list, next to a dictionary of integers.\<close>

definition sample_struct :: Vector where
  "sample_struct = Vector FLAT_VECTOR None (STRUCT
     [Vector (DICTIONARY_VECTOR [1, 0]) None (INT32 [7, 9]),
      Vector FLAT_VECTOR (Some [True, False]) (LIST [(0, 2), (0, 0)] (Vector FLAT_VECTOR None (VARCHAR [[1], [2, 3]])) 2)])"

lemma sample_struct_value:
  "row_value sample_struct 0 = Some (StructValue [ScalarValue (Some (S_INT32 9)),
     ListValue (Some [ScalarValue (Some (S_VARCHAR [1])), ScalarValue (Some (S_VARCHAR [2, 3]))])])"
  "row_value sample_struct (Suc 0) = Some (StructValue [ScalarValue (Some (S_INT32 7)), ListValue None])"
  by (simp_all add: sample_struct_def scalar_at_def cell_at_def row_index_def upt_rec)

theorem Hash_column_correct_witness:
  "\<exists>h'. HashTypeSwitch sample_struct None 2 (fresh_hashes 2048) = Inr h' \<and>
     hash_at h' 1 = Some (combine_fields (Hash_int32 7) [ListValue None])"
proof -
  have ok: "hash_ok sample_struct"
    by (simp add: sample_struct_def scalar_at_def cell_at_def row_index_def upt_rec)
  have rows: "rows_ok None 2" by (simp add: rows_ok_def)
  have room: "room_for (fresh_hashes 2048) (rows_of None 2)" "\<not> is_constant (fresh_hashes 2048)"
    by (auto simp: room_for_def fresh_hashes_def rows_of_def)
  have vals: "\<forall>r \<in> set (rows_of None 2). row_value sample_struct r \<noteq> None"
    by (simp add: rows_of_def upt_rec sample_struct_value)
  from Hash_column_correct [OF ok rows room vals] sample_struct_value show ?thesis
    by (auto simp: rows_of_def hash_cell_def hash_scalar_def)
qed



text \<open>
  C31. A list column is not combined correctly into a constant vector of hashes:
  \<open>ListLoopHash\<close> takes the vector for a flat one. After a constant column has been hashed
  into a fresh vector, combining a list column in which a row other than the first has a
  non-empty list reads the unwritten hash of that row.
\<close>

theorem CombineHash_list_after_constant:
  assumes "hash_ok child" and "\<forall>j \<in> {0..<n}. row_value child j \<noteq> None"
    and vals: "\<forall>r \<in> {0..<cnt}. \<exists>c. cell_at FLAT_VECTOR vmask entries r = Some c \<and>
      (entry_len c > 0 \<longrightarrow> entry_off c + entry_len c \<le> n)"
    and r: "0 < r" "r < cnt" "cell_at FLAT_VECTOR vmask entries r = Some (Some (off, Suc len))" and "cnt \<le> Suc m"
  shows "CombineHashTypeSwitch (Vector FLAT_VECTOR vmask (LIST entries child n)) None cnt
      \<lparr> is_constant = True, hashes_of = Some h # replicate m None \<rparr> = Inl Uninitialised_memory"
proof -
  let ?hashes = "\<lparr> is_constant = True, hashes_of = Some h # replicate m None \<rparr>" and ?sel = "unified_sel FLAT_VECTOR cnt"
  have rows: "rows_ok None cnt" using r by (simp add: rows_ok_def)
  have "hashed (HashTypeSwitch child None n (fresh_hashes n)) (hash_form child)
      (length (hashes_of (fresh_hashes n))) (rows_of None n) (child_hash child)" if "n > 0"
    using assms(2) by (intro HashTypeSwitch_hashed [OF assms(1) rows_ok_None [OF that] room_for_fresh [OF that]])
      (simp_all add: fresh_hashes_def rows_of_def)
  then obtain h2 where h2: "list_child child n = Inr h2" "n \<le> length (hashes_of h2)"
    "\<And>j. j < n \<Longrightarrow> hashes_of h2 ! j = Some (child_hash child j)"
    using list_child_ok [of n child "hash_form child" "child_hash child"] by (auto simp: fresh_hashes_def)
  define c where "c q = the (cell_at FLAT_VECTOR vmask entries q)" for q
  have c: "cell_at FLAT_VECTOR vmask entries q = Some (c q)" "entry_len (c q) > 0 \<Longrightarrow> entry_off (c q) + entry_len (c q) \<le> n"
    if "q < cnt" for q
    using bspec [OF vals, of q] that by (auto simp: c_def)
  have elems: "\<forall>q \<in> set (rows_of None cnt). \<forall>j. entry_off (c q) \<le> j \<and> j < entry_off (c q) + entry_len (c q) \<longrightarrow>
      j < length (hashes_of h2) \<and> hashes_of h2 ! j = Some (child_hash child j)"
    using c(2) h2(2,3) by (fastforce simp: rows_of_def)
  obtain d0 cur0 where start: "for_res (list_start False entries ?sel vmask None cnt) [0..<cnt] (hashes_of ?hashes, [], Map.empty) =
      Inr (d0, filter (\<lambda>q. entry_len (c q) > 0) (rows_of None cnt), cur0)" "length d0 = length (hashes_of ?hashes)"
    "\<forall>q. d0 ! q = hashes_of ?hashes ! q"
    "cursors_ok entries ?sel (hashes_of h2) (child_hash child) (\<lambda>q. (entry_off (c q), entry_len (c q))) 0
       (filter (\<lambda>q. entry_len (c q) > 0) (rows_of None cnt)) cur0 (length d0)"
    using list_started [where d = "hashes_of ?hashes" and vt = FLAT_VECTOR and vmask = vmask and ldata = entries and first = False, OF rows _ _ elems] c(1) assms(7)
    by (auto simp: rows_of_def)
  have "r \<in> set (filter (\<lambda>q. entry_len (c q) > 0) (rows_of None cnt))"
    using r by (simp add: rows_of_def c_def entry_len_def)
  moreover have "sorted_wrt (<) (filter (\<lambda>q. entry_len (c q) > 0) (rows_of None cnt))"
    by (simp add: rows_of_def sorted_wrt_filter strict_sorted_iff [symmetric])
  ultimately have "list_loop entries ?sel (hashes_of h2) 1 (d0, filter (\<lambda>q. entry_len (c q) > 0) (rows_of None cnt), cur0) =
      Inl Uninitialised_memory"
    using start(2,3) assms(7) r(1) by (intro list_loop_unwritten [OF start(4), of r h]) (auto simp: rows_of_def nth_Cons')
  then have "ListLoopHash False FLAT_VECTOR vmask entries (hashes_of h2) None cnt ?hashes = Inl Uninitialised_memory"
    using \<open>r \<in> set (filter _ _)\<close> unfolding ListLoopHash_def Let_def start(1) by (auto simp: filter_empty_conv)
  then show ?thesis using h2(1) by (simp add: list_child_def)
qed

theorem CombineHash_list_after_constant_witness:
  "bind_res (HashTypeSwitch (Vector CONSTANT_VECTOR None (INT32 [5])) None 2 (fresh_hashes 2048))
     (CombineHashTypeSwitch (Vector FLAT_VECTOR None (LIST [(0, 1), (0, 1)] (Vector FLAT_VECTOR None (INT32 [9])) 1)) None 2) =
   Inl Uninitialised_memory"
proof -
  have "HashTypeSwitch (Vector CONSTANT_VECTOR None (INT32 [5])) None 2 (fresh_hashes 2048) =
      Inr \<lparr> is_constant = True, hashes_of = Some (Hash_int32 5) # replicate 2047 None \<rparr>"
    by (simp add: TemplatedLoopHash_def read_at_def RowIsValid_def write_hash_def fresh_hashes_def HashOp_def
        replicate_Suc [of 2047, simplified])
  moreover have "CombineHashTypeSwitch (Vector FLAT_VECTOR None (LIST [(0, 1), (0, 1)] (Vector FLAT_VECTOR None (INT32 [9])) 1)) None 2
      \<lparr> is_constant = True, hashes_of = Some (Hash_int32 5) # replicate 2047 None \<rparr> = Inl Uninitialised_memory"
    by (rule CombineHash_list_after_constant [where r = 1 and off = 0 and len = 0])
      (auto simp: scalar_at_def cell_at_def row_index_def entry_len_def entry_off_def less_Suc_eq numeral_2_eq_2)
  ultimately show ?thesis by simp
qed

end
