(* ===== verification/Column_Data.thy ===== *)
theory Column_Data
  imports Column_Hash
begin

text \<open>
  Chunks and collections of chunks (common/types/data_chunk.cpp, common/types/column/):
  the CREATE_BF operator keeps its whole input in a \<open>ColumnDataCollection\<close> before it
  builds the filters, and reads it back from there.

  A chunk is a list of vectors and a row count. A collection has segments, a segment has
  chunks of at most \<open>STANDARD_VECTOR_SIZE\<close> rows. The memory blocks of the collection are
  not modelled: a stored chunk is the list of its rows, a row the list of its values, and
  reading a chunk makes flat vectors of them.
\<close>

section \<open>Types of values\<close>

datatype PhysicalType =
    T_INT8 | T_INT16 | T_INT32 | T_INT64 | T_UINT8 | T_UINT16 | T_UINT32 | T_UINT64
  | T_INT128 | T_UINT128 | T_FLOAT | T_DOUBLE | T_INTERVAL | T_VARCHAR
  | T_STRUCT "PhysicalType list" | T_LIST PhysicalType | T_OTHER

fun GetType :: "Vector \<Rightarrow> PhysicalType" where
  "GetType (Vector vt vmask d) =
     (case d of
        INT8 _ \<Rightarrow> T_INT8 | INT16 _ \<Rightarrow> T_INT16 | INT32 _ \<Rightarrow> T_INT32 | INT64 _ \<Rightarrow> T_INT64
      | UINT8 _ \<Rightarrow> T_UINT8 | UINT16 _ \<Rightarrow> T_UINT16 | UINT32 _ \<Rightarrow> T_UINT32 | UINT64 _ \<Rightarrow> T_UINT64
      | INT128 _ \<Rightarrow> T_INT128 | UINT128 _ \<Rightarrow> T_UINT128 | FLOAT _ \<Rightarrow> T_FLOAT | DOUBLE _ \<Rightarrow> T_DOUBLE
      | INTERVAL _ \<Rightarrow> T_INTERVAL | VARCHAR _ \<Rightarrow> T_VARCHAR
      | STRUCT cs \<Rightarrow> T_STRUCT (map GetType cs) | LIST _ child _ \<Rightarrow> T_LIST (GetType child)
      | ARRAY _ _ \<Rightarrow> T_OTHER | INVALID \<Rightarrow> T_OTHER)"

definition scalar_type :: "Scalar \<Rightarrow> PhysicalType" where
  "scalar_type s =
     (case s of
        S_INT8 _ \<Rightarrow> T_INT8 | S_INT16 _ \<Rightarrow> T_INT16 | S_INT32 _ \<Rightarrow> T_INT32 | S_INT64 _ \<Rightarrow> T_INT64
      | S_UINT8 _ \<Rightarrow> T_UINT8 | S_UINT16 _ \<Rightarrow> T_UINT16 | S_UINT32 _ \<Rightarrow> T_UINT32 | S_UINT64 _ \<Rightarrow> T_UINT64
      | S_INT128 _ \<Rightarrow> T_INT128 | S_UINT128 _ \<Rightarrow> T_UINT128 | S_FLOAT _ \<Rightarrow> T_FLOAT | S_DOUBLE _ \<Rightarrow> T_DOUBLE
      | S_INTERVAL _ \<Rightarrow> T_INTERVAL | S_VARCHAR _ \<Rightarrow> T_VARCHAR)"

fun has_type :: "PhysicalType \<Rightarrow> Value \<Rightarrow> bool" where
  "has_type (T_STRUCT ts) v = (case v of StructValue fs \<Rightarrow> list_all2 has_type ts fs | _ \<Rightarrow> False)"
| "has_type (T_LIST t) v = (case v of ListValue None \<Rightarrow> True | ListValue (Some vs) \<Rightarrow> list_all (has_type t) vs | _ \<Rightarrow> False)"
| "has_type T_OTHER v = False"
| "has_type t v = (case v of ScalarValue None \<Rightarrow> True | ScalarValue (Some s) \<Rightarrow> scalar_type s = t | _ \<Rightarrow> False)"

text \<open>The types for which hashes are defined: no arrays, and structs have fields.\<close>

fun storable :: "PhysicalType \<Rightarrow> bool" where
  "storable (T_STRUCT ts) \<longleftrightarrow> ts \<noteq> [] \<and> list_all storable ts"
| "storable (T_LIST t) \<longleftrightarrow> storable t"
| "storable T_OTHER \<longleftrightarrow> False"
| "storable _ \<longleftrightarrow> True"

lemma scalar_at_type:
  "scalar_at con vt vmask xs r = Some v \<Longrightarrow> (\<And>x. scalar_type (con x) = t) \<Longrightarrow>
     v = ScalarValue None \<or> (\<exists>s. v = ScalarValue (Some s) \<and> scalar_type s = t)"
  by (auto simp: scalar_at_def map_option_case split: option.splits)

lemma row_value_type: "row_value v r = Some x \<Longrightarrow> has_type (GetType v) x"
proof (induction v r arbitrary: x rule: row_value.induct)
  case (1 vt vmask d r)
  show ?case
  proof (cases d)
    case (STRUCT cs)
    have idx: "row_index vt r \<noteq> None" using 1(3) STRUCT by (auto split: if_splits)
    have fields: "has_type (GetType c) (the (row_value c r))" if "c \<in> set cs" "row_value c r \<noteq> None" for c
      using 1(1) [OF STRUCT idx that(1)] that(2) by auto
    obtain vs where vs: "those (map (\<lambda>c. row_value c r) cs) = Some vs" "x = StructValue vs"
      using 1(3) STRUCT by (auto split: if_splits)
    show ?thesis
      using those_map_Some [OF vs(1)] vs(2) fields STRUCT by (auto simp: list_all2_conv_all_nth)
  next
    case (LIST entries child n)
    obtain c where c: "cell_at vt vmask entries r = Some c" using 1(3) LIST by (auto split: option.splits)
    show ?thesis
    proof (cases c)
      case None
      then show ?thesis using 1(3) LIST c by auto
    next
      case (Some e)
      obtain off len where e: "e = (off, len)" by (cases e)
      have "has_type (GetType child) (the (row_value child j))" if "j \<in> set [off..<off + len]" "row_value child j \<noteq> None" "len \<noteq> 0" "off + len \<le> n" for j
        using 1(2) [OF LIST c Some e [symmetric] that(3,4,1)] that(2) by auto
      then show ?thesis
        using 1(3) LIST c Some e by (auto split: if_splits dest!: those_map_Some simp: list_all_iff)
    qed
  qed (use 1(3) in \<open>auto dest!: scalar_at_type simp: scalar_type_def\<close>)
qed

section \<open>Flat vectors of values\<close>

definition flat_scalars :: "('a list \<Rightarrow> VectorData) \<Rightarrow> (Scalar \<Rightarrow> 'a) \<Rightarrow> Value list \<Rightarrow> Vector" where
  "flat_scalars con get vs =
     Vector FLAT_VECTOR (Some (map (\<lambda>v. v \<noteq> ScalarValue None) vs))
       (con (map (\<lambda>v. case v of ScalarValue (Some s) \<Rightarrow> get s | _ \<Rightarrow> get (S_INT8 0)) vs))"

definition list_items :: "Value \<Rightarrow> Value list" where
  "list_items v = (case v of ListValue (Some vs) \<Rightarrow> vs | _ \<Rightarrow> [])"

fun list_offsets :: "nat \<Rightarrow> Value list \<Rightarrow> (nat \<times> nat) list" where
  "list_offsets off [] = []"
| "list_offsets off (v # vs) = (off, length (list_items v)) # list_offsets (off + length (list_items v)) vs"

definition struct_field :: "nat \<Rightarrow> Value \<Rightarrow> Value" where
  "struct_field j v = (case v of StructValue fs \<Rightarrow> fs ! j | _ \<Rightarrow> v)"

fun ReadVector :: "PhysicalType \<Rightarrow> Value list \<Rightarrow> Vector"
  and ReadFields :: "PhysicalType list \<Rightarrow> nat \<Rightarrow> Value list \<Rightarrow> Vector list" where
  "ReadVector T_INT8 vs = flat_scalars INT8 (\<lambda>s. case s of S_INT8 x \<Rightarrow> x | _ \<Rightarrow> 0) vs"
| "ReadVector T_INT16 vs = flat_scalars INT16 (\<lambda>s. case s of S_INT16 x \<Rightarrow> x | _ \<Rightarrow> 0) vs"
| "ReadVector T_INT32 vs = flat_scalars INT32 (\<lambda>s. case s of S_INT32 x \<Rightarrow> x | _ \<Rightarrow> 0) vs"
| "ReadVector T_INT64 vs = flat_scalars INT64 (\<lambda>s. case s of S_INT64 x \<Rightarrow> x | _ \<Rightarrow> 0) vs"
| "ReadVector T_UINT8 vs = flat_scalars UINT8 (\<lambda>s. case s of S_UINT8 x \<Rightarrow> x | _ \<Rightarrow> 0) vs"
| "ReadVector T_UINT16 vs = flat_scalars UINT16 (\<lambda>s. case s of S_UINT16 x \<Rightarrow> x | _ \<Rightarrow> 0) vs"
| "ReadVector T_UINT32 vs = flat_scalars UINT32 (\<lambda>s. case s of S_UINT32 x \<Rightarrow> x | _ \<Rightarrow> 0) vs"
| "ReadVector T_UINT64 vs = flat_scalars UINT64 (\<lambda>s. case s of S_UINT64 x \<Rightarrow> x | _ \<Rightarrow> 0) vs"
| "ReadVector T_INT128 vs = flat_scalars INT128 (\<lambda>s. case s of S_INT128 x \<Rightarrow> x | _ \<Rightarrow> \<lparr>lower = 0, upper = 0\<rparr>) vs"
| "ReadVector T_UINT128 vs = flat_scalars UINT128 (\<lambda>s. case s of S_UINT128 x \<Rightarrow> x | _ \<Rightarrow> \<lparr>lower = 0, upper = 0\<rparr>) vs"
| "ReadVector T_FLOAT vs = flat_scalars FLOAT (\<lambda>s. case s of S_FLOAT x \<Rightarrow> x | _ \<Rightarrow> 0) vs"
| "ReadVector T_DOUBLE vs = flat_scalars DOUBLE (\<lambda>s. case s of S_DOUBLE x \<Rightarrow> x | _ \<Rightarrow> 0) vs"
| "ReadVector T_INTERVAL vs =
     flat_scalars INTERVAL (\<lambda>s. case s of S_INTERVAL x \<Rightarrow> x | _ \<Rightarrow> \<lparr>months = 0, days = 0, micros = 0\<rparr>) vs"
| "ReadVector T_VARCHAR vs = flat_scalars VARCHAR (\<lambda>s. case s of S_VARCHAR x \<Rightarrow> x | _ \<Rightarrow> []) vs"
| "ReadVector (T_STRUCT ts) vs = Vector FLAT_VECTOR None (STRUCT (ReadFields ts 0 vs))"
| "ReadVector (T_LIST t) vs =
     Vector FLAT_VECTOR (Some (map (\<lambda>v. v \<noteq> ListValue None) vs))
       (LIST (list_offsets 0 vs) (ReadVector t (concat (map list_items vs))) (length (concat (map list_items vs))))"
| "ReadVector T_OTHER vs = Vector FLAT_VECTOR None INVALID"
| "ReadFields [] j vs = []"
| "ReadFields (t # ts) j vs = ReadVector t (map (struct_field j) vs) # ReadFields ts (Suc j) vs"

lemma flat_scalars_value:
  assumes "i < length vs" and "vs ! i = ScalarValue c" and "\<And>s. c = Some s \<Longrightarrow> con' (get s) = s"
  shows "scalar_at con' FLAT_VECTOR (Some (map (\<lambda>v. v \<noteq> ScalarValue None) vs))
    (map (\<lambda>v. case v of ScalarValue (Some s) \<Rightarrow> get s | _ \<Rightarrow> get (S_INT8 0)) vs) i = Some (vs ! i)"
  using assms by (cases c) (auto simp: scalar_at_def cell_at_def row_index_def)

lemma list_offsets_nth:
  "i < length vs \<Longrightarrow> list_offsets off vs ! i = (off + length (concat (map list_items (take i vs))), length (list_items (vs ! i)))"
  by (induction vs arbitrary: off i) (auto simp: nth_Cons take_Cons split: nat.splits)

lemma length_list_offsets [simp]: "length (list_offsets off vs) = length vs"
  by (induction vs arbitrary: off) auto

lemma concat_take_le:
  assumes "i < length xss"
  shows "length (concat (take i xss)) + length (xss ! i) \<le> length (concat xss)"
proof -
  have "concat xss = concat (take i xss) @ xss ! i @ concat (drop (Suc i) xss)"
    using id_take_nth_drop [OF assms] by (metis concat.simps(2) concat_append)
  from arg_cong [OF this, of length] show ?thesis by simp
qed

lemma concat_take_nth:
  assumes "i < length xss" and "k < length (xss ! i)"
  shows "concat xss ! (length (concat (take i xss)) + k) = xss ! i ! k"
    and "length (concat (take i xss)) + k < length (concat xss)"
proof -
  have split: "concat xss = concat (take i xss) @ xss ! i @ concat (drop (Suc i) xss)"
    using id_take_nth_drop [OF assms(1)] by (metis concat.simps(2) concat_append)
  show "concat xss ! (length (concat (take i xss)) + k) = xss ! i ! k"
    unfolding split using assms(2) by (simp add: nth_append)
  show "length (concat (take i xss)) + k < length (concat xss)"
    using arg_cong [OF split, of length] assms(2) by simp
qed

lemma those_eq_Some_iff: "those xs = Some ys \<longleftrightarrow> xs = map Some ys"
  by (induction xs arbitrary: ys) (auto split: option.splits simp: Cons_eq_map_conv)

lemma scalar_value_cases:
  assumes "case v of ScalarValue None \<Rightarrow> True | ScalarValue (Some s) \<Rightarrow> scalar_type s = t | _ \<Rightarrow> False"
  obtains "v = ScalarValue None" | s where "v = ScalarValue (Some s)" "scalar_type s = t"
  using assms by (auto split: Value.splits option.splits)

lemma flat_scalars_row:
  assumes "i < length vs" and "case vs ! i of ScalarValue None \<Rightarrow> True | ScalarValue (Some s) \<Rightarrow> scalar_type s = t | _ \<Rightarrow> False"
    and "\<And>s. scalar_type s = t \<Longrightarrow> con' (get s) = s"
  shows "scalar_at con' FLAT_VECTOR (Some (map (\<lambda>v. v \<noteq> ScalarValue None) vs))
    (map (\<lambda>v. case v of ScalarValue (Some s) \<Rightarrow> get s | _ \<Rightarrow> get (S_INT8 0)) vs) i = Some (vs ! i)"
  using assms(2)
proof (rule scalar_value_cases)
  show ?thesis if "vs ! i = ScalarValue None"
    using flat_scalars_value [OF assms(1) that, of con' get] by simp
  show ?thesis if "vs ! i = ScalarValue (Some s)" "scalar_type s = t" for s
    using flat_scalars_value [OF assms(1) that(1), of con' get] assms(3) [OF that(2)] by simp
qed

lemma flat_row:
  assumes "list_all (has_type t) vs" and "i < length vs" and "\<And>s. scalar_type s = t \<Longrightarrow> con' (get s) = s"
    and "\<And>v. has_type t v \<longleftrightarrow> (case v of ScalarValue None \<Rightarrow> True | ScalarValue (Some s) \<Rightarrow> scalar_type s = t | _ \<Rightarrow> False)"
    and "\<And>vt vmask xs r. row_value (Vector vt vmask (con xs)) r = scalar_at con' vt vmask xs r"
  shows "row_value (flat_scalars con get vs) i = Some (vs ! i)"
  unfolding flat_scalars_def assms(5)
  using assms(1,2) by (intro flat_scalars_row [where t = t]) (auto simp: list_all_length assms(3,4))

lemmas flat_rows =
  flat_row [where con = INT8 and con' = S_INT8 and t = T_INT8]
  flat_row [where con = INT16 and con' = S_INT16 and t = T_INT16]
  flat_row [where con = INT32 and con' = S_INT32 and t = T_INT32]
  flat_row [where con = INT64 and con' = S_INT64 and t = T_INT64]
  flat_row [where con = UINT8 and con' = S_UINT8 and t = T_UINT8]
  flat_row [where con = UINT16 and con' = S_UINT16 and t = T_UINT16]
  flat_row [where con = UINT32 and con' = S_UINT32 and t = T_UINT32]
  flat_row [where con = UINT64 and con' = S_UINT64 and t = T_UINT64]
  flat_row [where con = INT128 and con' = S_INT128 and t = T_INT128]
  flat_row [where con = UINT128 and con' = S_UINT128 and t = T_UINT128]
  flat_row [where con = FLOAT and con' = S_FLOAT and t = T_FLOAT]
  flat_row [where con = DOUBLE and con' = S_DOUBLE and t = T_DOUBLE]
  flat_row [where con = INTERVAL and con' = S_INTERVAL and t = T_INTERVAL]
  flat_row [where con = VARCHAR and con' = S_VARCHAR and t = T_VARCHAR]

lemma has_type_structE:
  assumes "has_type (T_STRUCT ts) v"
  obtains fs where "v = StructValue fs" "list_all2 has_type ts fs"
  using assms by (cases v) auto

lemma ReadVector_value:
  "list_all (has_type t) vs \<Longrightarrow> i < length vs \<Longrightarrow> row_value (ReadVector t vs) i = Some (vs ! i)"
  "list_all (\<lambda>v. \<exists>fs. v = StructValue fs \<and> j + length ts = length fs \<and> list_all2 has_type ts (drop j fs)) vs \<Longrightarrow>
     i < length vs \<Longrightarrow> map (\<lambda>c. row_value c i) (ReadFields ts j vs) = map (\<lambda>k. Some (struct_field (j + k) (vs ! i))) [0..<length ts]"
proof (induction t vs and ts j vs arbitrary: i and i rule: ReadVector_ReadFields.induct)
  case (15 ts vs)
  have typed: "list_all (\<lambda>v. \<exists>fs. v = StructValue fs \<and> 0 + length ts = length fs \<and> list_all2 has_type ts (drop 0 fs)) vs"
    using 15(2) by (auto simp: list_all_iff simp del: has_type.simps elim!: has_type_structE dest!: bspec dest: list_all2_lengthD)
  obtain fs where fs: "vs ! i = StructValue fs" "length fs = length ts"
    using typed 15(3) by (auto simp: list_all_length)
  have "those (map (\<lambda>c. row_value c i) (ReadFields ts 0 vs)) = Some fs"
    unfolding 15(1) [OF typed 15(3)] those_eq_Some_iff using fs by (auto simp: struct_field_def intro!: nth_equalityI)
  then show ?case using fs by (simp add: row_index_def)
next
  case (16 t vs)
  let ?items = "concat (map list_items vs)" and ?off = "length (concat (map list_items (take i vs)))"
  have v: "case vs ! i of ListValue None \<Rightarrow> True | ListValue (Some xs) \<Rightarrow> list_all (has_type t) xs | _ \<Rightarrow> False"
    using 16(2,3) by (auto simp: list_all_length)
  have typed: "list_all (has_type t) ?items"
    using 16(2) by (force simp: list_all_iff list_items_def split: Value.splits option.splits)
  have item: "row_value (ReadVector t ?items) (?off + k) = Some (list_items (vs ! i) ! k)" if "k < length (list_items (vs ! i))" for k
    using 16(1) [OF typed, of "?off + k"] concat_take_nth [of i "map list_items vs" k] 16(3) that by (simp add: take_map)
  have sub: "?off + length (list_items (vs ! i)) \<le> length ?items"
    using concat_take_le [of i "map list_items vs"] 16(3) by (simp add: take_map)
  have "map (row_value (ReadVector t ?items)) [?off..<?off + length (list_items (vs ! i))] = map Some (list_items (vs ! i))"
    by (rule nth_equalityI) (auto simp: item)
  then have those: "those (map (row_value (ReadVector t ?items)) [?off..<?off + length (list_items (vs ! i))]) = Some (list_items (vs ! i))"
    by (simp only: those_eq_Some_iff)
  show ?case
    using v 16(3) those sub list_offsets_nth [OF 16(3), of 0]
    by (auto simp: cell_at_def row_index_def list_items_def split: Value.splits option.splits)
next
  case (19 t ts j vs)
  have "list_all (has_type t) (map (struct_field j) vs)"
    using 19(3) by (fastforce simp: list_all_iff struct_field_def Cons_nth_drop_Suc [symmetric])
  moreover have "list_all (\<lambda>v. \<exists>fs. v = StructValue fs \<and> Suc j + length ts = length fs \<and> list_all2 has_type ts (drop (Suc j) fs)) vs"
    using 19(3) by (fastforce simp: list_all_iff Cons_nth_drop_Suc [symmetric])
  ultimately show ?case
    using 19(1) [of i] 19(2) [of i] 19(4) by (auto simp: upt_conv_Cons simp del: upt_Suc intro!: nth_equalityI)
next
  case (17 vs)
  then show ?case by (simp add: list_all_length)
qed (auto simp: scalar_type_def intro!: flat_rows split: Scalar.splits)

text \<open>Columns read from a collection are flat throughout, so their hashes are defined.\<close>

definition flat_ok :: "Vector \<Rightarrow> bool" where
  "flat_ok v \<longleftrightarrow> hash_ok v \<and> \<not> hash_form v \<and> combine_ok False v \<and> \<not> combine_form False v"

lemma combines_ok_flat: "list_all flat_ok cs \<Longrightarrow> combines_ok False cs \<and> \<not> combine_forms False cs"
  by (induction cs) (auto simp: flat_ok_def)

lemma ReadVector_ok:
  "storable t \<Longrightarrow> list_all (has_type t) vs \<Longrightarrow> flat_ok (ReadVector t vs) \<and> GetType (ReadVector t vs) = t"
  "list_all storable ts \<Longrightarrow>
     list_all (\<lambda>v. \<exists>fs. v = StructValue fs \<and> j + length ts = length fs \<and> list_all2 has_type ts (drop j fs)) vs \<Longrightarrow>
     list_all flat_ok (ReadFields ts j vs) \<and> map GetType (ReadFields ts j vs) = ts"
proof (induction t vs and ts j vs rule: ReadVector_ReadFields.induct)
  case (15 ts vs)
  have typed: "list_all (\<lambda>v. \<exists>fs. v = StructValue fs \<and> 0 + length ts = length fs \<and> list_all2 has_type ts (drop 0 fs)) vs"
    using 15(3) by (auto simp: list_all_iff simp del: has_type.simps elim!: has_type_structE dest!: bspec dest: list_all2_lengthD)
  have fields: "list_all flat_ok (ReadFields ts 0 vs)" "map GetType (ReadFields ts 0 vs) = ts"
    using 15(1) [OF _ typed] 15(2) by auto
  obtain c cs where cs: "ReadFields ts 0 vs = c # cs" using 15(2) by (cases ts) auto
  show ?case
    using fields combines_ok_flat [of cs] by (auto simp: flat_ok_def cs)
next
  case (16 t vs)
  have typed: "list_all (has_type t) (concat (map list_items vs))"
    using 16(3) by (force simp: list_all_iff list_items_def split: Value.splits option.splits)
  show ?case
    using 16(1) [OF _ typed] 16(2) ReadVector_value(1) [OF typed] by (auto simp: flat_ok_def list_all_iff)
next
  case (19 t ts j vs)
  have "list_all (has_type t) (map (struct_field j) vs)"
    using 19(4) by (fastforce simp: list_all_iff struct_field_def Cons_nth_drop_Suc [symmetric])
  moreover have "list_all (\<lambda>v. \<exists>fs. v = StructValue fs \<and> Suc j + length ts = length fs \<and> list_all2 has_type ts (drop (Suc j) fs)) vs"
    using 19(4) by (fastforce simp: list_all_iff Cons_nth_drop_Suc [symmetric])
  ultimately show ?case using 19(1,2,3) by simp
qed (simp_all add: flat_ok_def flat_scalars_def)

section \<open>Chunks\<close>

record DataChunk =
  chunk_columns :: "Vector list"
  chunk_size :: nat

type_synonym row = "Value list"

definition chunk_row :: "DataChunk \<Rightarrow> nat \<Rightarrow> row option" where
  "chunk_row c i = those (map (\<lambda>v. row_value v i) (chunk_columns c))"

definition chunk_rows :: "DataChunk \<Rightarrow> row list option" where
  "chunk_rows c = those (map (chunk_row c) [0..<chunk_size c])"

definition row_typed :: "PhysicalType list \<Rightarrow> row \<Rightarrow> bool" where
  "row_typed ts r = list_all2 has_type ts r"

definition chunk_types :: "DataChunk \<Rightarrow> PhysicalType list" where
  "chunk_types c = map GetType (chunk_columns c)"

lemma chunk_rows_SomeD:
  assumes "chunk_rows c = Some rs"
  shows "length rs = chunk_size c" and "\<And>i. i < chunk_size c \<Longrightarrow> chunk_row c i = Some (rs ! i)"
proof -
  have "map (chunk_row c) [0..<chunk_size c] = map Some rs" using assms by (simp add: chunk_rows_def those_eq_Some_iff)
  then show "length rs = chunk_size c" and "\<And>i. i < chunk_size c \<Longrightarrow> chunk_row c i = Some (rs ! i)"
    by (auto dest: arg_cong [of _ _ length]) (metis (no_types, lifting) add_0 diff_zero length_map length_upt nth_map nth_upt)
qed

lemma chunk_row_typed: "chunk_row c i = Some r \<Longrightarrow> row_typed (chunk_types c) r"
  by (auto simp: chunk_row_def row_typed_def chunk_types_def list_all2_conv_all_nth dest!: those_map_Some intro!: row_value_type)

lemma chunk_rows_typed: "chunk_rows c = Some rs \<Longrightarrow> list_all (row_typed (chunk_types c)) rs"
  using chunk_rows_SomeD [of c rs] chunk_row_typed [of c] by (auto simp: list_all_length)

end
