(* ===== verification/Data_Collection.thy ===== *)
theory Data_Collection
  imports Column_Data
begin

text \<open>
  \<open>class ColumnDataCollection\<close> (common/types/column/column_data_collection.cpp and
  column_data_collection_segment.cpp): appending chunks, combining collections, and
  fetching chunks by their number. Rows are neither lost nor duplicated nor reordered by
  any of them.
\<close>

section \<open>State\<close>

type_synonym ColumnDataCollectionSegment = "row list list"

record ColumnDataCollection =
  cdc_types :: "PhysicalType list"
  segments :: "ColumnDataCollectionSegment list"
  cdc_count :: nat

datatype cdc_error = InternalException_mismatching_types | InternalException_no_chunk | Invalid_access

type_synonym 'a cdc_result = "cdc_error + 'a"

definition ColumnDataCollection_new :: "PhysicalType list \<Rightarrow> ColumnDataCollection" where
  "ColumnDataCollection_new ts = \<lparr> cdc_types = ts, segments = [], cdc_count = 0 \<rparr>"

section \<open>Append\<close>

definition AllocateNewChunk :: "ColumnDataCollectionSegment \<Rightarrow> ColumnDataCollectionSegment" where
  "AllocateNewChunk seg = seg @ [[]]"

definition InitializeAppend :: "ColumnDataCollection \<Rightarrow> ColumnDataCollection" where
  "InitializeAppend c =
     (let segs = (if segments c = [] then [[]] else segments c);
          seg = List.last segs
      in c\<lparr>segments := butlast segs @ [if seg = [] then AllocateNewChunk seg else seg]\<rparr>)"

text \<open>The loop of \<open>Append\<close>: fill the last chunk, allocate a new one while rows are left.\<close>

function append_loop :: "row list \<Rightarrow> nat \<Rightarrow> ColumnDataCollectionSegment \<Rightarrow> ColumnDataCollectionSegment cdc_result" where
  "append_loop rows remaining seg =
     (if remaining = 0 then Inr seg
      else if seg = [] then Inl Invalid_access
      else let chunk = List.last seg;
               append_amount = min remaining (STANDARD_VECTOR_SIZE - length chunk);
               offset = length rows - remaining;
               seg1 = butlast seg @ [chunk @ take append_amount (drop offset rows)];
               remaining' = remaining - append_amount
           in append_loop rows remaining' (if remaining' > 0 then AllocateNewChunk seg1 else seg1))"
  by pat_completeness auto
termination
  by (relation "measure (\<lambda>(rows, remaining, seg).
        2 * remaining + (if length (List.last seg) < STANDARD_VECTOR_SIZE then 0 else 1))")
    (auto simp: AllocateNewChunk_def STANDARD_VECTOR_SIZE_def Let_def min_def)

declare append_loop.simps [simp del]

lemma append_loop_step:
  assumes "remaining \<noteq> 0" and "seg \<noteq> []" and "chunk = List.last seg"
    and "amount = min remaining (STANDARD_VECTOR_SIZE - length chunk)" and "offset = length rows - remaining"
    and "seg1 = butlast seg @ [chunk @ take amount (drop offset rows)]"
  shows "append_loop rows remaining seg =
    append_loop rows (remaining - amount) (if remaining - amount > 0 then AllocateNewChunk seg1 else seg1)"
  unfolding assms(3-6) by (subst append_loop.simps, subst if_not_P [OF assms(1)], subst if_not_P [OF assms(2)])
    (simp only: Let_def)

definition Append :: "DataChunk \<Rightarrow> ColumnDataCollection \<Rightarrow> ColumnDataCollection cdc_result" where
  "Append input c =
     (case chunk_rows input of
        None \<Rightarrow> Inl Invalid_access
      | Some rows \<Rightarrow>
          let c1 = InitializeAppend c
          in case append_loop rows (chunk_size input) (List.last (segments c1)) of
               Inl e \<Rightarrow> Inl e
             | Inr seg \<Rightarrow> Inr (c1\<lparr>segments := butlast (segments c1) @ [seg], cdc_count := cdc_count c1 + chunk_size input\<rparr>))"

section \<open>Combine and fetch\<close>

text \<open>\<open>Combine\<close> moves the segments of the other collection, which is reset.\<close>

definition CDC_Combine :: "ColumnDataCollection \<Rightarrow> ColumnDataCollection \<Rightarrow> ColumnDataCollection cdc_result" where
  "CDC_Combine other c =
     (if cdc_count other = 0 then Inr c
      else if cdc_types c \<noteq> cdc_types other then Inl InternalException_mismatching_types
      else Inr (c\<lparr>cdc_count := cdc_count c + cdc_count other, segments := segments c @ segments other\<rparr>))"

definition ChunkCount :: "ColumnDataCollection \<Rightarrow> nat" where
  "ChunkCount c = fold (\<lambda>segment chunk_count. chunk_count + length segment) (segments c) 0"

definition segment_FetchChunk :: "PhysicalType list \<Rightarrow> row list \<Rightarrow> DataChunk" where
  "segment_FetchChunk ts chunk =
     \<lparr> chunk_columns = map (\<lambda>j. ReadVector (ts ! j) (map (\<lambda>r. r ! j) chunk)) [0..<length ts],
       chunk_size = length chunk \<rparr>"

fun fetch_loop :: "PhysicalType list \<Rightarrow> ColumnDataCollectionSegment list \<Rightarrow> nat \<Rightarrow> DataChunk cdc_result" where
  "fetch_loop ts [] chunk_idx = Inl InternalException_no_chunk"
| "fetch_loop ts (segment # segs) chunk_idx =
     (if chunk_idx \<ge> length segment then fetch_loop ts segs (chunk_idx - length segment)
      else Inr (segment_FetchChunk ts (segment ! chunk_idx)))"

definition FetchChunk :: "ColumnDataCollection \<Rightarrow> nat \<Rightarrow> DataChunk cdc_result" where
  "FetchChunk c chunk_idx = fetch_loop (cdc_types c) (segments c) chunk_idx"

section \<open>Rows\<close>

definition cdc_rows :: "ColumnDataCollection \<Rightarrow> row list" where
  "cdc_rows c = concat (concat (segments c))"

definition cdc_inv :: "PhysicalType list \<Rightarrow> ColumnDataCollection \<Rightarrow> bool" where
  "cdc_inv ts c \<longleftrightarrow> cdc_types c = ts \<and> cdc_count c = length (cdc_rows c) \<and>
     list_all (list_all (\<lambda>chunk. length chunk \<le> STANDARD_VECTOR_SIZE)) (segments c) \<and>
     list_all (row_typed ts) (cdc_rows c)"

lemma append_loop_ok:
  assumes "seg \<noteq> []" and "list_all (\<lambda>chunk. length chunk \<le> STANDARD_VECTOR_SIZE) seg" and "remaining \<le> length rows"
  shows "\<exists>seg'. append_loop rows remaining seg = Inr seg' \<and> seg' \<noteq> [] \<and>
    list_all (\<lambda>chunk. length chunk \<le> STANDARD_VECTOR_SIZE) seg' \<and>
    concat seg' = concat seg @ drop (length rows - remaining) rows"
  using assms
proof (induction rows remaining seg rule: append_loop.induct)
  case (1 rows remaining seg)
  show ?case
  proof (cases "remaining = 0")
    case True
    then show ?thesis using 1(2,3) by (simp add: append_loop.simps)
  next
    case False
    define chunk where "chunk = List.last seg"
    define amount where "amount = min remaining (STANDARD_VECTOR_SIZE - length chunk)"
    define offset where "offset = length rows - remaining"
    define seg1 where "seg1 = butlast seg @ [chunk @ take amount (drop offset rows)]"
    define seg2 where "seg2 = (if remaining - amount > 0 then AllocateNewChunk seg1 else seg1)"
    have seg: "seg = butlast seg @ [chunk]" using 1(2) by (simp add: chunk_def)
    have small: "length chunk \<le> STANDARD_VECTOR_SIZE" "list_all (\<lambda>chunk. length chunk \<le> STANDARD_VECTOR_SIZE) (butlast seg)"
      using 1(3) by (metis seg list_all_append list.pred_inject(2))+
    have seg2: "seg2 \<noteq> []" "list_all (\<lambda>chunk. length chunk \<le> STANDARD_VECTOR_SIZE) seg2"
      "concat seg2 = concat seg @ take amount (drop offset rows)"
      using small arg_cong [OF seg, of concat] by (auto simp: seg2_def seg1_def AllocateNewChunk_def amount_def)
    have "remaining - amount \<le> length rows" using 1(4) by simp
    then obtain seg' where "append_loop rows (remaining - amount) seg2 = Inr seg'" "seg' \<noteq> []"
      "list_all (\<lambda>chunk. length chunk \<le> STANDARD_VECTOR_SIZE) seg'"
      "concat seg' = concat seg2 @ drop (length rows - (remaining - amount)) rows"
      using 1(1) [OF False 1(2) chunk_def amount_def offset_def seg1_def refl, folded seg2_def] seg2(1,2) by auto
    moreover have "length rows - (remaining - amount) = offset + amount"
      using 1(4) by (simp add: offset_def amount_def)
    moreover have "take amount (drop offset rows) @ drop (offset + amount) rows = drop offset rows"
      by (metis add.commute append_take_drop_id drop_drop)
    moreover have "append_loop rows remaining seg = append_loop rows (remaining - amount) seg2"
      unfolding seg2_def by (rule append_loop_step [OF False 1(2) chunk_def amount_def offset_def seg1_def])
    ultimately show ?thesis using seg2(3) by (simp add: offset_def)
  qed
qed

lemma InitializeAppend_ok:
  assumes "cdc_inv ts c"
  shows "cdc_inv ts (InitializeAppend c)" and "cdc_rows (InitializeAppend c) = cdc_rows c"
    and "segments (InitializeAppend c) \<noteq> []" and "List.last (segments (InitializeAppend c)) \<noteq> []"
proof -
  obtain segs seg where segs: "(if segments c = [] then [[]] else segments c) = segs @ [seg]"
    by (cases "segments c" rule: rev_cases) auto
  have eq: "segments (InitializeAppend c) = segs @ [if seg = [] then [[]] else seg]"
    unfolding InitializeAppend_def segs Let_def by (simp add: AllocateNewChunk_def)
  have rows: "concat (concat (segs @ [if seg = [] then [[]] else seg])) = concat (concat (segments c))"
    using arg_cong [OF segs, of "\<lambda>s. concat (concat s)"] by (auto split: if_splits)
  have small: "list_all (list_all (\<lambda>chunk. length chunk \<le> STANDARD_VECTOR_SIZE)) (segs @ [if seg = [] then [[]] else seg])"
    using assms segs by (auto simp: cdc_inv_def split: if_splits)
  show "cdc_rows (InitializeAppend c) = cdc_rows c" using rows by (simp add: cdc_rows_def eq)
  then show "cdc_inv ts (InitializeAppend c)"
    using assms small by (simp add: cdc_inv_def eq) (simp add: InitializeAppend_def Let_def)
  show "segments (InitializeAppend c) \<noteq> []" and "List.last (segments (InitializeAppend c)) \<noteq> []"
    by (simp_all add: eq)
qed

lemma Append_ok:
  assumes "cdc_inv ts c" and "chunk_types input = ts" and "chunk_rows input = Some rows"
  shows "\<exists>c'. Append input c = Inr c' \<and> cdc_inv ts c' \<and> cdc_rows c' = cdc_rows c @ rows"
proof -
  let ?c = "InitializeAppend c"
  note init = InitializeAppend_ok [OF assms(1)]
  have segs: "segments ?c = butlast (segments ?c) @ [List.last (segments ?c)]" using init(3) by simp
  have small: "list_all (list_all (\<lambda>chunk. length chunk \<le> STANDARD_VECTOR_SIZE)) (butlast (segments ?c))"
    "list_all (\<lambda>chunk. length chunk \<le> STANDARD_VECTOR_SIZE) (List.last (segments ?c))"
    using init(1) segs unfolding cdc_inv_def by (metis list_all_append list.pred_inject(2))+
  have len: "length rows = chunk_size input" by (rule chunk_rows_SomeD(1) [OF assms(3)])
  obtain seg where seg: "append_loop rows (chunk_size input) (List.last (segments ?c)) = Inr seg"
    "list_all (\<lambda>chunk. length chunk \<le> STANDARD_VECTOR_SIZE) seg" "concat seg = concat (List.last (segments ?c)) @ rows"
    using append_loop_ok [OF init(4) small(2), of "chunk_size input" rows] len by auto
  define c' where "c' = ?c\<lparr>segments := butlast (segments ?c) @ [seg], cdc_count := cdc_count ?c + chunk_size input\<rparr>"
  have rows: "cdc_rows c' = cdc_rows c @ rows"
    using arg_cong [OF segs, of "\<lambda>s. concat (concat s)"] seg(3) init(2) by (simp add: c'_def cdc_rows_def)
  moreover have "cdc_inv ts c'"
    using init(1,2) small(1) seg(2) rows len chunk_rows_typed [OF assms(3)] assms(2)
    by (auto simp: cdc_inv_def c'_def)
  moreover have "Append input c = Inr c'"
    by (simp add: Append_def assms(3) Let_def seg(1) c'_def)
  ultimately show ?thesis by blast
qed

lemma Combine_ok:
  assumes "cdc_inv ts c" and "cdc_inv ts other"
  shows "\<exists>c'. CDC_Combine other c = Inr c' \<and> cdc_inv ts c' \<and> cdc_rows c' = cdc_rows c @ cdc_rows other"
  using assms by (auto simp: CDC_Combine_def cdc_inv_def cdc_rows_def)

section \<open>The interface\<close>

text \<open>
  What the operators rely on: an abstract sequence of rows, appended to by chunks and by
  whole collections.
\<close>

locale row_collection =
  fixes add_chunk :: "'chunk \<Rightarrow> 's \<Rightarrow> 'e + 's" and merge :: "'s \<Rightarrow> 's \<Rightarrow> 'e + 's"
    and ok :: "'s \<Rightarrow> bool" and chunk_ok :: "'chunk \<Rightarrow> bool"
    and rows :: "'s \<Rightarrow> 'r list" and crows :: "'chunk \<Rightarrow> 'r list"
  assumes add_chunk_rows: "ok s \<Longrightarrow> chunk_ok c \<Longrightarrow> \<exists>s'. add_chunk c s = Inr s' \<and> ok s' \<and> rows s' = rows s @ crows c"
    and merge_rows: "ok s \<Longrightarrow> ok t \<Longrightarrow> \<exists>s'. merge t s = Inr s' \<and> ok s' \<and> rows s' = rows s @ rows t"
begin

lemma add_chunks:
  "ok s \<Longrightarrow> list_all chunk_ok cs \<Longrightarrow>
     \<exists>s'. for_res add_chunk cs s = Inr s' \<and> ok s' \<and> rows s' = rows s @ concat (map crows cs)"
proof (induction cs arbitrary: s)
  case (Cons c cs)
  obtain s1 where s1: "add_chunk c s = Inr s1" "ok s1" "rows s1 = rows s @ crows c"
    using add_chunk_rows [of s c] Cons.prems by auto
  then show ?case using Cons.IH [OF s1(2)] Cons.prems(2) by auto
qed simp

lemma merges:
  "ok s \<Longrightarrow> list_all ok ts \<Longrightarrow>
     \<exists>s'. for_res merge ts s = Inr s' \<and> ok s' \<and> rows s' = rows s @ concat (map rows ts)"
proof (induction ts arbitrary: s)
  case (Cons t ts)
  obtain s1 where s1: "merge t s = Inr s1" "ok s1" "rows s1 = rows s @ rows t"
    using merge_rows [of s t] Cons.prems by auto
  then show ?case using Cons.IH [OF s1(2)] Cons.prems(2) by auto
qed simp

end

definition input_ok :: "PhysicalType list \<Rightarrow> DataChunk \<Rightarrow> bool" where
  "input_ok ts c \<longleftrightarrow> chunk_types c = ts \<and> chunk_rows c \<noteq> None"

interpretation cdc: row_collection Append CDC_Combine "cdc_inv ts" "input_ok ts" cdc_rows "\<lambda>c. the (chunk_rows c)" for ts
  by unfold_locales (auto simp: input_ok_def intro: Append_ok Combine_ok)

section \<open>Fetching chunks\<close>

lemma ChunkCount_eq: "ChunkCount c = length (concat (segments c))"
proof -
  have "fold (\<lambda>segment n. n + length segment) segs n = n + length (concat segs)"
    for segs :: "row list list list" and n
    by (induction segs arbitrary: n) auto
  then show ?thesis by (simp add: ChunkCount_def)
qed

lemma fetch_loop_ok:
  "i < length (concat segs) \<Longrightarrow> fetch_loop ts segs i = Inr (segment_FetchChunk ts (concat segs ! i))"
  by (induction ts segs i rule: fetch_loop.induct) (auto simp: nth_append)

lemma FetchChunk_ok:
  "i < ChunkCount c \<Longrightarrow> FetchChunk c i = Inr (segment_FetchChunk (cdc_types c) (concat (segments c) ! i))"
  by (simp add: FetchChunk_def ChunkCount_eq fetch_loop_ok)

lemma segment_FetchChunk_rows:
  assumes "list_all (row_typed ts) chunk"
  shows "chunk_rows (segment_FetchChunk ts chunk) = Some chunk"
proof -
  have typed: "list_all (has_type (ts ! j)) (map (\<lambda>r. r ! j) chunk)" if "j < length ts" for j
    using assms that by (auto simp: list_all_iff row_typed_def list_all2_conv_all_nth)
  have "chunk_row (segment_FetchChunk ts chunk) i = Some (chunk ! i)" if "i < length chunk" for i
  proof -
    have len: "length (chunk ! i) = length ts"
      using assms that by (auto simp: list_all_length row_typed_def list_all2_lengthD)
    have "map (\<lambda>j. row_value (ReadVector (ts ! j) (map (\<lambda>r. r ! j) chunk)) i) [0..<length ts] = map Some (chunk ! i)"
      using ReadVector_value(1) [OF typed] that len by (auto intro!: nth_equalityI)
    then show ?thesis by (simp add: chunk_row_def segment_FetchChunk_def those_eq_Some_iff o_def)
  qed
  then show ?thesis
    by (auto simp: chunk_rows_def those_eq_Some_iff segment_FetchChunk_def intro!: nth_equalityI)
qed

lemma segment_FetchChunk_types:
  assumes "list_all (row_typed ts) chunk" and "list_all storable ts"
  shows "chunk_types (segment_FetchChunk ts chunk) = ts" and "list_all flat_ok (chunk_columns (segment_FetchChunk ts chunk))"
proof -
  have typed: "list_all (has_type (ts ! j)) (map (\<lambda>r. r ! j) chunk)" if "j < length ts" for j
    using assms that by (auto simp: list_all_iff row_typed_def list_all2_conv_all_nth)
  then have "flat_ok (ReadVector (ts ! j) (map (\<lambda>r. r ! j) chunk)) \<and> GetType (ReadVector (ts ! j) (map (\<lambda>r. r ! j) chunk)) = ts ! j"
    if "j < length ts" for j
    using ReadVector_ok(1) assms(2) that by (simp add: list_all_length)
  then show "chunk_types (segment_FetchChunk ts chunk) = ts" and "list_all flat_ok (chunk_columns (segment_FetchChunk ts chunk))"
    by (auto simp: chunk_types_def segment_FetchChunk_def list_all_iff intro!: nth_equalityI)
qed

lemma chunk_in_collection:
  assumes "cdc_inv ts c" and "i < ChunkCount c"
  shows "list_all (row_typed ts) (concat (segments c) ! i)" and "length (concat (segments c) ! i) \<le> STANDARD_VECTOR_SIZE"
    and "set (concat (segments c) ! i) \<subseteq> set (cdc_rows c)"
proof -
  have mem: "concat (segments c) ! i \<in> set (concat (segments c))" using assms(2) by (simp only: ChunkCount_eq nth_mem)
  then show sub: "set (concat (segments c) ! i) \<subseteq> set (cdc_rows c)" unfolding cdc_rows_def set_concat [of "concat _"] by blast
  then show "list_all (row_typed ts) (concat (segments c) ! i)" using assms(1) by (auto simp: cdc_inv_def list_all_iff)
  show "length (concat (segments c) ! i) \<le> STANDARD_VECTOR_SIZE" using assms(1) mem by (auto simp: cdc_inv_def list_all_iff)
qed

text \<open>
  The executor passes no empty chunk to a sink; then no chunk of the collection is empty
  either.
\<close>

definition cdc_nonempty :: "ColumnDataCollection \<Rightarrow> bool" where
  "cdc_nonempty c = list_all (list_all (\<lambda>chunk. chunk \<noteq> [])) (segments c)"

lemma append_loop_nonempty:
  assumes "seg \<noteq> []" and "list_all (\<lambda>chunk. chunk \<noteq> []) (butlast seg)" and "0 < remaining" and "remaining \<le> length rows"
    and "append_loop rows remaining seg = Inr seg'"
  shows "list_all (\<lambda>chunk. chunk \<noteq> []) seg'"
  using assms
proof (induction rows remaining seg rule: append_loop.induct)
  case (1 rows remaining seg)
  define chunk where "chunk = List.last seg"
  define amount where "amount = min remaining (STANDARD_VECTOR_SIZE - length chunk)"
  define offset where "offset = length rows - remaining"
  define seg1 where "seg1 = butlast seg @ [chunk @ take amount (drop offset rows)]"
  have step: "append_loop rows (remaining - amount) (if remaining - amount > 0 then AllocateNewChunk seg1 else seg1) = Inr seg'"
    using append_loop_step [OF _ 1(2) chunk_def amount_def offset_def seg1_def] 1(4,6) by simp
  have "chunk @ take amount (drop offset rows) \<noteq> []"
  proof (cases "amount = 0")
    case True
    then have "length chunk \<ge> STANDARD_VECTOR_SIZE" using 1(4) by (auto simp: amount_def)
    then show ?thesis by (auto simp: STANDARD_VECTOR_SIZE_def)
  next
    case False
    moreover have "offset < length rows" using 1(4,5) by (simp add: offset_def)
    ultimately show ?thesis by simp
  qed
  then have seg1: "list_all (\<lambda>chunk. chunk \<noteq> []) seg1" using 1(3) by (simp add: seg1_def)
  show ?case
  proof (cases "remaining - amount = 0")
    case True
    then show ?thesis using step seg1 by (simp add: append_loop.simps [of rows 0])
  next
    case False
    have "remaining \<noteq> 0" using 1(4) by simp
    from 1(1) [OF this 1(2) chunk_def amount_def offset_def seg1_def refl] False step seg1 1(5) show ?thesis
      by (simp add: AllocateNewChunk_def)
  qed
qed

lemma Append_nonempty:
  assumes "cdc_nonempty c" and "chunk_size input > 0" and "Append input c = Inr c'"
  shows "cdc_nonempty c'"
proof -
  let ?c = "InitializeAppend c"
  obtain segs seg where segs: "(if segments c = [] then [[]] else segments c) = segs @ [seg]"
    by (cases "segments c" rule: rev_cases) auto
  have eq: "segments ?c = segs @ [if seg = [] then [[]] else seg]"
    unfolding InitializeAppend_def segs Let_def by (simp add: AllocateNewChunk_def)
  have ne: "list_all (list_all (\<lambda>chunk. chunk \<noteq> [])) segs" "list_all (\<lambda>chunk. chunk \<noteq> []) seg"
    using assms(1) segs by (auto simp: cdc_nonempty_def split: if_splits)
  obtain rows where rows: "chunk_rows input = Some rows" using assms(3) by (auto simp: Append_def split: option.splits)
  obtain seg' where seg': "append_loop rows (chunk_size input) (if seg = [] then [[]] else seg) = Inr seg'"
    "c' = ?c\<lparr>segments := segs @ [seg'], cdc_count := cdc_count ?c + chunk_size input\<rparr>"
    using assms(3) by (auto simp: Append_def rows eq Let_def split: sum.splits)
  have "list_all (\<lambda>chunk. chunk \<noteq> []) (butlast (if seg = [] then [[]] else seg))"
    using ne(2) by (auto simp: list_all_iff dest: in_set_butlastD)
  from append_loop_nonempty [OF _ this assms(2) _ seg'(1)] chunk_rows_SomeD(1) [OF rows]
  show ?thesis using ne(1) by (simp add: cdc_nonempty_def seg'(2))
qed

interpretation cdc1: row_collection Append CDC_Combine "\<lambda>c. cdc_inv ts c \<and> cdc_nonempty c"
  "\<lambda>c. input_ok ts c \<and> chunk_size c > 0" cdc_rows "\<lambda>c. the (chunk_rows c)" for ts
proof (unfold_locales, goal_cases)
  case (1 s c)
  then show ?case using Append_ok [of ts s c] Append_nonempty [of s c] by (fastforce simp: input_ok_def)
next
  case (2 s t)
  then show ?case using Combine_ok [of ts s t] by (auto simp: CDC_Combine_def cdc_nonempty_def split: if_splits)
qed

lemma cdc_inv_new: "cdc_inv ts (ColumnDataCollection_new ts)" and cdc_rows_new: "cdc_rows (ColumnDataCollection_new ts) = []"
  by (simp_all add: cdc_inv_def cdc_rows_def ColumnDataCollection_new_def)

section \<open>Claims\<close>


definition sample_chunk :: DataChunk where
  "sample_chunk = \<lparr> chunk_columns = [Vector CONSTANT_VECTOR None (INT32 [5]), Vector (DICTIONARY_VECTOR [1, 0]) None (VARCHAR [[7], [8, 9]])],
     chunk_size = 2 \<rparr>"

lemma sample_chunk_rows: "chunk_rows sample_chunk = Some [[ScalarValue (Some (S_INT32 5)), ScalarValue (Some (S_VARCHAR [8, 9]))],
    [ScalarValue (Some (S_INT32 5)), ScalarValue (Some (S_VARCHAR [7]))]]"
  by (simp add: chunk_rows_def chunk_row_def sample_chunk_def scalar_at_def cell_at_def row_index_def upt_rec)

lemma sample_chunk_ok: "input_ok [T_INT32, T_VARCHAR] sample_chunk"
  by (simp add: input_ok_def sample_chunk_rows) (simp add: chunk_types_def sample_chunk_def)


end
