(* ===== verification/Physical_UseBF.thy ===== *)
theory Physical_UseBF
  imports Data_Collection Bloom_Builder
begin

text \<open>
  The operator that applies a Bloom filter to a chunk: the hashes of its key columns, the
  kernel that looks them up (bloom_filter_use_kernel.cpp), the slice of the chunk
  (common/types/vector.cpp, data_chunk.cpp) and \<open>PhysicalUseBF::ExecuteInternal\<close>
  (execution/operator/filter/physical_use_bf.cpp).
\<close>

section \<open>Hashes of the key columns\<close>

text \<open>
  The kernel and the task that builds a filter compute the hashes of several columns with
  the same statements: the first column is hashed, the others are combined in order, and
  a constant result is flattened.
\<close>

definition key_hashes :: "nat list \<Rightarrow> Vector list \<Rightarrow> nat \<Rightarrow> hash_t list hash_result" where
  "key_hashes cols dat row_num =
     bind_res (read_at cols 0) (\<lambda>c0.
     bind_res (read_at dat c0) (\<lambda>v0.
     bind_res (HashTypeSwitch v0 None row_num (fresh_hashes STANDARD_VECTOR_SIZE)) (\<lambda>h0.
     bind_res (for_res (\<lambda>c hashes. bind_res (read_at dat c) (\<lambda>v. CombineHashTypeSwitch v None row_num hashes)) (tl cols) h0) (\<lambda>h1.
     bind_res (Flatten row_num h1) (\<lambda>h2.
       case those (take row_num (hashes_of h2)) of None \<Rightarrow> Inl Uninitialised_memory | Some hs \<Rightarrow> Inr hs)))))"

definition key_hash :: "nat list \<Rightarrow> row \<Rightarrow> hash_t" where
  "key_hash cols r = combine_fields (hash_value (r ! List.hd cols)) (map ((!) r) (tl cols))"

text \<open>The key columns exist, and their hashes are defined.\<close>

definition keys_ok :: "nat list \<Rightarrow> Vector list \<Rightarrow> bool" where
  "keys_ok cols dat \<longleftrightarrow> cols \<noteq> [] \<and> list_all (\<lambda>c. c < length dat) cols \<and>
     hash_ok (dat ! List.hd cols) \<and> combines_ok (hash_form (dat ! List.hd cols)) (map ((!) dat) (tl cols))"

lemma combine_columns_struct:
  "list_all (\<lambda>c. c < length dat) cols \<Longrightarrow>
     for_res (\<lambda>c hashes. bind_res (read_at dat c) (\<lambda>v. CombineHashTypeSwitch v None n hashes)) cols h =
     StructLoopHash False (map ((!) dat) cols) None n h"
proof (induction cols arbitrary: h)
  case (Cons c cols)
  then show ?case by (cases "CombineHashTypeSwitch (dat ! c) None n h") (simp_all add: read_at_def)
qed simp

lemma hashes_flattened:
  assumes "hashed R k m [0..<n] f" and "0 < n" and "n \<le> m"
  shows "\<exists>h1 h2. R = Inr h1 \<and> Flatten n h1 = Inr h2 \<and> those (take n (hashes_of h2)) = Some (map f [0..<n])"
proof -
  obtain h1 where h1: "R = Inr h1" "is_constant h1 = k" "length (hashes_of h1) = m" "hashes_ok h1 [0..<n] f"
    using assms(1) by (auto simp: hashed_def)
  have vals: "hash_at h1 j = Some (f j)" if "j < n" for j
    using h1(4) that by (simp add: hashes_ok_hash_at)
  define h2 where "h2 = (if is_constant h1 then \<lparr> is_constant = False,
      hashes_of = replicate n (hashes_of h1 ! 0) @ replicate (STANDARD_VECTOR_SIZE - n) None \<rparr> else h1)"
  have "Flatten n h1 = Inr h2" using assms(2,3) h1(3) by (simp add: Flatten_def h2_def read_at_def)
  moreover have "take n (hashes_of h2) = map Some (map f [0..<n])"
    using vals assms(3) h1(3) by (intro nth_equalityI) (auto simp: h2_def hash_at_def nth_append split: if_splits)
  ultimately show ?thesis using h1(1) by (auto simp: those_eq_Some_iff)
qed

lemma key_hashes_ok:
  assumes keys: "keys_ok cols dat" and n: "0 < n" "n \<le> STANDARD_VECTOR_SIZE"
    and rows: "chunk_rows \<lparr> chunk_columns = dat, chunk_size = n \<rparr> = Some rs"
  shows "key_hashes cols dat n = Inr (map (key_hash cols) rs)"
proof -
  obtain c0 cs where cols: "cols = c0 # cs" using keys by (cases cols) (auto simp: keys_ok_def)
  have in_range: "c0 < length dat" "list_all (\<lambda>c. c < length dat) cs" using keys by (auto simp: keys_ok_def cols)
  have row: "row_value (dat ! c) i = Some (rs ! i ! c)" if "c < length dat" "i < n" for c i
  proof -
    have "map (\<lambda>v. row_value v i) dat = map Some (rs ! i)"
      using chunk_rows_SomeD(2) [OF rows, of i] that(2) by (simp add: chunk_row_def those_eq_Some_iff)
    from arg_cong [OF this, of "\<lambda>xs. xs ! c"] arg_cong [OF this, of length] that(1) show ?thesis by simp
  qed
  let ?h0 = "fresh_hashes STANDARD_VECTOR_SIZE"
  have "fields_spec True (map ((!) dat) cols) None n ?h0" by (rule column_specs(3))
  moreover have "rows_ok None n" "rows_of None n = [0..<n]" using n by (simp_all add: rows_ok_def rows_of_def)
  moreover have "room_for ?h0 [0..<n]" using n by (auto simp: room_for_def fresh_hashes_def)
  ultimately have "hashed (StructLoopHash True (map ((!) dat) cols) None n ?h0)
      (combine_forms (hash_form (dat ! c0)) (map ((!) dat) cs)) (length (hashes_of ?h0)) [0..<n]
      (\<lambda>r. combine_fields (hash_value (the (row_value (dat ! c0) r))) (map (\<lambda>c. the (row_value c r)) (map ((!) dat) cs)))"
    using keys in_range row by (auto simp: fields_spec_def cols keys_ok_def list_all_iff fresh_hashes_def)
  then have "hashed (StructLoopHash True (map ((!) dat) cols) None n ?h0)
      (combine_forms (hash_form (dat ! c0)) (map ((!) dat) cs)) (length (hashes_of ?h0)) [0..<n] (\<lambda>i. key_hash cols (rs ! i))"
    by (rule hashed_cong) (use in_range row in \<open>auto simp: key_hash_def cols list_all_iff cong: map_cong\<close>)
  then obtain h1 h2 where h: "StructLoopHash True (map ((!) dat) cols) None n ?h0 = Inr h1" "Flatten n h1 = Inr h2"
    "those (take n (hashes_of h2)) = Some (map (\<lambda>i. key_hash cols (rs ! i)) [0..<n])"
    using hashes_flattened n by (fastforce simp: fresh_hashes_def)
  obtain h0 where "HashTypeSwitch (dat ! c0) None n ?h0 = Inr h0"
    "StructLoopHash False (map ((!) dat) cs) None n h0 = Inr h1"
    using h(1) by (auto simp: cols split: sum.splits)
  moreover have "map (\<lambda>i. key_hash cols (rs ! i)) [0..<n] = map (key_hash cols) rs"
    using chunk_rows_SomeD(1) [OF rows] by (intro nth_equalityI) simp_all
  moreover have "read_at cols 0 = Inr c0" "read_at dat c0 = Inr (dat ! c0)"
    using in_range by (simp_all add: read_at_def cols)
  ultimately show ?thesis
    using h(2,3) by (simp add: key_hashes_def combine_columns_struct [OF in_range(2)] cols)
qed

section \<open>The kernel\<close>

definition BloomFilterUseKernel_filter :: "'a arrow_lib_scheme \<Rightarrow> u8 list \<Rightarrow> Vector list \<Rightarrow> BlockedBloomFilter \<Rightarrow>
    nat list \<Rightarrow> nat \<Rightarrow> (nat list \<times> nat) hash_result" where
  "BloomFilterUseKernel_filter A masks result bloom_filter sel row_num =
     (if isEmpty bloom_filter then Inr (sel, 0)
      else bind_res (key_hashes (BoundColsApplied bloom_filter) result row_num) (\<lambda>hashes.
             case Find A masks bloom_filter (CpuInfo_AVX2 A) row_num hashes (sel, 0) False of
               None \<Rightarrow> Inl Out_of_bounds
             | Some r \<Rightarrow> Inr r))"

section \<open>Slices\<close>

definition SelectionVector_Slice :: "nat list \<Rightarrow> nat list \<Rightarrow> nat \<Rightarrow> nat list hash_result" where
  "SelectionVector_Slice target sel cnt =
     for_res (\<lambda>i acc. bind_res (read_at sel i) (\<lambda>new_idx. bind_res (read_at target new_idx) (\<lambda>idx. Inr (acc @ [idx]))))
       [0..<cnt] []"

text \<open>
  The children of a struct are sliced with it. The cache of merged selections that
  \<open>DataChunk::Slice\<close> passes along only avoids merging the same two selections twice.
\<close>

fun Slice :: "nat list \<Rightarrow> nat \<Rightarrow> Vector \<Rightarrow> Vector hash_result"
  and slice_all :: "nat list \<Rightarrow> nat \<Rightarrow> Vector list \<Rightarrow> Vector list hash_result" where
  "Slice sel cnt (Vector vt vmask d) =
     (case vt of
        CONSTANT_VECTOR \<Rightarrow> Inr (Vector vt vmask d)
      | DICTIONARY_VECTOR current_sel \<Rightarrow>
          bind_res (SelectionVector_Slice current_sel sel cnt) (\<lambda>sliced_dictionary.
          bind_res (case d of STRUCT cs \<Rightarrow> bind_res (slice_all sel cnt cs) (\<lambda>cs'. Inr (STRUCT cs')) | _ \<Rightarrow> Inr d) (\<lambda>d'.
          Inr (Vector (DICTIONARY_VECTOR sliced_dictionary) vmask d')))
      | FLAT_VECTOR \<Rightarrow>
          bind_res (case d of STRUCT cs \<Rightarrow> bind_res (slice_all sel cnt cs) (\<lambda>cs'. Inr (STRUCT cs')) | _ \<Rightarrow> Inr d) (\<lambda>d'.
          Inr (Vector (DICTIONARY_VECTOR sel) vmask d')))"
| "slice_all sel cnt [] = Inr []"
| "slice_all sel cnt (v # vs) = bind_res (Slice sel cnt v) (\<lambda>v'. bind_res (slice_all sel cnt vs) (\<lambda>vs'. Inr (v' # vs')))"

definition DataChunk_Slice :: "DataChunk \<Rightarrow> nat list \<Rightarrow> nat \<Rightarrow> DataChunk hash_result" where
  "DataChunk_Slice other sel count_p =
     bind_res (slice_all sel count_p (chunk_columns other)) (\<lambda>cols. Inr \<lparr> chunk_columns = cols, chunk_size = count_p \<rparr>)"

definition DataChunk_Reference :: "DataChunk \<Rightarrow> DataChunk" where
  "DataChunk_Reference c = c"

section \<open>The operator\<close>

text \<open>\<open>sel0\<close> is the memory of the fresh selection vector.\<close>

definition ExecuteInternal :: "'a arrow_lib_scheme \<Rightarrow> u8 list \<Rightarrow> BlockedBloomFilter list \<Rightarrow> nat list \<Rightarrow> DataChunk \<Rightarrow>
    DataChunk hash_result" where
  "ExecuteInternal A masks bf_to_use sel0 input =
     (let row_num = chunk_size input in
      bind_res (read_at bf_to_use 0) (\<lambda>bf.
      bind_res (BloomFilterUseKernel_filter A masks (chunk_columns input) bf sel0 row_num) (\<lambda>(sel, result_count).
        if result_count = row_num then Inr (DataChunk_Reference input)
        else DataChunk_Slice input sel result_count)))"

section \<open>Slices keep the selected rows\<close>

fun all_constant :: "Vector \<Rightarrow> bool" where
  "all_constant (Vector vt vmask d) \<longleftrightarrow>
     vt = CONSTANT_VECTOR \<and> (case d of STRUCT cs \<Rightarrow> list_all all_constant cs | _ \<Rightarrow> True)"

text \<open>The fields of a constant struct are constant.\<close>

fun slice_ok :: "Vector \<Rightarrow> bool" where
  "slice_ok (Vector vt vmask d) \<longleftrightarrow>
     (case d of STRUCT cs \<Rightarrow> list_all slice_ok cs \<and> (vt = CONSTANT_VECTOR \<longrightarrow> list_all all_constant cs) | _ \<Rightarrow> True)"

lemma cell_at_cong: "row_index vt i = row_index vt' j \<Longrightarrow> cell_at vt vmask xs i = cell_at vt' vmask xs j"
  by (simp add: cell_at_def)

lemma all_constant_row: "all_constant v \<Longrightarrow> row_value v i = row_value v j"
proof (induction v i rule: row_value.induct)
  case (1 vt vmask d r)
  show ?case
  proof (cases d)
    case (STRUCT cs)
    then have "\<forall>c \<in> set cs. row_value c r = row_value c j" using 1(1,3) by (auto simp: list_all_iff row_index_def)
    then show ?thesis using STRUCT 1(3) by (simp add: row_index_def cong: map_cong)
  next
    case (LIST entries child n)
    then show ?thesis using cell_at_cong [of vt r vt j vmask entries] 1(3) by (simp add: row_index_def)
  qed (use 1(3) in \<open>auto simp: scalar_at_def row_index_def intro!: arg_cong [where f = "map_option _"] cell_at_cong\<close>)
qed

lemma SelectionVector_Slice_ok:
  assumes "\<And>i. i < cnt \<Longrightarrow> i < length sel \<and> sel ! i < length target"
  shows "SelectionVector_Slice target sel cnt = Inr (map (\<lambda>i. target ! (sel ! i)) [0..<cnt])"
  using assms
proof (induction cnt)
  case (Suc cnt)
  then show ?case by (simp add: SelectionVector_Slice_def read_at_def)
qed (simp add: SelectionVector_Slice_def)

lemma row_value_reindex:
  assumes "\<And>cs. d \<noteq> STRUCT cs" and "row_index vt' i = row_index vt j"
  shows "row_value (Vector vt' vmask d) i = row_value (Vector vt vmask d) j"
proof (cases d)
  case (LIST entries child n)
  then show ?thesis using cell_at_cong [OF assms(2), of vmask entries] by simp
qed (use assms in \<open>auto simp: scalar_at_def intro!: arg_cong [where f = "map_option _"] cell_at_cong\<close>)

lemma row_value_index: "row_value (Vector vt vmask d) r \<noteq> None \<Longrightarrow> row_index vt r \<noteq> None"
  by (cases d) (auto simp: scalar_at_def cell_at_def split: option.splits if_splits)

lemma Slice_ok:
  "slice_ok v \<Longrightarrow> (\<And>i. i < cnt \<Longrightarrow> i < length sel \<and> row_value v (sel ! i) \<noteq> None) \<Longrightarrow>
     \<exists>v'. Slice sel cnt v = Inr v' \<and> GetType v' = GetType v \<and> (\<forall>i < cnt. row_value v' i = row_value v (sel ! i))"
  "list_all slice_ok vs \<Longrightarrow> (\<And>i v. i < cnt \<Longrightarrow> v \<in> set vs \<Longrightarrow> i < length sel \<and> row_value v (sel ! i) \<noteq> None) \<Longrightarrow>
     \<exists>vs'. slice_all sel cnt vs = Inr vs' \<and> map GetType vs' = map GetType vs \<and>
       (\<forall>i < cnt. map (\<lambda>v. row_value v i) vs' = map (\<lambda>v. row_value v (sel ! i)) vs)"
proof (induction sel cnt v and sel cnt vs rule: Slice_slice_all.induct)
  case (1 sel cnt vt vmask d)
  define vt' where "vt' = (case vt of CONSTANT_VECTOR \<Rightarrow> CONSTANT_VECTOR
    | DICTIONARY_VECTOR s \<Rightarrow> DICTIONARY_VECTOR (map (\<lambda>i. s ! (sel ! i)) [0..<cnt]) | FLAT_VECTOR \<Rightarrow> DICTIONARY_VECTOR sel)"
  have idx: "row_index vt (sel ! i) \<noteq> None" "i < length sel" if "i < cnt" for i
    using 1(4) [OF that] row_value_index by blast+
  have reindex: "row_index vt' i = row_index vt (sel ! i)" if "i < cnt" for i
    using idx [OF that] that by (auto simp: vt'_def row_index_def split: VectorType.splits if_splits)
  have merged: "SelectionVector_Slice s sel cnt = Inr (map (\<lambda>i. s ! (sel ! i)) [0..<cnt])" if "vt = DICTIONARY_VECTOR s" for s
    using idx that by (intro SelectionVector_Slice_ok) (fastforce simp: row_index_def split: if_splits)
  show ?case
  proof (cases "vt = CONSTANT_VECTOR \<or> (\<forall>cs. d \<noteq> STRUCT cs)")
    case True
    have eq: "Slice sel cnt (Vector vt vmask d) = Inr (Vector vt' vmask d)"
    proof (cases vt)
      case (DICTIONARY_VECTOR s)
      then show ?thesis using True merged [OF DICTIONARY_VECTOR] by (cases d) (auto simp: vt'_def)
    next
      case FLAT_VECTOR
      then show ?thesis using True by (cases d) (auto simp: vt'_def)
    qed (simp add: vt'_def)
    have "row_value (Vector vt' vmask d) i = row_value (Vector vt vmask d) (sel ! i)" if "i < cnt" for i
    proof (cases "\<exists>cs. d = STRUCT cs")
      case True
      then have "vt = CONSTANT_VECTOR" "all_constant (Vector vt vmask d)"
        using \<open>vt = CONSTANT_VECTOR \<or> _\<close> 1(3) by auto
      then show ?thesis using all_constant_row [of "Vector vt vmask d" i "sel ! i"] by (simp add: vt'_def)
    qed (use reindex [OF that] row_value_reindex in blast)
    then show ?thesis using eq by (cases d) auto
  next
    case False
    then obtain cs where d: "d = STRUCT cs" and vt: "vt \<noteq> CONSTANT_VECTOR" by blast
    have vals: "row_value c (sel ! i) \<noteq> None" if "i < cnt" "c \<in> set cs" for i c
      using struct_values(1) [of vt vmask cs "sel ! i" c] 1(4) [OF that(1)] that(2) d by blast
    have IH: "\<exists>cs'. slice_all sel cnt cs = Inr cs' \<and> map GetType cs' = map GetType cs \<and>
       (\<forall>i < cnt. map (\<lambda>v. row_value v i) cs' = map (\<lambda>v. row_value v (sel ! i)) cs)"
    proof (cases vt)
      case FLAT_VECTOR
      from 1(1) [OF FLAT_VECTOR d] 1(3) vals idx(2) d show ?thesis by simp
    next
      case (DICTIONARY_VECTOR s)
      from 1(2) [OF DICTIONARY_VECTOR merged [OF DICTIONARY_VECTOR] d] 1(3) vals idx(2) d show ?thesis by simp
    qed (use vt in simp)
    then obtain cs' where cs': "slice_all sel cnt cs = Inr cs'" "map GetType cs' = map GetType cs"
      "\<And>i. i < cnt \<Longrightarrow> map (\<lambda>v. row_value v i) cs' = map (\<lambda>v. row_value v (sel ! i)) cs" by blast
    have "Slice sel cnt (Vector vt vmask d) = Inr (Vector vt' vmask (STRUCT cs'))"
      using vt d cs'(1) merged by (cases vt) (auto simp: vt'_def)
    moreover have "row_value (Vector vt' vmask (STRUCT cs')) i = row_value (Vector vt vmask d) (sel ! i)" if "i < cnt" for i
      unfolding d row_value.simps VectorData.case reindex [OF that] cs'(3) [OF that] by (rule refl)
    ultimately show ?thesis using cs'(2) d by simp
  qed
next
  case (2 sel cnt)
  then show ?case by simp
next
  case (3 sel cnt v vs)
  obtain v' where "Slice sel cnt v = Inr v'" "GetType v' = GetType v" "\<forall>i < cnt. row_value v' i = row_value v (sel ! i)"
    using 3(1) 3(3,4) by auto
  moreover from this(1) obtain vs' where "slice_all sel cnt vs = Inr vs'" "map GetType vs' = map GetType vs"
    "\<forall>i < cnt. map (\<lambda>v. row_value v i) vs' = map (\<lambda>v. row_value v (sel ! i)) vs"
    using 3(2) [of v'] 3(3,4) by auto
  ultimately show ?case by simp
qed

lemma DataChunk_Slice_ok:
  assumes "chunk_rows input = Some rs" and "list_all slice_ok (chunk_columns input)"
    and "cnt \<le> length sel" and "list_all (\<lambda>i. i < chunk_size input) (take cnt sel)"
  shows "\<exists>out. DataChunk_Slice input sel cnt = Inr out \<and> chunk_types out = chunk_types input \<and>
    chunk_rows out = Some (map ((!) rs) (take cnt sel))"
proof -
  have row: "chunk_row input (sel ! i) = Some (rs ! (sel ! i))" "i < length sel" if "i < cnt" for i
    using chunk_rows_SomeD(2) [OF assms(1), of "sel ! i"] assms(3,4) that by (auto simp: list_all_length)
  have "row_value v (sel ! i) \<noteq> None" if "i < cnt" "v \<in> set (chunk_columns input)" for i v
    using row(1) [OF that(1)] that(2) by (auto simp: chunk_row_def dest!: those_map_Some)
  then obtain vs where vs: "slice_all sel cnt (chunk_columns input) = Inr vs"
    "map GetType vs = map GetType (chunk_columns input)"
    "\<And>i. i < cnt \<Longrightarrow> map (\<lambda>v. row_value v i) vs = map (\<lambda>v. row_value v (sel ! i)) (chunk_columns input)"
    using Slice_ok(2) [OF assms(2), of cnt sel] row(2) by blast
  let ?out = "\<lparr> chunk_columns = vs, chunk_size = cnt \<rparr>"
  have "chunk_row ?out i = Some (rs ! (sel ! i))" if "i < cnt" for i
    using vs(3) [OF that] row(1) [OF that] by (simp add: chunk_row_def)
  then have "chunk_rows ?out = Some (map ((!) rs) (take cnt sel))"
    unfolding chunk_rows_def those_eq_Some_iff using assms(3) by (intro nth_equalityI) auto
  then show ?thesis using vs(1,2) by (simp add: DataChunk_Slice_def chunk_types_def)
qed

section \<open>The operator keeps what the filter finds\<close>

lemma filter_nth_rows: "map ((!) xs) (filter (\<lambda>i. P (xs ! i)) [0..<length xs]) = filter P xs"
proof -
  have "filter P xs = filter P (map ((!) xs) [0..<length xs])" by (simp only: map_nth)
  then show ?thesis by (simp add: filter_map o_def)
qed

lemma ExecuteInternal_ok:
  assumes A: "arrow_rotl_ok A" and wf: "bf_wf f" and keys: "keys_ok (BoundColsApplied f) (chunk_columns input)"
    and rows: "chunk_rows input = Some rs" and slices: "list_all slice_ok (chunk_columns input)"
    and size: "0 < chunk_size input" "chunk_size input \<le> STANDARD_VECTOR_SIZE" and sel0: "length sel0 = STANDARD_VECTOR_SIZE"
  shows "\<exists>out. ExecuteInternal A masks (f # fs) sel0 input = Inr out \<and> chunk_types out = chunk_types input \<and>
    chunk_rows out = Some (filter (\<lambda>r. Find1 A masks f (key_hash (BoundColsApplied f) r)) rs)"
proof -
  let ?n = "chunk_size input" and ?P = "\<lambda>r. Find1 A masks f (key_hash (BoundColsApplied f) r)"
  let ?hs = "map (key_hash (BoundColsApplied f)) rs"
  have len: "length rs = ?n" by (rule chunk_rows_SomeD(1) [OF rows])
  have hs: "key_hashes (BoundColsApplied f) (chunk_columns input) ?n = Inr ?hs"
    using key_hashes_ok [OF keys size, of rs] rows by (cases input) simp
  have ne: "\<not> isEmpty f" using wf bf_wfD [of f] by (auto simp: isEmpty_def)
  obtain sel k where find: "Find A masks f (CpuInfo_AVX2 A) ?n ?hs (sel0, 0) False = Some (sel, k)"
    "length sel = length sel0" "take k sel = filter (\<lambda>i. Find1 A masks f (?hs ! i)) [0..<?n]"
    "k = length (filter (\<lambda>i. Find1 A masks f (?hs ! i)) [0..<?n])"
    using Find_spec [OF A wf, of ?n ?hs 0 sel0 masks "CpuInfo_AVX2 A" False] size sel0 len
    by (auto simp: sel_extends_def STANDARD_VECTOR_SIZE_def)
  have bound: "k \<le> length sel"
    using length_filter_le [of "\<lambda>i. Find1 A masks f (?hs ! i)" "[0..<?n]"] find(2,4) size(2) sel0 by simp
  have sel: "take k sel = filter (\<lambda>i. ?P (rs ! i)) [0..<?n]"
    unfolding find(3) using len by (intro filter_cong) simp_all
  have k: "k = length (filter ?P rs)"
    using arg_cong [OF sel, of length] bound filter_nth_rows [of rs ?P] len by (metis length_map length_take min.absorb2)
  have kernel: "BloomFilterUseKernel_filter A masks (chunk_columns input) f sel0 ?n = Inr (sel, k)"
    by (simp add: BloomFilterUseKernel_filter_def ne hs find(1))
  show ?thesis
  proof (cases "k = ?n")
    case True
    then have "filter ?P rs = rs" using k len by (metis filter_id_conv length_filter_less linorder_neq_iff)
    then show ?thesis
      using kernel True rows by (simp add: ExecuteInternal_def Let_def read_at_def DataChunk_Reference_def)
  next
    case False
    have "list_all (\<lambda>i. i < ?n) (take k sel)" unfolding sel by (simp add: list_all_iff)
    from DataChunk_Slice_ok [OF rows slices bound this]
    have "\<exists>out. DataChunk_Slice input sel k = Inr out \<and> chunk_types out = chunk_types input \<and> chunk_rows out = Some (filter ?P rs)"
      unfolding sel using filter_nth_rows [of rs ?P] len by simp
    then show ?thesis using kernel False by (simp add: ExecuteInternal_def Let_def read_at_def)
  qed
qed

section \<open>Claims\<close>

text \<open>
  C32. A USE_BF operator is a filter on rows: from a chunk of any vector forms it returns
  a chunk of the same column types whose rows are, in order, the rows of the input whose
  key is found in the Bloom filter; it neither fails nor leaves its arrays.
\<close>

theorem UseBF_filters_rows:
  assumes "arrow_rotl_ok A" and "bf_wf f" and "keys_ok (BoundColsApplied f) (chunk_columns input)"
    and "chunk_rows input = Some rs" and "list_all slice_ok (chunk_columns input)"
    and "0 < chunk_size input" and "chunk_size input \<le> STANDARD_VECTOR_SIZE" and "length sel0 = STANDARD_VECTOR_SIZE"
  shows "\<exists>out. ExecuteInternal A masks [f] sel0 input = Inr out \<and> chunk_types out = chunk_types input \<and>
    chunk_rows out = Some (filter (\<lambda>r. Find1 A masks f (key_hash (BoundColsApplied f) r)) rs)"
  by (rule ExecuteInternal_ok [OF assms])

lemma keys_ok_sample: "keys_ok [0, 1] (chunk_columns sample_chunk)" "list_all slice_ok (chunk_columns sample_chunk)"
  by (simp_all add: keys_ok_def sample_chunk_def)

theorem UseBF_filters_rows_witness:
  "\<exists>out. ExecuteInternal arrow_ref (replicate 136 85) [eight_blocks\<lparr>BoundColsApplied := [0, 1]\<rparr>] (replicate 2048 0) sample_chunk = Inr out \<and>
     chunk_types out = [T_INT32, T_VARCHAR]"
proof -
  have wf: "bf_wf (eight_blocks\<lparr>BoundColsApplied := [0, 1]\<rparr>)" using bf_wf_eight_blocks by (simp add: bf_wf_def)
  have keys: "keys_ok (BoundColsApplied (eight_blocks\<lparr>BoundColsApplied := [0, 1]\<rparr>)) (chunk_columns sample_chunk)"
    using keys_ok_sample(1) by simp
  have size: "0 < chunk_size sample_chunk" "chunk_size sample_chunk \<le> STANDARD_VECTOR_SIZE"
    by (simp_all add: sample_chunk_def STANDARD_VECTOR_SIZE_def)
  have sel0: "length (replicate 2048 (0::nat)) = STANDARD_VECTOR_SIZE" by (simp add: STANDARD_VECTOR_SIZE_def)
  have "chunk_types sample_chunk = [T_INT32, T_VARCHAR]" using sample_chunk_ok by (simp add: input_ok_def)
  then show ?thesis
    using UseBF_filters_rows [OF arrow_ref_ok(4) wf keys sample_chunk_rows keys_ok_sample(2) size sel0, of "replicate 136 85"]
    by auto
qed

text \<open>
  C34. A filter without blocks, as its constructor leaves it, rejects everything: the operator
  does not fail, it drops every row of every chunk.
\<close>

theorem UseBF_unbuilt_drops_rows:
  assumes "isEmpty f" and "chunk_rows input = Some rs" and "list_all slice_ok (chunk_columns input)" and "0 < chunk_size input"
  shows "\<exists>out. ExecuteInternal A masks [f] sel0 input = Inr out \<and> chunk_rows out = Some []"
  using DataChunk_Slice_ok [OF assms(2,3), of 0 sel0] assms(1,4)
  by (auto simp: ExecuteInternal_def BloomFilterUseKernel_filter_def read_at_def Let_def)

theorem UseBF_unbuilt_drops_rows_witness:
  "\<exists>out. ExecuteInternal arrow_ref [] [BlockedBloomFilter_new] [] sample_chunk = Inr out \<and> chunk_rows out = Some []"
  using UseBF_unbuilt_drops_rows [OF _ sample_chunk_rows keys_ok_sample(2), of BlockedBloomFilter_new arrow_ref "[]" "[]"]
  by (simp add: isEmpty_def BlockedBloomFilter_new_def sample_chunk_def)

end
