(* ===== verification/Physical_CreateBF.thy ===== *)
theory Physical_CreateBF
  imports Physical_UseBF
begin

text \<open>
  The operator that builds Bloom filters (execution/operator/persistent/
  physical_create_bf.cpp, without the configuration \<open>External\<close>, which is not compiled).
  As a sink it collects its input, thread by thread; \<open>Finalize\<close> joins the collections and
  starts a builder per filter; finalize tasks hash the collected chunks into the filters;
  as a source the operator then returns the collected chunks.

  Threads: every task has the index of the thread that runs it. The claims hold for
  every order of the tasks and every assignment of threads; that the updates of tasks
  running at the same time may be interleaved is the subject of the builder theory.
\<close>

section \<open>Sink\<close>

record CreateBFLocalSinkState =
  local_data :: ColumnDataCollection

datatype BloomFilterBuilder = SingleThreaded BloomFilterBuilder_SingleThreaded | Parallel BloomFilterBuilder_Parallel

text \<open>\<open>builders\<close> pairs every builder with the filter it points to.\<close>

record CreateBFGlobalSinkState =
  op_types :: "PhysicalType list"
  builders :: "(BloomFilterBuilder \<times> BlockedBloomFilter) list"
  local_data_collections :: "ColumnDataCollection list"
  total_data :: ColumnDataCollection

datatype bf_error = Collection_error cdc_error | Hash_error hash_error | Invalid_thread

definition GetGlobalSinkState :: "PhysicalType list \<Rightarrow> CreateBFGlobalSinkState" where
  "GetGlobalSinkState ts =
     \<lparr> op_types = ts, builders = [], local_data_collections = [], total_data = ColumnDataCollection_new ts \<rparr>"

definition GetLocalSinkState :: "PhysicalType list \<Rightarrow> CreateBFLocalSinkState" where
  "GetLocalSinkState ts = \<lparr> local_data = ColumnDataCollection_new ts \<rparr>"

definition Sink :: "DataChunk \<Rightarrow> CreateBFLocalSinkState \<Rightarrow> CreateBFLocalSinkState cdc_result" where
  "Sink chunk state = bind_res (Append chunk (local_data state)) (\<lambda>d. Inr (state\<lparr>local_data := d\<rparr>))"

definition Combine :: "CreateBFLocalSinkState \<Rightarrow> CreateBFGlobalSinkState \<Rightarrow> CreateBFGlobalSinkState" where
  "Combine state gstate = gstate\<lparr>local_data_collections := local_data_collections gstate @ [local_data state]\<rparr>"

section \<open>Finalize\<close>

definition BloomFilterBuilder_Parallel_new :: BloomFilterBuilder_Parallel where
  "BloomFilterBuilder_Parallel_new =
     \<lparr>total_row_nums = 0, hardware_flags = 0, log_num_prtns = 0, thread_local_states = [], prtn_locks = PartitionLocks_new\<rparr>"

text \<open>The status that \<open>Begin\<close> returns is not looked at.\<close>

definition begin_builder :: "'a arrow_lib_scheme \<Rightarrow> nat \<Rightarrow> nat \<Rightarrow> BlockedBloomFilter \<Rightarrow> BloomFilterBuilder \<times> BlockedBloomFilter" where
  "begin_builder A num_threads num_rows filter_p =
     (if num_threads = 1
      then case SingleThreaded_Begin A (CpuInfo_AVX2 A) num_rows filter_p of (_, b, f) \<Rightarrow> (SingleThreaded b, f)
      else case Parallel_Begin A num_threads (CpuInfo_AVX2 A) num_rows BloomFilterBuilder_Parallel_new filter_p of
             (_, b, f) \<Rightarrow> (Parallel b, f))"

definition Finalize :: "'a arrow_lib_scheme \<Rightarrow> nat \<Rightarrow> BlockedBloomFilter list \<Rightarrow> CreateBFGlobalSinkState \<Rightarrow>
    CreateBFGlobalSinkState cdc_result" where
  "Finalize A num_threads bf_to_create sink =
     bind_res (for_res CDC_Combine (local_data_collections sink) (total_data sink)) (\<lambda>d.
       let num_rows = cdc_count d
       in Inr (sink\<lparr>total_data := d, local_data_collections := [],
                    builders := builders sink @ map (begin_builder A num_threads num_rows) bf_to_create\<rparr>))"

section \<open>Finalize tasks\<close>

definition PARALLEL_CONSTRUCT_THRESHOLD :: nat where "PARALLEL_CONSTRUCT_THRESHOLD = 1048576"

text \<open>
  The loop that cuts the chunks into one range per thread, as the tasks and the source
  have it: the tasks break after the range that reaches the last chunk, the source
  before it would start an empty one.
\<close>

fun task_loop :: "nat \<Rightarrow> nat \<Rightarrow> nat \<Rightarrow> nat \<Rightarrow> (nat \<times> nat) list" where
  "task_loop chunks_per_thread chunk_count 0 chunk_idx = []"
| "task_loop chunks_per_thread chunk_count (Suc threads) chunk_idx =
     (let chunk_idx_to = min (chunk_idx + chunks_per_thread) chunk_count
      in (chunk_idx, chunk_idx_to) #
         (if chunk_idx_to = chunk_count then [] else task_loop chunks_per_thread chunk_count threads chunk_idx_to))"

definition CreateBF_Schedule :: "nat \<Rightarrow> bool \<Rightarrow> CreateBFGlobalSinkState \<Rightarrow> (nat \<times> nat) list" where
  "CreateBF_Schedule num_threads verify_parallelism sink =
     (let chunk_count = ChunkCount (total_data sink)
      in if num_threads = 1 \<or> cdc_count (total_data sink) < PARALLEL_CONSTRUCT_THRESHOLD \<and> \<not> verify_parallelism
         then [(0, chunk_count)]
         else let chunks_per_thread = max ((chunk_count + num_threads - 1) div num_threads) 1
              in task_loop chunks_per_thread chunk_count num_threads 0)"

definition PushNextBatch :: "'a arrow_lib_scheme \<Rightarrow> u8 list \<Rightarrow> nat \<Rightarrow> nat \<Rightarrow> hash_t list \<Rightarrow> BloomFilterBuilder \<times> BlockedBloomFilter \<Rightarrow>
    (BloomFilterBuilder \<times> BlockedBloomFilter) option" where
  "PushNextBatch A masks thread_id num_rows hashes s =
     (case s of
        (SingleThreaded b, f) \<Rightarrow> (case SingleThreaded_PushNextBatch A masks num_rows hashes (b, f) of (b', f') \<Rightarrow> Some (SingleThreaded b', f'))
      | (Parallel b, f) \<Rightarrow> (case Parallel_PushNextBatch A masks thread_id num_rows hashes (b, f) of
           None \<Rightarrow> None | Some (b', f') \<Rightarrow> Some (Parallel b', f')))"

text \<open>One builder and one chunk: hash the columns the filter is built on and push the hashes.\<close>

definition build_chunk :: "'a arrow_lib_scheme \<Rightarrow> u8 list \<Rightarrow> nat \<Rightarrow> DataChunk \<Rightarrow> BloomFilterBuilder \<times> BlockedBloomFilter \<Rightarrow>
    bf_error + BloomFilterBuilder \<times> BlockedBloomFilter" where
  "build_chunk A masks thread_id chunk b =
     (case key_hashes (BuiltCols (snd b)) (chunk_columns chunk) (chunk_size chunk) of
        Inl e \<Rightarrow> Inl (Hash_error e)
      | Inr hashes \<Rightarrow>
          (case PushNextBatch A masks thread_id (chunk_size chunk) hashes b of
             None \<Rightarrow> Inl Invalid_thread
           | Some b' \<Rightarrow> Inr b'))"

fun build_all :: "'a arrow_lib_scheme \<Rightarrow> u8 list \<Rightarrow> nat \<Rightarrow> DataChunk \<Rightarrow> (BloomFilterBuilder \<times> BlockedBloomFilter) list \<Rightarrow>
    bf_error + (BloomFilterBuilder \<times> BlockedBloomFilter) list" where
  "build_all A masks thread_id chunk [] = Inr []"
| "build_all A masks thread_id chunk (b # bs) =
     bind_res (build_chunk A masks thread_id chunk b) (\<lambda>b'.
     bind_res (build_all A masks thread_id chunk bs) (\<lambda>bs'. Inr (b' # bs')))"

text \<open>
  The thread of a task: worker threads are numbered from 1, every other thread is 0.
\<close>

fun thread_index :: "'t \<Rightarrow> 't list \<Rightarrow> nat \<Rightarrow> nat" where
  "thread_index this [] i = 0"
| "thread_index this (t # threads) i = (if this = t then i + 1 else thread_index this threads (Suc i))"

definition ExecuteTask :: "'a arrow_lib_scheme \<Rightarrow> u8 list \<Rightarrow> 't list \<Rightarrow> 't \<Rightarrow> nat \<times> nat \<Rightarrow> CreateBFGlobalSinkState \<Rightarrow>
    bf_error + CreateBFGlobalSinkState" where
  "ExecuteTask A masks threads this_thread task sink =
     (let thread_id = thread_index this_thread threads 0
      in for_res (\<lambda>i sink.
           case FetchChunk (total_data sink) i of
             Inl e \<Rightarrow> Inl (Collection_error e)
           | Inr chunk \<Rightarrow> bind_res (build_all A masks thread_id chunk (builders sink)) (\<lambda>bs. Inr (sink\<lparr>builders := bs\<rparr>)))
         [fst task..<snd task] sink)"

section \<open>Source\<close>

record CreateBFGlobalSourceState =
  chunks_todo :: "(nat \<times> nat) list"
  partition_id :: nat

record CreateBFLocalSourceState =
  local_current_chunk_id :: nat
  local_partition_id :: nat
  chunk_from :: nat
  chunk_to :: nat
  initial :: bool

fun todo_loop :: "nat \<Rightarrow> nat \<Rightarrow> nat \<Rightarrow> nat \<Rightarrow> (nat \<times> nat) list" where
  "todo_loop chunks_per_thread chunk_count 0 chunk_idx = []"
| "todo_loop chunks_per_thread chunk_count (Suc threads) chunk_idx =
     (if chunk_idx = chunk_count then []
      else let chunk_idx_to = min (chunk_idx + chunks_per_thread) chunk_count
           in (chunk_idx, chunk_idx_to) # todo_loop chunks_per_thread chunk_count threads chunk_idx_to)"

definition GetGlobalSourceState :: "nat \<Rightarrow> CreateBFGlobalSinkState \<Rightarrow> CreateBFGlobalSourceState" where
  "GetGlobalSourceState num_threads gstate =
     (let chunk_count = ChunkCount (total_data gstate);
          chunks_per_thread = max ((chunk_count + num_threads - 1) div num_threads) 1
      in \<lparr> chunks_todo = todo_loop chunks_per_thread chunk_count num_threads 0, partition_id = 0 \<rparr>)"

text \<open>The members that the constructor does not set are given as \<open>x\<close>, \<open>y\<close> and \<open>z\<close>.\<close>

definition GetLocalSourceState :: "nat \<Rightarrow> nat \<Rightarrow> nat \<Rightarrow> CreateBFLocalSourceState" where
  "GetLocalSourceState x y z =
     \<lparr> local_current_chunk_id = 0, local_partition_id = x, chunk_from = y, chunk_to = z, initial = True \<rparr>"

datatype SourceResultType = HAVE_MORE_OUTPUT DataChunk | FINISHED

definition GetData :: "CreateBFGlobalSinkState \<Rightarrow> CreateBFLocalSourceState \<times> CreateBFGlobalSourceState \<Rightarrow>
    (SourceResultType \<times> CreateBFLocalSourceState \<times> CreateBFGlobalSourceState) cdc_result" where
  "GetData gstate s =
     (case s of (lstate, state) \<Rightarrow>
        let (lstate1, state1) =
              (if initial lstate
               then (lstate\<lparr>local_partition_id := partition_id state, initial := False\<rparr>, state\<lparr>partition_id := partition_id state + 1\<rparr>)
               else (lstate, state));
            beyond = initial lstate \<and> local_partition_id lstate1 \<ge> length (chunks_todo state1)
        in if beyond then Inr (FINISHED, lstate1, state1)
           else let lstate2 =
                      (if initial lstate
                       then lstate1\<lparr>chunk_from := fst (chunks_todo state1 ! local_partition_id lstate1),
                                    chunk_to := snd (chunks_todo state1 ! local_partition_id lstate1)\<rparr>
                       else lstate1)
                in if local_current_chunk_id lstate2 \<noteq> 0 \<and> local_current_chunk_id lstate2 \<ge> chunk_to lstate2
                   then Inr (FINISHED, lstate2, state1)
                   else let id1 = (if local_current_chunk_id lstate2 = 0 then chunk_from lstate2 else local_current_chunk_id lstate2)
                        in bind_res (FetchChunk (total_data gstate) id1) (\<lambda>chunk.
                             Inr (HAVE_MORE_OUTPUT chunk, lstate2\<lparr>local_current_chunk_id := id1 + 1\<rparr>, state1)))"

text \<open>
  A pipeline task reads its source until it is finished; fuel bounds the number of calls.
\<close>

fun read_source :: "nat \<Rightarrow> CreateBFGlobalSinkState \<Rightarrow> CreateBFLocalSourceState \<times> CreateBFGlobalSourceState \<Rightarrow>
    (DataChunk list \<times> CreateBFGlobalSourceState) cdc_result option" where
  "read_source 0 gstate s = None"
| "read_source (Suc fuel) gstate s =
     (case GetData gstate s of
        Inl e \<Rightarrow> Some (Inl e)
      | Inr (FINISHED, _, state) \<Rightarrow> Some (Inr ([], state))
      | Inr (HAVE_MORE_OUTPUT chunk, s') \<Rightarrow>
          (case read_source fuel gstate s' of
             None \<Rightarrow> None
           | Some (Inl e) \<Rightarrow> Some (Inl e)
           | Some (Inr (chunks, state)) \<Rightarrow> Some (Inr (chunk # chunks, state))))"

section \<open>Ranges of chunks\<close>

definition ranges_cover :: "(nat \<times> nat) list \<Rightarrow> nat \<Rightarrow> nat \<Rightarrow> bool" where
  "ranges_cover rs from to \<longleftrightarrow> concat (map (\<lambda>(a, b). [a..<b]) rs) = [from..<to]"

lemma chunks_per_thread_enough:
  fixes n num_threads :: nat
  assumes "0 < num_threads"
  shows "n \<le> num_threads * max ((n + num_threads - 1) div num_threads) 1"
proof -
  have "n \<le> num_threads * ((n + num_threads - 1) div num_threads)"
    using assms mult_div_mod_eq [of num_threads "n + num_threads - 1"] mod_less_divisor [OF assms, of "n + num_threads - 1"]
    by linarith
  also have "\<dots> \<le> num_threads * max ((n + num_threads - 1) div num_threads) 1" by simp
  finally show ?thesis .
qed

lemma cover_step: "from \<le> m \<Longrightarrow> m \<le> to \<Longrightarrow> ranges_cover rs m to \<Longrightarrow> ranges_cover ((from, m) # rs) from to"
  using upt_add_eq_append [of "from" m "to - m"] by (simp add: ranges_cover_def)

lemma task_loop_cover:
  "from \<le> n \<Longrightarrow> n - from \<le> threads * c \<Longrightarrow> 0 < threads \<Longrightarrow>
     ranges_cover (task_loop c n threads from) from n \<and> length (task_loop c n threads from) \<le> threads"
proof (induction c n threads "from" rule: task_loop.induct)
  case (2 c n threads "from")
  let ?m = "min (from + c) n"
  show ?case
  proof (cases "?m = n")
    case True
    then show ?thesis using 2(2) by (simp add: Let_def ranges_cover_def del: min.absorb_iff2)
  next
    case False
    moreover have "0 < threads" using 2(2,3) False by (cases threads) (auto simp: min_def split: if_splits)
    ultimately show ?thesis
      using 2(1) [OF refl False] 2(2,3) cover_step [of "from" ?m n "task_loop c n threads ?m"] by (auto simp: Let_def min_def)
  qed
qed simp

lemma todo_loop_cover:
  "from \<le> n \<Longrightarrow> n - from \<le> threads * c \<Longrightarrow>
     ranges_cover (todo_loop c n threads from) from n \<and> length (todo_loop c n threads from) \<le> threads"
proof (induction c n threads "from" rule: todo_loop.induct)
  case (2 c n threads "from")
  let ?m = "min (from + c) n"
  show ?case
  proof (cases "from = n")
    case True
    then show ?thesis by (simp add: ranges_cover_def)
  next
    case False
    then show ?thesis
      using 2(1) [OF False refl] 2(2,3) cover_step [of "from" ?m n "todo_loop c n threads ?m"]
      by (auto simp: Let_def min_def)
  qed
qed (simp add: ranges_cover_def)

lemma Schedule_cover:
  assumes "0 < num_threads"
  shows "ranges_cover (CreateBF_Schedule num_threads vp sink) 0 (ChunkCount (total_data sink)) \<and>
    length (CreateBF_Schedule num_threads vp sink) \<le> num_threads"
  using task_loop_cover [of 0 _ num_threads] chunks_per_thread_enough [OF assms] assms
  by (auto simp: CreateBF_Schedule_def Let_def ranges_cover_def)

lemma GetGlobalSourceState_cover:
  assumes "0 < num_threads"
  shows "ranges_cover (chunks_todo (GetGlobalSourceState num_threads sink)) 0 (ChunkCount (total_data sink)) \<and>
    length (chunks_todo (GetGlobalSourceState num_threads sink)) \<le> num_threads"
  using todo_loop_cover [of 0 _ num_threads] chunks_per_thread_enough [OF assms]
  by (simp add: GetGlobalSourceState_def Let_def)

section \<open>Building\<close>

definition builder_ready :: "'a arrow_lib_scheme \<Rightarrow> nat \<Rightarrow> BloomFilterBuilder \<times> BlockedBloomFilter \<Rightarrow> bool" where
  "builder_ready A num_threads s \<longleftrightarrow> arrow_rotl_ok A \<and>
     (case fst s of SingleThreaded b \<Rightarrow> True | Parallel b \<Rightarrow> num_threads \<le> length (thread_local_states b))"

interpretation cb: bloom_builder "PushNextBatch A masks thread_id" snd
  "\<lambda>s. thread_id < num_threads \<and> builder_ready A num_threads s" "Insert1 A masks" for A masks thread_id num_threads
proof (unfold_locales, goal_cases)
  case (1 s num_rows hashes)
  show ?case
  proof (cases "fst s")
    case (SingleThreaded b)
    then show ?thesis
      using 1 st.push_inserts [of A "(b, snd s)" num_rows hashes masks]
      by (cases s) (auto simp: PushNextBatch_def builder_ready_def st_ready_def split: prod.splits)
  next
    case (Parallel b)
    then show ?thesis
      using 1 Parallel_PushNextBatch_spec [of A num_rows hashes thread_id b masks "snd s"]
      by (cases s) (auto simp: PushNextBatch_def builder_ready_def)
  qed
qed

text \<open>A filter with the keys of some rows inserted.\<close>

definition with_rows :: "'a arrow_lib_scheme \<Rightarrow> u8 list \<Rightarrow> row list \<Rightarrow> BlockedBloomFilter \<Rightarrow> BlockedBloomFilter" where
  "with_rows A masks rows f = fold (Insert1 A masks) (map (key_hash (BoundColsBuilt f)) rows) f"

definition cols_ok :: "PhysicalType list \<Rightarrow> nat list \<Rightarrow> bool" where
  "cols_ok ts cols \<longleftrightarrow> cols \<noteq> [] \<and> list_all (\<lambda>c. c < length ts) cols"

lemma with_rows_cols [simp]:
  "BoundColsBuilt (with_rows A masks rows f) = BoundColsBuilt f"
  "BoundColsApplied (with_rows A masks rows f) = BoundColsApplied f"
  unfolding with_rows_def by (subst fold_Insert1_frame, simp)+

lemma with_rows_append: "with_rows A masks (xs @ ys) f = with_rows A masks ys (with_rows A masks xs f)"
  by (simp add: with_rows_def [of _ _ ys] with_rows_def [of _ _ "xs @ ys"]) (simp add: with_rows_def)

lemma with_rows_cong: "set xs = set ys \<Longrightarrow> with_rows A masks xs f = with_rows A masks ys f"
  unfolding with_rows_def by (rule fold_Insert1_cong) simp

lemma bf_wf_with_rows [simp]: "bf_wf (with_rows A masks rows f) = bf_wf f"
  by (simp add: with_rows_def)

lemma Find1_with_rows:
  "bf_wf f \<Longrightarrow> r \<in> set rows \<Longrightarrow> Find1 A masks (with_rows A masks rows f) (key_hash (BoundColsBuilt f) r)"
  unfolding with_rows_def by (rule Find1_fold_Insert1) simp_all

text \<open>A collection that the finalize tasks can read.\<close>

definition readable :: "PhysicalType list \<Rightarrow> ColumnDataCollection \<Rightarrow> bool" where
  "readable ts d \<longleftrightarrow> cdc_inv ts d \<and> cdc_nonempty d \<and> list_all storable ts"

definition sink_ready :: "'a arrow_lib_scheme \<Rightarrow> nat \<Rightarrow> PhysicalType list \<Rightarrow> (BloomFilterBuilder \<times> BlockedBloomFilter) list \<Rightarrow> bool" where
  "sink_ready A num_threads ts bs \<longleftrightarrow> list_all (\<lambda>b. builder_ready A num_threads b \<and> cols_ok ts (BoundColsBuilt (snd b))) bs"

lemma readable_chunk:
  assumes "readable ts d" and "i < ChunkCount d"
  shows "chunk_rows (segment_FetchChunk ts (concat (segments d) ! i)) = Some (concat (segments d) ! i)"
    and "0 < length (concat (segments d) ! i)" and "length (concat (segments d) ! i) \<le> STANDARD_VECTOR_SIZE"
    and "cols_ok ts cols \<Longrightarrow> keys_ok cols (chunk_columns (segment_FetchChunk ts (concat (segments d) ! i)))"
proof -
  let ?ch = "concat (segments d) ! i"
  have inv: "cdc_inv ts d" "list_all storable ts" using assms(1) by (simp_all add: readable_def)
  note ch = chunk_in_collection [OF inv(1) assms(2)]
  show "chunk_rows (segment_FetchChunk ts ?ch) = Some ?ch" by (rule segment_FetchChunk_rows [OF ch(1)])
  have "?ch \<in> set (concat (segments d))" using assms(2) unfolding ChunkCount_eq by (rule nth_mem)
  then show "0 < length ?ch" using assms(1) by (auto simp: readable_def cdc_nonempty_def list_all_iff)
  show "length ?ch \<le> STANDARD_VECTOR_SIZE" by (rule ch(2))
  show "keys_ok cols (chunk_columns (segment_FetchChunk ts ?ch))" if cols: "cols_ok ts cols"
  proof -
    have flat: "list_all flat_ok (chunk_columns (segment_FetchChunk ts ?ch))"
      by (rule segment_FetchChunk_types(2) [OF ch(1) inv(2)])
    have len: "length (chunk_columns (segment_FetchChunk ts ?ch)) = length ts" by (simp add: segment_FetchChunk_def)
    then have "flat_ok (chunk_columns (segment_FetchChunk ts ?ch) ! c)" if "c \<in> set cols" for c
      using flat cols that by (auto simp: list_all_length cols_ok_def in_set_conv_nth)
    then have "flat_ok (chunk_columns (segment_FetchChunk ts ?ch) ! List.hd cols)"
      "list_all flat_ok (map ((!) (chunk_columns (segment_FetchChunk ts ?ch))) (tl cols))"
      using cols by (auto simp: cols_ok_def list_all_iff dest: list.set_sel(2))
    then show ?thesis
      using cols combines_ok_flat len by (simp add: keys_ok_def cols_ok_def flat_ok_def [of "_ ! List.hd _"])
  qed
qed

lemma build_chunk_ok:
  assumes "builder_ready A n b" and "thread_id < n" and "chunk_rows chunk = Some rows"
    and "keys_ok (BoundColsBuilt (snd b)) (chunk_columns chunk)"
    and "0 < chunk_size chunk" and "chunk_size chunk \<le> STANDARD_VECTOR_SIZE"
  shows "\<exists>b'. build_chunk A masks thread_id chunk b = Inr b' \<and> builder_ready A n b' \<and> snd b' = with_rows A masks rows (snd b)"
proof -
  let ?hs = "map (key_hash (BoundColsBuilt (snd b))) rows"
  have hs: "key_hashes (BuiltCols (snd b)) (chunk_columns chunk) (chunk_size chunk) = Inr ?hs"
    using key_hashes_ok [OF assms(4-6), of rows] assms(3) by (cases chunk) (simp add: BuiltCols_def)
  have size: "chunk_size chunk = length ?hs" using chunk_rows_SomeD(1) [OF assms(3)] by simp
  moreover from size have "length ?hs < 2 ^ 16" using assms(6) by (simp add: STANDARD_VECTOR_SIZE_def)
  ultimately show ?thesis
    using cb.push_inserts [of thread_id n A b "length ?hs" ?hs masks] assms(1,2) hs
    by (auto simp: build_chunk_def with_rows_def)
qed

lemma build_all_ok:
  assumes "sink_ready A n ts bs" and "thread_id < n" and "readable ts d" and "i < ChunkCount d"
  shows "\<exists>bs'. build_all A masks thread_id (segment_FetchChunk ts (concat (segments d) ! i)) bs = Inr bs' \<and>
    sink_ready A n ts bs' \<and> map snd bs' = map (with_rows A masks (concat (segments d) ! i)) (map snd bs)"
  using assms(1)
proof (induction bs)
  case (Cons b bs)
  note ch = readable_chunk [OF assms(3,4)]
  have size: "chunk_size (segment_FetchChunk ts (concat (segments d) ! i)) = length (concat (segments d) ! i)"
    by (simp add: segment_FetchChunk_def)
  have "cols_ok ts (BoundColsBuilt (snd b))" "builder_ready A n b" "sink_ready A n ts bs"
    using Cons.prems by (simp_all add: sink_ready_def)
  then show ?case
    using Cons.IH build_chunk_ok [OF _ assms(2) ch(1) ch(4), of A b masks] ch(2,3) by (auto simp: size sink_ready_def)
qed (simp add: sink_ready_def)

definition chunk_rows_of :: "ColumnDataCollection \<Rightarrow> nat list \<Rightarrow> row list" where
  "chunk_rows_of d is = concat (map (\<lambda>i. concat (segments d) ! i) is)"

lemma chunk_rows_of_all: "chunk_rows_of d [0..<ChunkCount d] = cdc_rows d"
  by (simp add: chunk_rows_of_def cdc_rows_def ChunkCount_eq map_nth)

lemma set_chunk_rows_of: "set is = set js \<Longrightarrow> set (chunk_rows_of d is) = set (chunk_rows_of d js)"
  by (simp add: chunk_rows_of_def)

text \<open>The state a task leaves when it has worked on the chunks \<open>is\<close>.\<close>

definition built :: "'a arrow_lib_scheme \<Rightarrow> u8 list \<Rightarrow> nat \<Rightarrow> PhysicalType list \<Rightarrow> CreateBFGlobalSinkState \<Rightarrow> nat list \<Rightarrow>
    CreateBFGlobalSinkState \<Rightarrow> bool" where
  "built A masks n ts sink is sink' \<longleftrightarrow>
     total_data sink' = total_data sink \<and> sink_ready A n ts (builders sink') \<and>
     map snd (builders sink') = map (with_rows A masks (chunk_rows_of (total_data sink) is)) (map snd (builders sink))"

lemma built_Nil: "sink_ready A n ts (builders sink) \<Longrightarrow> built A masks n ts sink [] sink"
  by (simp add: built_def chunk_rows_of_def with_rows_def)

lemma built_trans:
  assumes "built A masks n ts sink is sink1" and "built A masks n ts sink1 js sink2"
  shows "built A masks n ts sink (is @ js) sink2"
  using assms by (simp add: built_def chunk_rows_of_def with_rows_append comp_def)

lemma built_loop:
  assumes "\<And>x s. x \<in> set xs \<Longrightarrow> sink_ready A n ts (builders s) \<Longrightarrow> total_data s = d \<Longrightarrow>
      \<exists>s'. body x s = Inr s' \<and> built A masks n ts s (g x) s'"
    and "sink_ready A n ts (builders sink)" and "total_data sink = d"
  shows "\<exists>s'. for_res body xs sink = Inr s' \<and> built A masks n ts sink (concat (map g xs)) s'"
  using assms
proof (induction xs arbitrary: sink)
  case Nil
  then show ?case using built_Nil by auto
next
  case (Cons x xs)
  obtain s1 where s1: "body x sink = Inr s1" "built A masks n ts sink (g x) s1"
    using Cons.prems(1) [of x sink] Cons.prems(2,3) by auto
  then have "sink_ready A n ts (builders s1)" "total_data s1 = d" using Cons.prems(3) by (simp_all add: built_def)
  then obtain s2 where "for_res body xs s1 = Inr s2" "built A masks n ts s1 (concat (map g xs)) s2"
    using Cons.IH [of s1] Cons.prems(1) by auto
  then show ?case using s1 built_trans [OF s1(2)] by auto
qed

lemma thread_index_le: "thread_index t threads i \<le> i + length threads"
  by (induction t threads i rule: thread_index.induct) auto

lemma ExecuteTask_ok:
  assumes "sink_ready A n ts (builders sink)" and "length threads < n" and "readable ts (total_data sink)"
    and "set [a..<b] \<subseteq> {..<ChunkCount (total_data sink)}"
  shows "\<exists>sink'. ExecuteTask A masks threads this_thread (a, b) sink = Inr sink' \<and> built A masks n ts sink [a..<b] sink'"
proof -
  let ?id = "thread_index this_thread threads 0"
  have id: "?id < n" using thread_index_le [of this_thread threads 0] assms(2) by simp
  let ?body = "\<lambda>i sink. case FetchChunk (total_data sink) i of
             Inl e \<Rightarrow> Inl (Collection_error e)
           | Inr chunk \<Rightarrow> bind_res (build_all A masks ?id chunk (builders sink)) (\<lambda>bs. Inr (sink\<lparr>builders := bs\<rparr>))"
  have step: "\<exists>sink'. ?body i sink = Inr sink' \<and> built A masks n ts sink [i] sink'"
    if "sink_ready A n ts (builders sink)" "readable ts (total_data sink)" "i < ChunkCount (total_data sink)" for i sink
  proof -
    have "FetchChunk (total_data sink) i = Inr (segment_FetchChunk ts (concat (segments (total_data sink)) ! i))"
      using that(2) FetchChunk_ok [OF that(3)] by (simp add: readable_def cdc_inv_def)
    then show ?thesis
      using build_all_ok [OF that(1) id that(2,3), of masks] by (auto simp: built_def chunk_rows_of_def)
  qed
  have "\<exists>sink'. for_res ?body [a..<b] sink = Inr sink' \<and> built A masks n ts sink (concat (map (\<lambda>i. [i]) [a..<b])) sink'"
  proof (rule built_loop)
    fix i and s :: CreateBFGlobalSinkState assume "i \<in> set [a..<b]" "sink_ready A n ts (builders s)" "total_data s = total_data sink"
    then show "\<exists>s'. ?body i s = Inr s' \<and> built A masks n ts s [i] s'" using assms(3,4) by (intro step) auto
  qed (use assms(1) in auto)
  then show ?thesis by (simp add: ExecuteTask_def)
qed

text \<open>The tasks of the event, each with the thread that runs it, in the order in which they run.\<close>

definition run_tasks :: "'a arrow_lib_scheme \<Rightarrow> u8 list \<Rightarrow> 't list \<Rightarrow> ('t \<times> nat \<times> nat) list \<Rightarrow> CreateBFGlobalSinkState \<Rightarrow>
    bf_error + CreateBFGlobalSinkState" where
  "run_tasks A masks threads = for_res (\<lambda>(this_thread, task). ExecuteTask A masks threads this_thread task)"

lemma run_tasks_ok:
  assumes "sink_ready A n ts (builders sink)" and "length threads < n" and "readable ts (total_data sink)"
    and "set (concat (map (\<lambda>(t, a, b). [a..<b]) tasks)) \<subseteq> {..<ChunkCount (total_data sink)}"
  shows "\<exists>sink'. run_tasks A masks threads tasks sink = Inr sink' \<and>
    built A masks n ts sink (concat (map (\<lambda>(t, a, b). [a..<b]) tasks)) sink'"
  unfolding run_tasks_def
proof (rule built_loop)
  fix x and s :: CreateBFGlobalSinkState
  assume x: "x \<in> set tasks" and s: "sink_ready A n ts (builders s)" "total_data s = total_data sink"
  obtain t a b where xs: "x = (t, a, b)" by (cases x)
  have "set [a..<b] \<subseteq> set (concat (map (\<lambda>(t, a, b). [a..<b]) tasks))" using x unfolding xs by force
  then have "set [a..<b] \<subseteq> {..<ChunkCount (total_data s)}" using assms(4) s(2) by auto
  from ExecuteTask_ok [OF s(1) assms(2) _ this, of masks t] assms(3) s(2)
  show "\<exists>s'. (case x of (this_thread, task) \<Rightarrow> ExecuteTask A masks threads this_thread task) s = Inr s' \<and>
      built A masks n ts s (case x of (t, a, b) \<Rightarrow> [a..<b]) s'"
    by (simp add: xs)
qed (use assms(1) in auto)

text \<open>The sink side: every thread sinks its chunks into a state of its own and combines it in the end.\<close>

definition sink_all :: "PhysicalType list \<Rightarrow> DataChunk list list \<Rightarrow> CreateBFGlobalSinkState cdc_result" where
  "sink_all ts inputs =
     for_res (\<lambda>cs gstate. bind_res (for_res Sink cs (GetLocalSinkState ts)) (\<lambda>state. Inr (Combine state gstate)))
       inputs (GetGlobalSinkState ts)"

definition sunk :: "PhysicalType list \<Rightarrow> DataChunk \<Rightarrow> bool" where
  "sunk ts c \<longleftrightarrow> input_ok ts c \<and> chunk_size c > 0"

definition input_rows :: "DataChunk list list \<Rightarrow> row list" where
  "input_rows inputs = concat (map (\<lambda>c. the (chunk_rows c)) (concat inputs))"

lemma Sink_loop:
  "for_res Append cs (local_data state) = Inr d \<Longrightarrow> for_res Sink cs state = Inr (state\<lparr>local_data := d\<rparr>)"
  by (induction cs arbitrary: state) (auto simp: Sink_def split: sum.splits)

lemma readable_new: "cdc_inv ts (ColumnDataCollection_new ts) \<and> cdc_nonempty (ColumnDataCollection_new ts)"
  using cdc_inv_new by (simp add: cdc_nonempty_def ColumnDataCollection_new_def)

lemma sink_all_ok:
  assumes "list_all (list_all (sunk ts)) inputs"
  shows "\<exists>ds. sink_all ts inputs = Inr ((GetGlobalSinkState ts)\<lparr>local_data_collections := ds\<rparr>) \<and>
    list_all (\<lambda>d. cdc_inv ts d \<and> cdc_nonempty d) ds \<and> concat (map cdc_rows ds) = input_rows inputs"
  using assms
proof (induction inputs rule: rev_induct)
  case Nil
  then show ?case by (auto simp: sink_all_def input_rows_def GetGlobalSinkState_def intro!: exI [of _ "[]"])
next
  case (snoc cs inputs)
  obtain ds where ds: "sink_all ts inputs = Inr ((GetGlobalSinkState ts)\<lparr>local_data_collections := ds\<rparr>)"
    "list_all (\<lambda>d. cdc_inv ts d \<and> cdc_nonempty d) ds" "concat (map cdc_rows ds) = input_rows inputs"
    using snoc by auto
  obtain d where d: "for_res Append cs (ColumnDataCollection_new ts) = Inr d" "cdc_inv ts d" "cdc_nonempty d"
    "cdc_rows d = concat (map (\<lambda>c. the (chunk_rows c)) cs)"
    using cdc1.add_chunks [OF readable_new, of ts cs] snoc.prems by (auto simp: sunk_def cdc_rows_new)
  have "for_res Sink cs (GetLocalSinkState ts) = Inr ((GetLocalSinkState ts)\<lparr>local_data := d\<rparr>)"
    using d(1) by (intro Sink_loop) (simp add: GetLocalSinkState_def)
  then have "sink_all ts (inputs @ [cs]) = Inr ((GetGlobalSinkState ts)\<lparr>local_data_collections := ds @ [d]\<rparr>)"
    using ds(1) by (simp add: sink_all_def Combine_def GetLocalSinkState_def)
  then show ?case using ds(2,3) d(2-4) by (auto simp: input_rows_def)
qed

lemma Parallel_Begin_states: "Parallel_Begin A n flags m b f = (status, b', f') \<Longrightarrow> length (thread_local_states b') = n"
  by (auto simp: Parallel_Begin_def Let_def split: prod.splits)

lemma begin_builder_ok:
  assumes "arrow_rotl_ok A"
  shows "builder_ready A n (begin_builder A n num_rows f)" and "snd (begin_builder A n num_rows f) = snd (CreateEmpty A num_rows f)"
proof -
  show "builder_ready A n (begin_builder A n num_rows f)"
    using assms Parallel_Begin_states by (fastforce simp: builder_ready_def begin_builder_def split: prod.splits)
  show "snd (begin_builder A n num_rows f) = snd (CreateEmpty A num_rows f)"
    by (simp add: begin_builder_def SingleThreaded_Begin_def Parallel_Begin_def Let_def split: prod.splits)
qed

lemma CreateEmpty_cols [simp]:
  "BoundColsBuilt (snd (CreateEmpty A num_rows f)) = BoundColsBuilt f"
  "BoundColsApplied (snd (CreateEmpty A num_rows f)) = BoundColsApplied f"
  by (simp_all add: CreateEmpty_def Let_def split: option.splits)

lemma Finalize_ok:
  assumes "arrow_rotl_ok A" and "list_all storable ts" and "list_all (\<lambda>f. cols_ok ts (BoundColsBuilt f)) bfs"
    and "list_all (list_all (sunk ts)) inputs"
  shows "\<exists>gstate sink. sink_all ts inputs = Inr gstate \<and> Finalize A n bfs gstate = Inr sink \<and>
    readable ts (total_data sink) \<and> cdc_rows (total_data sink) = input_rows inputs \<and> local_data_collections sink = [] \<and>
    sink_ready A n ts (builders sink) \<and>
    map snd (builders sink) = map (\<lambda>f. snd (CreateEmpty A (length (input_rows inputs)) f)) bfs"
proof -
  obtain ds where ds: "sink_all ts inputs = Inr ((GetGlobalSinkState ts)\<lparr>local_data_collections := ds\<rparr>)"
    "list_all (\<lambda>d. cdc_inv ts d \<and> cdc_nonempty d) ds" "concat (map cdc_rows ds) = input_rows inputs"
    using sink_all_ok [OF assms(4)] by blast
  obtain d where d: "for_res CDC_Combine ds (ColumnDataCollection_new ts) = Inr d" "cdc_inv ts d" "cdc_nonempty d"
    "cdc_rows d = input_rows inputs"
    using cdc1.merges [OF readable_new ds(2)] ds(3) by (auto simp: cdc_rows_new)
  have "cdc_count d = length (input_rows inputs)" using d(2,4) by (simp add: cdc_inv_def)
  then show ?thesis
    using ds(1) d assms begin_builder_ok [OF assms(1)]
    by (auto simp: Finalize_def GetGlobalSinkState_def Let_def readable_def sink_ready_def list_all_iff)
qed

lemma build_complete:
  assumes "arrow_rotl_ok A" and "list_all storable ts" and "list_all (\<lambda>f. cols_ok ts (BoundColsBuilt f)) bfs"
    and "list_all (list_all (sunk ts)) inputs" and "length threads < n"
  shows "\<exists>gstate sink. sink_all ts inputs = Inr gstate \<and> Finalize A n bfs gstate = Inr sink \<and>
    readable ts (total_data sink) \<and> cdc_rows (total_data sink) = input_rows inputs \<and>
    (\<forall>tasks. mset (map snd tasks) = mset (CreateBF_Schedule n vp sink) \<longrightarrow>
      (\<exists>sink'. run_tasks A masks threads tasks sink = Inr sink' \<and> total_data sink' = total_data sink \<and>
        map snd (builders sink') =
          map (\<lambda>f. with_rows A masks (input_rows inputs) (snd (CreateEmpty A (length (input_rows inputs)) f))) bfs))"
proof -
  obtain gstate sink where fin: "sink_all ts inputs = Inr gstate" "Finalize A n bfs gstate = Inr sink"
    "readable ts (total_data sink)" "cdc_rows (total_data sink) = input_rows inputs" "sink_ready A n ts (builders sink)"
    "map snd (builders sink) = map (\<lambda>f. snd (CreateEmpty A (length (input_rows inputs)) f)) bfs"
    using Finalize_ok [OF assms(1-4), of n] by blast
  let ?d = "total_data sink"
  have run: "\<exists>sink'. run_tasks A masks threads tasks sink = Inr sink' \<and> total_data sink' = ?d \<and>
      map snd (builders sink') = map (with_rows A masks (input_rows inputs)) (map snd (builders sink))"
    if tasks: "mset (map snd tasks) = mset (CreateBF_Schedule n vp sink)" for tasks
  proof -
    let ?is = "concat (map (\<lambda>(t, a, b). [a..<b]) tasks)"
    have "?is = concat (map (\<lambda>(a, b). [a..<b]) (map snd tasks))" by (induction tasks) auto
    moreover have "set (map snd tasks) = set (CreateBF_Schedule n vp sink)" using tasks by (rule mset_eq_setD)
    moreover have "concat (map (\<lambda>(a, b). [a..<b]) (CreateBF_Schedule n vp sink)) = [0..<ChunkCount ?d]"
      using Schedule_cover [of n vp sink] assms(5) by (simp add: ranges_cover_def)
    ultimately have all: "set ?is = set [0..<ChunkCount ?d]" by (metis set_concat set_map)
    obtain s' where s': "run_tasks A masks threads tasks sink = Inr s'" "built A masks n ts sink ?is s'"
      using run_tasks_ok [OF fin(5) assms(5) fin(3), of tasks masks] unfolding all
      by (auto simp: atLeast0LessThan)
    have "set (chunk_rows_of ?d ?is) = set (chunk_rows_of ?d [0..<ChunkCount ?d])"
      by (rule set_chunk_rows_of [OF all])
    then have "set (chunk_rows_of ?d ?is) = set (input_rows inputs)" by (simp only: chunk_rows_of_all fin(4))
    then have "with_rows A masks (chunk_rows_of ?d ?is) f = with_rows A masks (input_rows inputs) f" for f by (rule with_rows_cong)
    then show ?thesis using s' unfolding built_def by simp
  qed
  then show ?thesis using fin by (auto simp: comp_def)
qed

section \<open>Reading the source\<close>

definition fetched :: "ColumnDataCollection \<Rightarrow> nat list \<Rightarrow> DataChunk list" where
  "fetched d is = map (\<lambda>i. segment_FetchChunk (cdc_types d) (concat (segments d) ! i)) is"

text \<open>A local state that has taken the range from \<open>a\<close> to \<open>b\<close> and returned the chunks before \<open>i\<close>.\<close>

lemma read_source_rest:
  "0 < i \<Longrightarrow> i \<le> b \<Longrightarrow> b \<le> ChunkCount (total_data gstate) \<Longrightarrow> b - i < fuel \<Longrightarrow>
     \<not> initial lstate \<Longrightarrow> local_current_chunk_id lstate = i \<Longrightarrow> chunk_to lstate = b \<Longrightarrow>
     read_source fuel gstate (lstate, state) = Some (Inr (fetched (total_data gstate) [i..<b], state))"
proof (induction fuel arbitrary: i lstate)
  case (Suc fuel)
  show ?case
  proof (cases "i = b")
    case True
    then show ?thesis using Suc.prems by (simp add: GetData_def Let_def fetched_def)
  next
    case False
    let ?c = "segment_FetchChunk (cdc_types (total_data gstate)) (concat (segments (total_data gstate)) ! i)"
    have "GetData gstate (lstate, state) = Inr (HAVE_MORE_OUTPUT ?c, lstate\<lparr>local_current_chunk_id := i + 1\<rparr>, state)"
      using Suc.prems False by (simp add: GetData_def Let_def FetchChunk_ok)
    moreover have "read_source fuel gstate (lstate\<lparr>local_current_chunk_id := i + 1\<rparr>, state) =
        Some (Inr (fetched (total_data gstate) [i + 1..<b], state))"
      using Suc.prems False by (intro Suc.IH) auto
    ultimately show ?thesis using Suc.prems(2) False by (simp add: fetched_def upt_conv_Cons [of i b])
  qed
qed simp

definition range_ok :: "nat \<Rightarrow> nat \<times> nat \<Rightarrow> bool" where
  "range_ok n r \<longleftrightarrow> fst r < snd r \<and> snd r \<le> n"

text \<open>One pipeline task: it takes the next range, if there is one, and returns its chunks.\<close>

lemma read_source_task:
  assumes "list_all (range_ok (ChunkCount (total_data gstate))) (chunks_todo state)"
    and "ChunkCount (total_data gstate) + 1 < fuel"
  shows "read_source fuel gstate (GetLocalSourceState x y z, state) =
    Some (Inr (fetched (total_data gstate)
        (concat (map (\<lambda>(a, b). [a..<b]) (take 1 (drop (partition_id state) (chunks_todo state))))),
      state\<lparr>partition_id := partition_id state + 1\<rparr>))"
proof (cases "partition_id state < length (chunks_todo state)")
  case False
  then show ?thesis
    using assms(2) by (cases fuel) (simp_all add: GetData_def GetLocalSourceState_def Let_def fetched_def)
next
  case True
  obtain a b where ab: "chunks_todo state ! partition_id state = (a, b)" by fastforce
  have range: "a < b" "b \<le> ChunkCount (total_data gstate)"
    using assms(1) True ab by (auto simp: list_all_length range_ok_def)
  obtain m where fuel: "fuel = Suc m" using assms(2) by (cases fuel) auto
  let ?l = "(GetLocalSourceState x y z)\<lparr>local_partition_id := partition_id state, initial := False, chunk_from := a, chunk_to := b,
    local_current_chunk_id := a + 1\<rparr>"
  let ?s = "state\<lparr>partition_id := partition_id state + 1\<rparr>"
  let ?c = "segment_FetchChunk (cdc_types (total_data gstate)) (concat (segments (total_data gstate)) ! a)"
  have "GetData gstate (GetLocalSourceState x y z, state) = Inr (HAVE_MORE_OUTPUT ?c, ?l, ?s)"
    using True ab range by (simp add: GetData_def Let_def GetLocalSourceState_def FetchChunk_ok)
  moreover have "read_source m gstate (?l, ?s) = Some (Inr (fetched (total_data gstate) [a + 1..<b], ?s))"
    using range assms(2) by (intro read_source_rest) (simp_all add: fuel)
  moreover have "take 1 (drop (partition_id state) (chunks_todo state)) = [(a, b)]"
    using True ab by (simp add: take_Suc hd_drop_conv_nth)
  ultimately show ?thesis using range(1) by (simp add: fuel fetched_def upt_conv_Cons [of a b])
qed

text \<open>
  Several pipeline tasks, each with its own local state; \<open>junk\<close> has the values their
  uninitialised members happen to have.
\<close>

fun read_tasks :: "nat \<Rightarrow> (nat \<times> nat \<times> nat) list \<Rightarrow> CreateBFGlobalSinkState \<Rightarrow> CreateBFGlobalSourceState \<Rightarrow>
    DataChunk list cdc_result option" where
  "read_tasks fuel [] gstate state = Some (Inr [])"
| "read_tasks fuel ((x, y, z) # junk) gstate state =
     (case read_source fuel gstate (GetLocalSourceState x y z, state) of
        None \<Rightarrow> None
      | Some (Inl e) \<Rightarrow> Some (Inl e)
      | Some (Inr (chunks, state')) \<Rightarrow>
          (case read_tasks fuel junk gstate state' of
             None \<Rightarrow> None
           | Some (Inl e) \<Rightarrow> Some (Inl e)
           | Some (Inr others) \<Rightarrow> Some (Inr (chunks @ others))))"

lemma read_tasks_ok:
  "list_all (range_ok (ChunkCount (total_data gstate))) (chunks_todo state) \<Longrightarrow> ChunkCount (total_data gstate) + 1 < fuel \<Longrightarrow>
   read_tasks fuel junk gstate state =
     Some (Inr (fetched (total_data gstate)
       (concat (map (\<lambda>(a, b). [a..<b]) (take (length junk) (drop (partition_id state) (chunks_todo state)))))))"
proof (induction fuel junk gstate state rule: read_tasks.induct)
  case (2 fuel x y z junk gstate state)
  let ?s = "state\<lparr>partition_id := partition_id state + 1\<rparr>"
  note task = read_source_task [OF 2(2,3), of x y z]
  have "take (Suc k) xs = take 1 xs @ take k (drop 1 xs)" for k and xs :: "(nat \<times> nat) list" by (cases xs) simp_all
  from this [of "length junk" "drop (partition_id state) (chunks_todo state)"]
  have split: "take (length ((x, y, z) # junk)) (drop (partition_id state) (chunks_todo state)) =
      take 1 (drop (partition_id state) (chunks_todo state)) @ take (length junk) (drop (partition_id state + 1) (chunks_todo state))"
    by (simp add: add.commute)
  have "read_tasks fuel junk gstate ?s = Some (Inr (fetched (total_data gstate)
       (concat (map (\<lambda>(a, b). [a..<b]) (take (length junk) (drop (partition_id state + 1) (chunks_todo state)))))))"
    using 2(1) [OF task refl refl] 2(2,3) by simp
  then show ?case unfolding split read_tasks.simps task by (simp add: fetched_def)
qed (simp add: fetched_def)

lemma todo_loop_ranges: "0 < c \<Longrightarrow> from \<le> n \<Longrightarrow> list_all (range_ok n) (todo_loop c n threads from)"
  by (induction c n threads "from" rule: todo_loop.induct) (auto simp: Let_def range_ok_def)

lemma GetGlobalSourceState_ranges:
  "list_all (range_ok (ChunkCount (total_data gstate))) (chunks_todo (GetGlobalSourceState n gstate))"
  "partition_id (GetGlobalSourceState n gstate) = 0"
  by (simp_all add: GetGlobalSourceState_def Let_def todo_loop_ranges)

lemma fetched_rows:
  assumes "readable ts d" and "set is \<subseteq> {..<ChunkCount d}"
  shows "concat (map (\<lambda>c. the (chunk_rows c)) (fetched d is)) = chunk_rows_of d is"
proof -
  have "cdc_types d = ts" using assms(1) by (simp add: readable_def cdc_inv_def)
  then have "map (\<lambda>c. the (chunk_rows c)) (fetched d is) = map (\<lambda>i. concat (segments d) ! i) is"
    using readable_chunk(1) [OF assms(1)] assms(2) by (auto simp: fetched_def)
  then show ?thesis by (simp add: chunk_rows_of_def)
qed

lemma fetched_types:
  assumes "readable ts d" and "set is \<subseteq> {..<ChunkCount d}"
  shows "list_all (\<lambda>c. chunk_types c = ts) (fetched d is)"
proof -
  have d: "cdc_inv ts d" "list_all storable ts" "cdc_types d = ts" using assms(1) by (auto simp: readable_def cdc_inv_def)
  have "chunk_types (segment_FetchChunk ts (concat (segments d) ! i)) = ts" if "i \<in> set is" for i
    using segment_FetchChunk_types(1) [OF chunk_in_collection(1) [OF d(1)] d(2), of i] assms(2) that by auto
  then show ?thesis by (simp add: fetched_def d(3) list_all_iff)
qed

lemma take_ranges:
  assumes "0 < n"
  shows "set (concat (map (\<lambda>(a, b). [a..<b]) (take k (chunks_todo (GetGlobalSourceState n gstate))))) \<subseteq>
      {..<ChunkCount (total_data gstate)}"
    and "n \<le> k \<Longrightarrow> concat (map (\<lambda>(a, b). [a..<b]) (take k (chunks_todo (GetGlobalSourceState n gstate)))) =
      [0..<ChunkCount (total_data gstate)]"
proof -
  let ?f = "\<lambda>(a, b). [a..<b]" and ?todo = "chunks_todo (GetGlobalSourceState n gstate)"
  have all: "concat (map ?f ?todo) = [0..<ChunkCount (total_data gstate)]" "length ?todo \<le> n"
    using GetGlobalSourceState_cover [OF assms, of gstate] by (simp_all add: ranges_cover_def)
  have "set (concat (map ?f (take k ?todo))) \<subseteq> set (concat (map ?f ?todo))"
    using set_take_subset [of k ?todo] by fastforce
  then show "set (concat (map ?f (take k ?todo))) \<subseteq> {..<ChunkCount (total_data gstate)}"
    unfolding all(1) by (auto simp: atLeast0LessThan)
  show "concat (map ?f (take k ?todo)) = [0..<ChunkCount (total_data gstate)]" if "n \<le> k" using all that by simp
qed

lemma first_range:
  assumes "2 \<le> n" and "2 \<le> N"
  shows "max ((N + n - 1) div n) 1 < (N :: nat)"
proof -
  have "N + n - 1 < N * n"
  proof -
    obtain a b where "N = Suc (Suc a)" "n = Suc (Suc b)" using assms by (metis add_2_eq_Suc le_Suc_ex)
    then show ?thesis by simp
  qed
  then have "(N + n - 1) div n < N" using assms(1) by (simp add: div_less_iff_less_mult)
  then show ?thesis using assms(2) by simp
qed

lemma first_task_rows:
  assumes "readable ts d" and "m < ChunkCount d"
  shows "length (chunk_rows_of d [0..<m]) < length (cdc_rows d)"
proof -
  have "[0..<ChunkCount d] = [0..<m] @ [m..<ChunkCount d]" using upt_add_eq_append [of 0 m "ChunkCount d - m"] assms(2) by simp
  then have "cdc_rows d = chunk_rows_of d [0..<m] @ (concat (segments d) ! m) @ chunk_rows_of d [Suc m..<ChunkCount d]"
    using assms(2) by (simp add: chunk_rows_of_all [symmetric] chunk_rows_of_def upt_conv_Cons [of m])
  then show ?thesis using readable_chunk(2) [OF assms] by simp
qed

section \<open>Claims\<close>

text \<open>
  C8. The chunks are cut into ranges that cover each chunk exactly once, at most one range
  per thread, both for the tasks that build the filters and for the tasks that read the
  collected chunks back.
\<close>

theorem CreateBF_ranges:
  assumes "0 < num_threads"
  shows "concat (map (\<lambda>(a, b). [a..<b]) (CreateBF_Schedule num_threads verify sink)) = [0..<ChunkCount (total_data sink)] \<and>
    length (CreateBF_Schedule num_threads verify sink) \<le> num_threads \<and>
    concat (map (\<lambda>(a, b). [a..<b]) (chunks_todo (GetGlobalSourceState num_threads sink))) = [0..<ChunkCount (total_data sink)] \<and>
    length (chunks_todo (GetGlobalSourceState num_threads sink)) \<le> num_threads"
  using Schedule_cover [OF assms, of verify sink] GetGlobalSourceState_cover [OF assms, of sink] by (simp add: ranges_cover_def)

definition two_chunks :: CreateBFGlobalSinkState where
  "two_chunks = (GetGlobalSinkState [T_INT32, T_VARCHAR])\<lparr>total_data :=
     \<lparr> cdc_types = [T_INT32, T_VARCHAR], segments = [[the (chunk_rows sample_chunk)], [the (chunk_rows sample_chunk)]], cdc_count = 4 \<rparr>\<rparr>"

lemma two_chunks_readable: "readable [T_INT32, T_VARCHAR] (total_data two_chunks)" "ChunkCount (total_data two_chunks) = 2"
  "length (cdc_rows (total_data two_chunks)) = 4"
  by (simp_all add: two_chunks_def sample_chunk_rows readable_def cdc_inv_def cdc_nonempty_def cdc_rows_def ChunkCount_def
      STANDARD_VECTOR_SIZE_def row_typed_def scalar_type_def)

theorem CreateBF_ranges_witness:
  "concat (map (\<lambda>(a, b). [a..<b]) (CreateBF_Schedule 2 True two_chunks)) = [0, 1] \<and>
   length (chunks_todo (GetGlobalSourceState 2 two_chunks)) \<le> 2"
  using CreateBF_ranges [of 2 True two_chunks] by (simp add: two_chunks_readable(2) upt_rec)

text \<open>
  C6. Building: threads sink their chunks, the collections are joined, and the finalize
  tasks run, in any order and each on any thread. No step fails, and every filter ends up
  as the empty filter of its size with the keys of exactly the sunk rows inserted, so it
  finds the key of every row.
\<close>

theorem CreateBF_builds_filters:
  assumes "arrow_rotl_ok A" and "arrow_log2_ok A" and "arrow_alloc_ok A" and "list_all storable ts"
    and "list_all (\<lambda>f. cols_ok ts (BoundColsBuilt f)) bfs" and "list_all (list_all (sunk ts)) inputs"
    and "length (input_rows inputs) < 2 ^ 60" and "length threads < num_threads"
    and "list_all (\<lambda>f. fst (CreateEmpty A (length (input_rows inputs)) f) = Status_OK) bfs"
  shows "\<exists>gstate sink. sink_all ts inputs = Inr gstate \<and> Finalize A num_threads bfs gstate = Inr sink \<and>
    (\<forall>tasks. mset (map snd tasks) = mset (CreateBF_Schedule num_threads verify sink) \<longrightarrow>
      (\<exists>sink'. run_tasks A masks threads tasks sink = Inr sink' \<and>
        list_all2 (\<lambda>f b. snd b = with_rows A masks (input_rows inputs) (snd (CreateEmpty A (length (input_rows inputs)) f)) \<and>
            bf_wf (snd b) \<and> (\<forall>r\<in>set (input_rows inputs). Find1 A masks (snd b) (key_hash (BoundColsBuilt f) r)))
          bfs (builders sink')))"
proof -
  let ?rows = "input_rows inputs" and ?empty = "\<lambda>f. snd (CreateEmpty A (length (input_rows inputs)) f)"
  have wf: "bf_wf (?empty f)" if "f \<in> set bfs" for f
    using CreateEmpty_OK(1) [OF assms(2,3,7), of f] assms(9) that by (auto simp: list_all_iff prod_eq_iff)
  have find: "Find1 A masks (with_rows A masks ?rows (?empty f)) (key_hash (BoundColsBuilt f) r)"
    if "f \<in> set bfs" "r \<in> set ?rows" for f r
    using Find1_with_rows [OF wf] that by fastforce
  have conv: "list_all2 (\<lambda>f b. snd b = with_rows A masks ?rows (?empty f) \<and> bf_wf (snd b) \<and>
      (\<forall>r\<in>set ?rows. Find1 A masks (snd b) (key_hash (BoundColsBuilt f) r))) bfs bs"
    if "map snd bs = map (\<lambda>f. with_rows A masks ?rows (?empty f)) bfs" for bs :: "(BloomFilterBuilder \<times> BlockedBloomFilter) list"
  proof -
    have "length bs = length bfs" "\<And>i. i < length bfs \<Longrightarrow> snd (bs ! i) = with_rows A masks ?rows (?empty (bfs ! i))"
      using arg_cong [OF that, of length] arg_cong [OF that, of "\<lambda>xs. xs ! _"] by (simp_all, metis length_map nth_map)
    then show ?thesis using wf find by (auto simp: list_all2_conv_all_nth)
  qed
  obtain gstate sink where fin: "sink_all ts inputs = Inr gstate" "Finalize A num_threads bfs gstate = Inr sink"
    and run: "\<And>tasks. mset (map snd tasks) = mset (CreateBF_Schedule num_threads verify sink) \<Longrightarrow>
      \<exists>sink'. run_tasks A masks threads tasks sink = Inr sink' \<and> map snd (builders sink') = map (\<lambda>f. with_rows A masks ?rows (?empty f)) bfs"
    using build_complete [OF assms(1,4,5,6,8), of verify masks] by blast
  show ?thesis using fin run conv by blast
qed

definition sample_filter :: BlockedBloomFilter where
  "sample_filter = BlockedBloomFilter_new\<lparr>BoundColsBuilt := [1, 0], BoundColsApplied := [1, 0]\<rparr>"

definition sample_inputs :: "DataChunk list list" where
  "sample_inputs = [[sample_chunk], [], [sample_chunk, sample_chunk]]"

lemma sample_inputs_ok:
  "list_all (list_all (sunk [T_INT32, T_VARCHAR])) sample_inputs" "length (input_rows sample_inputs) = 6"
  "list_all (\<lambda>f. cols_ok [T_INT32, T_VARCHAR] (BoundColsBuilt f)) [sample_filter]" "list_all storable [T_INT32, T_VARCHAR]"
  by (simp_all add: sample_inputs_def input_rows_def sunk_def sample_chunk_ok sample_chunk_rows cols_ok_def sample_filter_def)
    (simp add: sample_chunk_def)

lemma sample_filter_status: "fst (CreateEmpty arrow_ref n sample_filter) = Status_OK"
  by (simp add: CreateEmpty_def Let_def arrow_ref_def)

theorem CreateBF_builds_filters_witness:
  "\<exists>gstate sink. sink_all [T_INT32, T_VARCHAR] sample_inputs = Inr gstate \<and>
     Finalize arrow_ref 2 [sample_filter] gstate = Inr sink \<and>
     (\<exists>sink'. run_tasks arrow_ref (replicate 136 85) [7 :: nat] (map (\<lambda>t. (7, t)) (rev (CreateBF_Schedule 2 True sink))) sink = Inr sink' \<and>
       length (builders sink') = 1)"
proof -
  have "length (input_rows sample_inputs) < 2 ^ 60" "length [7 :: nat] < 2"
    "list_all (\<lambda>f. fst (CreateEmpty arrow_ref (length (input_rows sample_inputs)) f) = Status_OK) [sample_filter]"
    by (simp_all add: sample_inputs_ok(2) sample_filter_status)
  from CreateBF_builds_filters [OF arrow_ref_ok(4,1,5) sample_inputs_ok(4,3,1) this, of True "replicate 136 85"]
  show ?thesis
  proof (elim exE conjE, goal_cases)
    case (1 gstate sink)
    have "mset (map snd (map (\<lambda>t. (7 :: nat, t)) (rev (CreateBF_Schedule 2 True sink)))) = mset (CreateBF_Schedule 2 True sink)"
      by (simp add: comp_def)
    from 1(3) [rule_format, OF this] 1(1,2) show ?case by (auto dest!: list_all2_lengthD)
  qed
qed

text \<open>
  C7. Afterwards the operator is a source of the rows it has collected: if at least as many
  pipeline tasks read it as there are threads, they return chunks of the operator's types
  with all rows, each once.
\<close>

theorem CreateBF_returns_rows:
  assumes "arrow_rotl_ok A" and "list_all storable ts"
    and "list_all (\<lambda>f. cols_ok ts (BoundColsBuilt f)) bfs" and "list_all (list_all (sunk ts)) inputs"
    and "0 < num_threads" and "num_threads \<le> length junk"
  shows "\<exists>gstate sink. sink_all ts inputs = Inr gstate \<and> Finalize A num_threads bfs gstate = Inr sink \<and>
    (\<forall>fuel. ChunkCount (total_data sink) + 1 < fuel \<longrightarrow>
      (\<exists>cs. read_tasks fuel junk sink (GetGlobalSourceState num_threads sink) = Some (Inr cs) \<and>
        list_all (\<lambda>c. chunk_types c = ts) cs \<and> concat (map (\<lambda>c. the (chunk_rows c)) cs) = input_rows inputs))"
proof -
  obtain gstate sink where fin: "sink_all ts inputs = Inr gstate" "Finalize A num_threads bfs gstate = Inr sink"
    "readable ts (total_data sink)" "cdc_rows (total_data sink) = input_rows inputs"
    using Finalize_ok [OF assms(1-4), of num_threads] by blast
  let ?d = "total_data sink"
  note ranges = GetGlobalSourceState_ranges [where gstate = sink and n = num_threads]
  have read: "read_tasks fuel junk sink (GetGlobalSourceState num_threads sink) = Some (Inr (fetched ?d [0..<ChunkCount ?d]))"
    if "ChunkCount ?d + 1 < fuel" for fuel
    using read_tasks_ok [OF ranges(1) that, of junk] take_ranges(2) [OF assms(5,6), of sink] by (simp add: ranges(2))
  have "concat (map (\<lambda>c. the (chunk_rows c)) (fetched ?d [0..<ChunkCount ?d])) = input_rows inputs"
    using fetched_rows [OF fin(3), of "[0..<ChunkCount ?d]"] by (simp add: chunk_rows_of_all fin(4) atLeast0LessThan)
  moreover have "list_all (\<lambda>c. chunk_types c = ts) (fetched ?d [0..<ChunkCount ?d])"
    by (rule fetched_types [OF fin(3)]) (simp add: atLeast0LessThan)
  ultimately show ?thesis using fin(1,2) read by blast
qed

theorem CreateBF_returns_rows_witness:
  "\<exists>gstate sink. sink_all [T_INT32, T_VARCHAR] sample_inputs = Inr gstate \<and>
     Finalize arrow_ref 2 [sample_filter] gstate = Inr sink \<and>
     (\<exists>cs. read_tasks (ChunkCount (total_data sink) + 2) [(0, 0, 0), (9, 9, 9)] sink (GetGlobalSourceState 2 sink) = Some (Inr cs) \<and>
       length (concat (map (\<lambda>c. the (chunk_rows c)) cs)) = 6)"
proof -
  have "(0 :: nat) < 2" "2 \<le> length [(0, 0, 0), (9, 9, 9) :: nat \<times> nat \<times> nat]" by simp_all
  from CreateBF_returns_rows [OF arrow_ref_ok(4) sample_inputs_ok(4,3,1) this] show ?thesis
    using sample_inputs_ok(2) by (metis (no_types, lifting) add_less_cancel_left one_less_numeral_iff semiring_norm(76))
qed

text \<open>
  C35. A pipeline that is not run in parallel has one task, whatever the number of threads.
  With two or more threads and two or more chunks this task returns only the first range:
  rows are lost.
\<close>

theorem CreateBF_sequential_source_loses_rows:
  assumes "readable ts (total_data sink)" and "2 \<le> num_threads" and "2 \<le> ChunkCount (total_data sink)"
    and "ChunkCount (total_data sink) + 1 < fuel"
  shows "\<exists>cs. read_tasks fuel [(x, y, z)] sink (GetGlobalSourceState num_threads sink) = Some (Inr cs) \<and>
    length (concat (map (\<lambda>c. the (chunk_rows c)) cs)) < length (cdc_rows (total_data sink))"
proof -
  let ?d = "total_data sink" and ?todo = "chunks_todo (GetGlobalSourceState num_threads sink)"
  define m where "m = max ((ChunkCount ?d + num_threads - 1) div num_threads) 1"
  have m: "m < ChunkCount ?d" unfolding m_def by (rule first_range [OF assms(2,3)])
  obtain k where k: "num_threads = Suc k" using assms(2) by (cases num_threads) auto
  have "take 1 ?todo = [(0, m)]"
    using m assms(3) unfolding GetGlobalSourceState_def Let_def m_def [symmetric] by (simp add: k Let_def)
  then have "read_tasks fuel [(x, y, z)] sink (GetGlobalSourceState num_threads sink) = Some (Inr (fetched ?d [0..<m]))"
    using read_tasks_ok [OF GetGlobalSourceState_ranges(1) assms(4), of "[(x, y, z)]" num_threads]
    by (simp add: GetGlobalSourceState_ranges(2))
  moreover have "length (concat (map (\<lambda>c. the (chunk_rows c)) (fetched ?d [0..<m]))) < length (cdc_rows ?d)"
    using fetched_rows [OF assms(1), of "[0..<m]"] first_task_rows [OF assms(1) m] m
    by (simp add: atLeast0LessThan lessThan_subset_iff)
  ultimately show ?thesis by blast
qed

theorem CreateBF_sequential_source_loses_rows_witness:
  "\<exists>cs. read_tasks 9 [(0, 0, 0)] two_chunks (GetGlobalSourceState 2 two_chunks) = Some (Inr cs) \<and>
     length (concat (map (\<lambda>c. the (chunk_rows c)) cs)) < 4"
  using CreateBF_sequential_source_loses_rows [OF two_chunks_readable(1), of 2 9 0 0 0] by (simp add: two_chunks_readable(2,3))

end
