(* ===== verification/Value_Equality.thy ===== *)
theory Value_Equality
  imports Physical_UseBF
begin

text \<open>
  The equality that joins compare keys with (include/duckdb/common/operator/
  comparison_operators.hpp, common/vector_operations/comparison_operators.cpp). Values that
  it identifies have the same hash, so rows with equal keys have the same key hash.
\<close>

section \<open>Equality of values\<close>

text \<open>The comparison \<open>==\<close> of floating point numbers, on their bit patterns.\<close>

definition float_eq :: "u32 \<Rightarrow> u32 \<Rightarrow> bool" where
  "float_eq a b \<longleftrightarrow> \<not> float_isnan a \<and> \<not> float_isnan b \<and> (a = b \<or> float_is_zero a \<and> float_is_zero b)"

definition double_eq :: "u64 \<Rightarrow> u64 \<Rightarrow> bool" where
  "double_eq a b \<longleftrightarrow> \<not> double_isnan a \<and> \<not> double_isnan b \<and> (a = b \<or> double_is_zero a \<and> double_is_zero b)"

definition EqualsFloat_float :: "u32 \<Rightarrow> u32 \<Rightarrow> bool" where
  "EqualsFloat_float left right = (if float_isnan left \<and> float_isnan right then True else float_eq left right)"

definition EqualsFloat_double :: "u64 \<Rightarrow> u64 \<Rightarrow> bool" where
  "EqualsFloat_double left right = (if double_isnan left \<and> double_isnan right then True else double_eq left right)"

definition Hugeint_Equals :: "hugeint_t \<Rightarrow> hugeint_t \<Rightarrow> bool" where
  "Hugeint_Equals lhs rhs =
     (let lower_equals = (lower lhs = lower rhs); upper_equals = (upper lhs = upper rhs) in lower_equals \<and> upper_equals)"

text \<open>\<open>Equals::Operation\<close> of the type of the operands.\<close>

definition Equals_Operation :: "Scalar \<Rightarrow> Scalar \<Rightarrow> bool" where
  "Equals_Operation left right =
     (case left of
        S_FLOAT a \<Rightarrow> (case right of S_FLOAT b \<Rightarrow> EqualsFloat_float a b | _ \<Rightarrow> False)
      | S_DOUBLE a \<Rightarrow> (case right of S_DOUBLE b \<Rightarrow> EqualsFloat_double a b | _ \<Rightarrow> False)
      | S_INTERVAL a \<Rightarrow> (case right of S_INTERVAL b \<Rightarrow> interval_eq a b | _ \<Rightarrow> False)
      | S_INT128 a \<Rightarrow> (case right of S_INT128 b \<Rightarrow> Hugeint_Equals a b | _ \<Rightarrow> False)
      | S_UINT128 a \<Rightarrow> (case right of S_UINT128 b \<Rightarrow> Hugeint_Equals a b | _ \<Rightarrow> False)
      | _ \<Rightarrow> left = right)"

definition NotDistinctFrom_Operation :: "Scalar option \<Rightarrow> Scalar option \<Rightarrow> bool" where
  "NotDistinctFrom_Operation left right =
     (case (left, right) of
        (Some l, Some r) \<Rightarrow> Equals_Operation l r
      | _ \<Rightarrow> \<not> ((left = None) \<noteq> (right = None)))"

text \<open>The fields of structs and the items of lists are compared one by one, nulls as equal.\<close>

fun same_value :: "Value \<Rightarrow> Value \<Rightarrow> bool" where
  "same_value (ScalarValue a) (ScalarValue b) = NotDistinctFrom_Operation a b"
| "same_value (StructValue vs) (StructValue ws) = list_all2 same_value vs ws"
| "same_value (ListValue None) (ListValue None) = True"
| "same_value (ListValue (Some vs)) (ListValue (Some ws)) = list_all2 same_value vs ws"
| "same_value _ _ = False"

section \<open>Equal values have equal hashes\<close>

lemma EqualsFloat_iff:
  "EqualsFloat_float a b \<longleftrightarrow> FloatEqualityTransform a = FloatEqualityTransform b"
  "EqualsFloat_double x y \<longleftrightarrow> DoubleEqualityTransform x = DoubleEqualityTransform y"
  by (auto simp: EqualsFloat_float_def EqualsFloat_double_def float_eq_def double_eq_def FloatEqualityTransform_eq_iff
      DoubleEqualityTransform_eq_iff float_is_zero_def float_isnan_def double_is_zero_def double_isnan_def)

lemma Equals_hash: "Equals_Operation s t \<Longrightarrow> hash_scalar s = hash_scalar t"
  by (cases s) (auto simp: Equals_Operation_def hash_scalar_def Hash_float_def Hash_double_def EqualsFloat_iff
      Hugeint_Equals_def Let_def Hash_interval_def Hash_hugeint_def Hash_uhugeint_def
      dest!: interval_eq_normal split: Scalar.splits)

lemma NotDistinctFrom_hash: "NotDistinctFrom_Operation a b \<Longrightarrow> hash_cell hash_scalar a = hash_cell hash_scalar b"
  by (auto simp: NotDistinctFrom_Operation_def hash_cell_def Equals_hash split: option.splits)

lemma same_values_combine:
  assumes "list_all2 same_value vs ws"
    and "\<And>v w h. v \<in> set vs \<Longrightarrow> same_value v w \<Longrightarrow> hash_value v = hash_value w \<and> combine_value h v = combine_value h w"
  shows "combine_fields h vs = combine_fields h ws" and "combine_items h vs = combine_items h ws"
  using assms by (induction arbitrary: h rule: list_all2_induct) auto

lemma same_value_hash: "same_value v w \<Longrightarrow> hash_value v = hash_value w \<and> combine_value h v = combine_value h w"
proof (induction v arbitrary: w h)
  case (ScalarValue a)
  then show ?case by (cases w) (auto dest: NotDistinctFrom_hash)
next
  case (StructValue vs)
  then obtain ws where w: "w = StructValue ws" and all: "list_all2 same_value vs ws" by (cases w) auto
  show ?case
  proof (cases "vs = []")
    case False
    then obtain v vs' u ws' where vs: "vs = v # vs'" and ws: "ws = u # ws'" using all by (cases vs; cases ws) auto
    then show ?thesis
      using all StructValue.IH same_values_combine(1) [of vs ws h] same_values_combine(1) [of vs' ws' "hash_value u"] by (auto simp: w)
  qed (use all in \<open>simp add: w\<close>)
next
  case (ListValue c)
  show ?case
  proof (cases c)
    case None
    then show ?thesis using ListValue.prems by (auto elim: same_value.elims)
  next
    case (Some vs)
    then obtain ws where w: "w = ListValue (Some ws)" and all: "list_all2 same_value vs ws"
      using ListValue.prems by (auto elim: same_value.elims)
    show ?thesis
    proof (cases "vs = []")
      case False
      then obtain v vs' u ws' where vs: "vs = v # vs'" and ws: "ws = u # ws'" using all by (cases vs; cases ws) auto
      then show ?thesis
        using all ListValue.IH Some same_values_combine(2) [of vs ws h] same_values_combine(2) [of vs' ws' "hash_value u"]
        by (auto simp: w)
    qed (use all Some in \<open>simp add: w\<close>)
  qed
qed

definition same_key :: "nat list \<Rightarrow> row \<Rightarrow> nat list \<Rightarrow> row \<Rightarrow> bool" where
  "same_key cols r cols' r' \<longleftrightarrow> list_all2 same_value (map ((!) r) cols) (map ((!) r') cols')"

lemma same_key_hash:
  assumes "same_key cols r cols' r'" and "cols \<noteq> []"
  shows "key_hash cols r = key_hash cols' r'"
proof -
  obtain c cs c' cs' where cols: "cols = c # cs" "cols' = c' # cs'"
    using assms by (cases cols; cases cols') (auto simp: same_key_def)
  then have "hash_value (r ! c) = hash_value (r' ! c')" "list_all2 same_value (map ((!) r) cs) (map ((!) r') cs')"
    using assms(1) same_value_hash by (auto simp: same_key_def)
  then show ?thesis
    using same_values_combine(1) [of "map ((!) r) cs" "map ((!) r') cs'"] same_value_hash by (simp add: key_hash_def cols)
qed

end
