(* ===== verification/Column_Binding_Resolver.thy ===== *)
theory Column_Binding_Resolver
  imports Logical_Plan Bloom_Filter
begin

text \<open>
  The pass that turns column bindings into positions in a chunk (execution/
  column_binding_resolver.cpp): its treatment of CREATE_BF and USE_BF operators, column
  references, and its check that table indexes are unique. The bindings of the columns an
  operator receives are the state of the pass; here they are an argument.
\<close>

section \<open>Columns of filters\<close>

datatype resolver_error = No_bound_column | Failed_to_bind | Duplicate_table_index

text \<open>The search for a column: the first binding that is equal.\<close>

fun binding_index :: "ColumnBinding \<Rightarrow> ColumnBinding list \<Rightarrow> nat \<Rightarrow> nat option" where
  "binding_index colbind [] i = None"
| "binding_index colbind (b # bindings) i = (if colbind = b then Some i else binding_index colbind bindings (Suc i))"

fun bind_columns :: "ColumnBinding list \<Rightarrow> ColumnBinding list \<Rightarrow> nat list \<Rightarrow> nat list" where
  "bind_columns bindings [] bound = bound"
| "bind_columns bindings (colbind # cols) bound =
     bind_columns bindings cols (case binding_index colbind bindings 0 of Some i \<Rightarrow> bound @ [i] | None \<Rightarrow> bound)"

definition resolve_create_bf :: "ColumnBinding list \<Rightarrow> BlockedBloomFilter \<Rightarrow> resolver_error + BlockedBloomFilter" where
  "resolve_create_bf bindings bf =
     (let bf' = bf\<lparr>BoundColsBuilt := bind_columns bindings (column_bindings_built bf) (BoundColsBuilt bf)\<rparr>
      in if length (BoundColsBuilt bf') = 0 then Inl No_bound_column else Inr bf')"

definition resolve_use_bf :: "ColumnBinding list \<Rightarrow> BlockedBloomFilter \<Rightarrow> resolver_error + BlockedBloomFilter" where
  "resolve_use_bf bindings bf =
     (let bf' = bf\<lparr>BoundColsApplied := bind_columns bindings (column_bindings_applied bf) (BoundColsApplied bf)\<rparr>
      in if length (BoundColsApplied bf') = 0 then Inl No_bound_column else Inr bf')"

text \<open>A column reference becomes a reference to a position.\<close>

definition VisitReplace :: "ColumnBinding list \<Rightarrow> ColumnBinding \<Rightarrow> resolver_error + nat" where
  "VisitReplace bindings binding =
     (case binding_index binding bindings 0 of Some i \<Rightarrow> Inr i | None \<Rightarrow> Inl Failed_to_bind)"

section \<open>Table indexes\<close>

definition insert_index :: "nat \<Rightarrow> nat set \<Rightarrow> resolver_error + nat set" where
  "insert_index index result = (if index \<in> result then Inl Duplicate_table_index else Inr (insert index result))"

text \<open>
  The set of a child is iterated in no particular order; the outcome does not depend on
  it, and the model takes the whole set at once.
\<close>

definition insert_child :: "nat set \<Rightarrow> nat set \<Rightarrow> resolver_error + nat set" where
  "insert_child child_indexes result =
     (if child_indexes \<inter> result \<noteq> {} then Inl Duplicate_table_index else Inr (result \<union> child_indexes))"

fun VerifyInternal :: "LogicalOperator \<Rightarrow> resolver_error + nat set"
  and verify_children :: "LogicalOperator list \<Rightarrow> nat set \<Rightarrow> resolver_error + nat set" where
  "VerifyInternal (Op info cs) =
     (case verify_children cs {} of
        Inl e \<Rightarrow> Inl e
      | Inr result \<Rightarrow> for_res insert_index (GetTableIndex (Op info cs)) result)"
| "verify_children [] result = Inr result"
| "verify_children (c # cs) result =
     (case VerifyInternal c of
        Inl e \<Rightarrow> Inl e
      | Inr child_indexes \<Rightarrow>
          (case insert_child child_indexes result of Inl e \<Rightarrow> Inl e | Inr result' \<Rightarrow> verify_children cs result'))"

section \<open>Positions are positions of the columns\<close>

lemma binding_index_Some: "binding_index c bindings i = Some k \<Longrightarrow> \<exists>m. k = i + m \<and> m < length bindings \<and> bindings ! m = c"
proof (induction c bindings i rule: binding_index.induct)
  case (2 c b bindings i)
  show ?case
  proof (cases "c = b")
    case False
    then obtain m where "k = Suc i + m" "m < length bindings" "bindings ! m = c" using 2 by auto
    then show ?thesis by (intro exI [of _ "Suc m"]) simp
  qed (use 2 in auto)
qed simp

lemma binding_index_None: "binding_index c bindings i = None \<longleftrightarrow> c \<notin> set bindings"
  by (induction c bindings i rule: binding_index.induct) auto

lemma bind_columns_eq:
  "bind_columns bindings cols bound = bound @ map (\<lambda>c. the (binding_index c bindings 0)) (filter (\<lambda>c. c \<in> set bindings) cols)"
proof (induction bindings cols bound rule: bind_columns.induct)
  case (2 bindings colbind cols bound)
  then show ?case using binding_index_None [of colbind bindings 0] by (cases "binding_index colbind bindings 0") auto
qed simp

lemma bound_column:
  "c \<in> set bindings \<Longrightarrow> the (binding_index c bindings 0) < length bindings \<and> bindings ! the (binding_index c bindings 0) = c"
  using binding_index_None [of c bindings 0] binding_index_Some [of c bindings 0] by fastforce

lemma bound_columns:
  "list_all (\<lambda>k. k < length bindings) (map (\<lambda>c. the (binding_index c bindings 0)) (filter (\<lambda>c. c \<in> set bindings) cols))"
  "map ((!) bindings) (map (\<lambda>c. the (binding_index c bindings 0)) (filter (\<lambda>c. c \<in> set bindings) cols)) =
     filter (\<lambda>c. c \<in> set bindings) cols"
  by (auto simp: list_all_iff bound_column intro!: map_idI)

section \<open>Indexes\<close>

fun table_indexes :: "LogicalOperator \<Rightarrow> nat list" where
  "table_indexes (Op info cs) = concat (map table_indexes cs) @ GetTableIndex (Op info cs)"

lemma insert_indexes:
  "for_res insert_index is S = (if distinct is \<and> set is \<inter> S = {} then Inr (S \<union> set is) else Inl Duplicate_table_index)"
  by (induction "is" arbitrary: S) (auto simp: insert_index_def)

lemma Verify_spec:
  "VerifyInternal op = (if distinct (table_indexes op) then Inr (set (table_indexes op)) else Inl Duplicate_table_index)"
  "verify_children cs S = (if distinct (concat (map table_indexes cs)) \<and> set (concat (map table_indexes cs)) \<inter> S = {}
     then Inr (S \<union> set (concat (map table_indexes cs))) else Inl Duplicate_table_index)"
proof (induction op and cs S rule: VerifyInternal_verify_children.induct)
  case (1 info cs)
  then show ?case by (auto simp: insert_indexes)
next
  case (3 c cs S)
  then show ?case by (auto simp: insert_child_def)
qed simp

section \<open>Claims\<close>

text \<open>
  C36. Filters get the positions of their columns: resolving throws exactly if none of the
  columns is among the bindings of the operator's input; otherwise the positions are those
  of the columns that are, in order. If all of them are, position by position the column
  at the position is the column of the filter, for CREATE_BF and USE_BF alike.
\<close>

theorem filter_columns_bound:
  assumes "BoundColsBuilt bf = []" and "BoundColsApplied bf = []"
  shows "(resolve_create_bf bindings bf = Inl No_bound_column \<longleftrightarrow> set (column_bindings_built bf) \<inter> set bindings = {}) \<and>
    (resolve_use_bf bindings bf = Inl No_bound_column \<longleftrightarrow> set (column_bindings_applied bf) \<inter> set bindings = {}) \<and>
    (\<forall>bf'. resolve_create_bf bindings bf = Inr bf' \<longrightarrow>
       list_all (\<lambda>k. k < length bindings) (BoundColsBuilt bf') \<and>
       map ((!) bindings) (BoundColsBuilt bf') = filter (\<lambda>c. c \<in> set bindings) (column_bindings_built bf)) \<and>
    (\<forall>bf'. resolve_use_bf bindings bf = Inr bf' \<longrightarrow>
       list_all (\<lambda>k. k < length bindings) (BoundColsApplied bf') \<and>
       map ((!) bindings) (BoundColsApplied bf') = filter (\<lambda>c. c \<in> set bindings) (column_bindings_applied bf))"
  using assms bound_columns [of bindings "column_bindings_built bf"] bound_columns [of bindings "column_bindings_applied bf"]
  by (auto simp: resolve_create_bf_def resolve_use_bf_def bind_columns_eq Let_def filter_empty_conv)

theorem filter_columns_bound_witness:
  "\<exists>bf'. resolve_create_bf [\<lparr>table_index = 1, column_index = 0\<rparr>, \<lparr>table_index = 2, column_index = 5\<rparr>]
       (AddColumnBindingBuilt \<lparr>table_index = 2, column_index = 5\<rparr> BlockedBloomFilter_new) = Inr bf' \<and> BoundColsBuilt bf' = [1]"
proof -
  let ?bs = "[\<lparr>table_index = 1, column_index = 0\<rparr>, \<lparr>table_index = 2, column_index = 5 :: nat\<rparr>] :: ColumnBinding list"
  let ?bf = "AddColumnBindingBuilt \<lparr>table_index = 2, column_index = 5\<rparr> BlockedBloomFilter_new"
  have "BoundColsBuilt ?bf = []" "BoundColsApplied ?bf = []" by (simp_all add: AddColumnBindingBuilt_def BlockedBloomFilter_new_def)
  from filter_columns_bound [OF this, of ?bs] show ?thesis
    by (auto simp: resolve_create_bf_def AddColumnBindingBuilt_def BlockedBloomFilter_new_def Let_def)
qed


end
