(* ===== verification/Operator_Names.thy ===== *)
theory Operator_Names
  imports Logical_Plan
begin

text \<open>
  The names of logical operators: \<open>LogicalOperatorToString\<close> (common/enums/
  logical_operator_type.cpp), which plans are printed with, and the generated conversions
  \<open>EnumUtil::ToChars\<close> and \<open>EnumUtil::FromString\<close> of the enumeration (common/enum_util.cpp),
  which plans are serialised with.
\<close>

section \<open>Printing\<close>

definition LogicalOperatorToString :: "LogicalOperatorType \<Rightarrow> string" where
  "LogicalOperatorToString type =
     (case type of
        LOGICAL_GET \<Rightarrow> ''GET''
      | LOGICAL_CHUNK_GET \<Rightarrow> ''CHUNK_GET''
      | LOGICAL_DELIM_GET \<Rightarrow> ''DELIM_GET''
      | LOGICAL_EMPTY_RESULT \<Rightarrow> ''EMPTY_RESULT''
      | LOGICAL_EXPRESSION_GET \<Rightarrow> ''EXPRESSION_GET''
      | LOGICAL_ANY_JOIN \<Rightarrow> ''ANY_JOIN''
      | LOGICAL_ASOF_JOIN \<Rightarrow> ''ASOF_JOIN''
      | LOGICAL_DEPENDENT_JOIN \<Rightarrow> ''DEPENDENT_JOIN''
      | LOGICAL_COMPARISON_JOIN \<Rightarrow> ''COMPARISON_JOIN''
      | LOGICAL_DELIM_JOIN \<Rightarrow> ''DELIM_JOIN''
      | LOGICAL_PROJECTION \<Rightarrow> ''PROJECTION''
      | LOGICAL_FILTER \<Rightarrow> ''FILTER''
      | LOGICAL_AGGREGATE_AND_GROUP_BY \<Rightarrow> ''AGGREGATE''
      | LOGICAL_WINDOW \<Rightarrow> ''WINDOW''
      | LOGICAL_UNNEST \<Rightarrow> ''UNNEST''
      | LOGICAL_LIMIT \<Rightarrow> ''LIMIT''
      | LOGICAL_ORDER_BY \<Rightarrow> ''ORDER_BY''
      | LOGICAL_TOP_N \<Rightarrow> ''TOP_N''
      | LOGICAL_SAMPLE \<Rightarrow> ''SAMPLE''
      | LOGICAL_LIMIT_PERCENT \<Rightarrow> ''LIMIT_PERCENT''
      | LOGICAL_COPY_TO_FILE \<Rightarrow> ''COPY_TO_FILE''
      | LOGICAL_COPY_DATABASE \<Rightarrow> ''COPY_DATABASE''
      | LOGICAL_JOIN \<Rightarrow> ''JOIN''
      | LOGICAL_CROSS_PRODUCT \<Rightarrow> ''CROSS_PRODUCT''
      | LOGICAL_POSITIONAL_JOIN \<Rightarrow> ''POSITIONAL_JOIN''
      | LOGICAL_UNION \<Rightarrow> ''UNION''
      | LOGICAL_EXCEPT \<Rightarrow> ''EXCEPT''
      | LOGICAL_INTERSECT \<Rightarrow> ''INTERSECT''
      | LOGICAL_INSERT \<Rightarrow> ''INSERT''
      | LOGICAL_DISTINCT \<Rightarrow> ''DISTINCT''
      | LOGICAL_DELETE \<Rightarrow> ''DELETE''
      | LOGICAL_UPDATE \<Rightarrow> ''UPDATE''
      | LOGICAL_PREPARE \<Rightarrow> ''PREPARE''
      | LOGICAL_DUMMY_SCAN \<Rightarrow> ''DUMMY_SCAN''
      | LOGICAL_CREATE_INDEX \<Rightarrow> ''CREATE_INDEX''
      | LOGICAL_CREATE_TABLE \<Rightarrow> ''CREATE_TABLE''
      | LOGICAL_CREATE_MACRO \<Rightarrow> ''CREATE_MACRO''
      | LOGICAL_EXPLAIN \<Rightarrow> ''EXPLAIN''
      | LOGICAL_EXECUTE \<Rightarrow> ''EXECUTE''
      | LOGICAL_VACUUM \<Rightarrow> ''VACUUM''
      | LOGICAL_RECURSIVE_CTE \<Rightarrow> ''REC_CTE''
      | LOGICAL_MATERIALIZED_CTE \<Rightarrow> ''CTE''
      | LOGICAL_CTE_REF \<Rightarrow> ''CTE_SCAN''
      | LOGICAL_ALTER \<Rightarrow> ''ALTER''
      | LOGICAL_CREATE_SEQUENCE \<Rightarrow> ''CREATE_SEQUENCE''
      | LOGICAL_CREATE_TYPE \<Rightarrow> ''CREATE_TYPE''
      | LOGICAL_CREATE_VIEW \<Rightarrow> ''CREATE_VIEW''
      | LOGICAL_CREATE_SCHEMA \<Rightarrow> ''CREATE_SCHEMA''
      | LOGICAL_CREATE_SECRET \<Rightarrow> ''CREATE_SECRET''
      | LOGICAL_ATTACH \<Rightarrow> ''ATTACH''
      | LOGICAL_DETACH \<Rightarrow> ''DETACH''
      | LOGICAL_DROP \<Rightarrow> ''DROP''
      | LOGICAL_PRAGMA \<Rightarrow> ''PRAGMA''
      | LOGICAL_TRANSACTION \<Rightarrow> ''TRANSACTION''
      | LOGICAL_EXPORT \<Rightarrow> ''EXPORT''
      | LOGICAL_SET \<Rightarrow> ''SET''
      | LOGICAL_RESET \<Rightarrow> ''RESET''
      | LOGICAL_LOAD \<Rightarrow> ''LOAD''
      | LOGICAL_EXTENSION_OPERATOR \<Rightarrow> ''CUSTOM_OP''
      | LOGICAL_PIVOT \<Rightarrow> ''PIVOT''
      | LOGICAL_USE_BF \<Rightarrow> ''USE_BF''
      | LOGICAL_CREATE_BF \<Rightarrow> ''CREATE_BF''
      | _ \<Rightarrow> ''INVALID'')"

section \<open>Serialisation\<close>

datatype enum_error = NotImplementedException

definition ToChars :: "LogicalOperatorType \<Rightarrow> enum_error + string" where
  "ToChars type =
     (case type of
        LOGICAL_INVALID \<Rightarrow> Inr ''LOGICAL_INVALID''
      | LOGICAL_PROJECTION \<Rightarrow> Inr ''LOGICAL_PROJECTION''
      | LOGICAL_FILTER \<Rightarrow> Inr ''LOGICAL_FILTER''
      | LOGICAL_AGGREGATE_AND_GROUP_BY \<Rightarrow> Inr ''LOGICAL_AGGREGATE_AND_GROUP_BY''
      | LOGICAL_WINDOW \<Rightarrow> Inr ''LOGICAL_WINDOW''
      | LOGICAL_UNNEST \<Rightarrow> Inr ''LOGICAL_UNNEST''
      | LOGICAL_LIMIT \<Rightarrow> Inr ''LOGICAL_LIMIT''
      | LOGICAL_ORDER_BY \<Rightarrow> Inr ''LOGICAL_ORDER_BY''
      | LOGICAL_TOP_N \<Rightarrow> Inr ''LOGICAL_TOP_N''
      | LOGICAL_COPY_TO_FILE \<Rightarrow> Inr ''LOGICAL_COPY_TO_FILE''
      | LOGICAL_DISTINCT \<Rightarrow> Inr ''LOGICAL_DISTINCT''
      | LOGICAL_SAMPLE \<Rightarrow> Inr ''LOGICAL_SAMPLE''
      | LOGICAL_LIMIT_PERCENT \<Rightarrow> Inr ''LOGICAL_LIMIT_PERCENT''
      | LOGICAL_PIVOT \<Rightarrow> Inr ''LOGICAL_PIVOT''
      | LOGICAL_COPY_DATABASE \<Rightarrow> Inr ''LOGICAL_COPY_DATABASE''
      | LOGICAL_GET \<Rightarrow> Inr ''LOGICAL_GET''
      | LOGICAL_CHUNK_GET \<Rightarrow> Inr ''LOGICAL_CHUNK_GET''
      | LOGICAL_DELIM_GET \<Rightarrow> Inr ''LOGICAL_DELIM_GET''
      | LOGICAL_EXPRESSION_GET \<Rightarrow> Inr ''LOGICAL_EXPRESSION_GET''
      | LOGICAL_DUMMY_SCAN \<Rightarrow> Inr ''LOGICAL_DUMMY_SCAN''
      | LOGICAL_EMPTY_RESULT \<Rightarrow> Inr ''LOGICAL_EMPTY_RESULT''
      | LOGICAL_CTE_REF \<Rightarrow> Inr ''LOGICAL_CTE_REF''
      | LOGICAL_JOIN \<Rightarrow> Inr ''LOGICAL_JOIN''
      | LOGICAL_DELIM_JOIN \<Rightarrow> Inr ''LOGICAL_DELIM_JOIN''
      | LOGICAL_COMPARISON_JOIN \<Rightarrow> Inr ''LOGICAL_COMPARISON_JOIN''
      | LOGICAL_ANY_JOIN \<Rightarrow> Inr ''LOGICAL_ANY_JOIN''
      | LOGICAL_CROSS_PRODUCT \<Rightarrow> Inr ''LOGICAL_CROSS_PRODUCT''
      | LOGICAL_POSITIONAL_JOIN \<Rightarrow> Inr ''LOGICAL_POSITIONAL_JOIN''
      | LOGICAL_ASOF_JOIN \<Rightarrow> Inr ''LOGICAL_ASOF_JOIN''
      | LOGICAL_DEPENDENT_JOIN \<Rightarrow> Inr ''LOGICAL_DEPENDENT_JOIN''
      | LOGICAL_UNION \<Rightarrow> Inr ''LOGICAL_UNION''
      | LOGICAL_EXCEPT \<Rightarrow> Inr ''LOGICAL_EXCEPT''
      | LOGICAL_INTERSECT \<Rightarrow> Inr ''LOGICAL_INTERSECT''
      | LOGICAL_RECURSIVE_CTE \<Rightarrow> Inr ''LOGICAL_RECURSIVE_CTE''
      | LOGICAL_MATERIALIZED_CTE \<Rightarrow> Inr ''LOGICAL_MATERIALIZED_CTE''
      | LOGICAL_INSERT \<Rightarrow> Inr ''LOGICAL_INSERT''
      | LOGICAL_DELETE \<Rightarrow> Inr ''LOGICAL_DELETE''
      | LOGICAL_UPDATE \<Rightarrow> Inr ''LOGICAL_UPDATE''
      | LOGICAL_ALTER \<Rightarrow> Inr ''LOGICAL_ALTER''
      | LOGICAL_CREATE_TABLE \<Rightarrow> Inr ''LOGICAL_CREATE_TABLE''
      | LOGICAL_CREATE_INDEX \<Rightarrow> Inr ''LOGICAL_CREATE_INDEX''
      | LOGICAL_CREATE_SEQUENCE \<Rightarrow> Inr ''LOGICAL_CREATE_SEQUENCE''
      | LOGICAL_CREATE_VIEW \<Rightarrow> Inr ''LOGICAL_CREATE_VIEW''
      | LOGICAL_CREATE_SCHEMA \<Rightarrow> Inr ''LOGICAL_CREATE_SCHEMA''
      | LOGICAL_CREATE_MACRO \<Rightarrow> Inr ''LOGICAL_CREATE_MACRO''
      | LOGICAL_DROP \<Rightarrow> Inr ''LOGICAL_DROP''
      | LOGICAL_PRAGMA \<Rightarrow> Inr ''LOGICAL_PRAGMA''
      | LOGICAL_TRANSACTION \<Rightarrow> Inr ''LOGICAL_TRANSACTION''
      | LOGICAL_CREATE_TYPE \<Rightarrow> Inr ''LOGICAL_CREATE_TYPE''
      | LOGICAL_ATTACH \<Rightarrow> Inr ''LOGICAL_ATTACH''
      | LOGICAL_DETACH \<Rightarrow> Inr ''LOGICAL_DETACH''
      | LOGICAL_EXPLAIN \<Rightarrow> Inr ''LOGICAL_EXPLAIN''
      | LOGICAL_PREPARE \<Rightarrow> Inr ''LOGICAL_PREPARE''
      | LOGICAL_EXECUTE \<Rightarrow> Inr ''LOGICAL_EXECUTE''
      | LOGICAL_EXPORT \<Rightarrow> Inr ''LOGICAL_EXPORT''
      | LOGICAL_VACUUM \<Rightarrow> Inr ''LOGICAL_VACUUM''
      | LOGICAL_SET \<Rightarrow> Inr ''LOGICAL_SET''
      | LOGICAL_LOAD \<Rightarrow> Inr ''LOGICAL_LOAD''
      | LOGICAL_RESET \<Rightarrow> Inr ''LOGICAL_RESET''
      | LOGICAL_CREATE_SECRET \<Rightarrow> Inr ''LOGICAL_CREATE_SECRET''
      | LOGICAL_EXTENSION_OPERATOR \<Rightarrow> Inr ''LOGICAL_EXTENSION_OPERATOR''
      | _ \<Rightarrow> Inl NotImplementedException)"

text \<open>The chain of comparisons of \<open>FromString\<close>: the first name that is equal decides.\<close>

fun if_equals :: "(string \<times> LogicalOperatorType) list \<Rightarrow> string \<Rightarrow> enum_error + LogicalOperatorType" where
  "if_equals [] name = Inl NotImplementedException"
| "if_equals ((n, t) # rest) name = (if name = n then Inr t else if_equals rest name)"

definition enum_names :: "(string \<times> LogicalOperatorType) list" where
  "enum_names =
       [(''LOGICAL_INVALID'', LOGICAL_INVALID),
        (''LOGICAL_PROJECTION'', LOGICAL_PROJECTION),
        (''LOGICAL_FILTER'', LOGICAL_FILTER),
        (''LOGICAL_AGGREGATE_AND_GROUP_BY'', LOGICAL_AGGREGATE_AND_GROUP_BY),
        (''LOGICAL_WINDOW'', LOGICAL_WINDOW),
        (''LOGICAL_UNNEST'', LOGICAL_UNNEST),
        (''LOGICAL_LIMIT'', LOGICAL_LIMIT),
        (''LOGICAL_ORDER_BY'', LOGICAL_ORDER_BY),
        (''LOGICAL_TOP_N'', LOGICAL_TOP_N),
        (''LOGICAL_COPY_TO_FILE'', LOGICAL_COPY_TO_FILE),
        (''LOGICAL_DISTINCT'', LOGICAL_DISTINCT),
        (''LOGICAL_SAMPLE'', LOGICAL_SAMPLE),
        (''LOGICAL_LIMIT_PERCENT'', LOGICAL_LIMIT_PERCENT),
        (''LOGICAL_PIVOT'', LOGICAL_PIVOT),
        (''LOGICAL_COPY_DATABASE'', LOGICAL_COPY_DATABASE),
        (''LOGICAL_GET'', LOGICAL_GET),
        (''LOGICAL_CHUNK_GET'', LOGICAL_CHUNK_GET),
        (''LOGICAL_DELIM_GET'', LOGICAL_DELIM_GET),
        (''LOGICAL_EXPRESSION_GET'', LOGICAL_EXPRESSION_GET),
        (''LOGICAL_DUMMY_SCAN'', LOGICAL_DUMMY_SCAN),
        (''LOGICAL_EMPTY_RESULT'', LOGICAL_EMPTY_RESULT),
        (''LOGICAL_CTE_REF'', LOGICAL_CTE_REF),
        (''LOGICAL_JOIN'', LOGICAL_JOIN),
        (''LOGICAL_DELIM_JOIN'', LOGICAL_DELIM_JOIN),
        (''LOGICAL_COMPARISON_JOIN'', LOGICAL_COMPARISON_JOIN),
        (''LOGICAL_ANY_JOIN'', LOGICAL_ANY_JOIN),
        (''LOGICAL_CROSS_PRODUCT'', LOGICAL_CROSS_PRODUCT),
        (''LOGICAL_POSITIONAL_JOIN'', LOGICAL_POSITIONAL_JOIN),
        (''LOGICAL_ASOF_JOIN'', LOGICAL_ASOF_JOIN),
        (''LOGICAL_DEPENDENT_JOIN'', LOGICAL_DEPENDENT_JOIN),
        (''LOGICAL_UNION'', LOGICAL_UNION),
        (''LOGICAL_EXCEPT'', LOGICAL_EXCEPT),
        (''LOGICAL_INTERSECT'', LOGICAL_INTERSECT),
        (''LOGICAL_RECURSIVE_CTE'', LOGICAL_RECURSIVE_CTE),
        (''LOGICAL_MATERIALIZED_CTE'', LOGICAL_MATERIALIZED_CTE),
        (''LOGICAL_INSERT'', LOGICAL_INSERT),
        (''LOGICAL_DELETE'', LOGICAL_DELETE),
        (''LOGICAL_UPDATE'', LOGICAL_UPDATE),
        (''LOGICAL_ALTER'', LOGICAL_ALTER),
        (''LOGICAL_CREATE_TABLE'', LOGICAL_CREATE_TABLE),
        (''LOGICAL_CREATE_INDEX'', LOGICAL_CREATE_INDEX),
        (''LOGICAL_CREATE_SEQUENCE'', LOGICAL_CREATE_SEQUENCE),
        (''LOGICAL_CREATE_VIEW'', LOGICAL_CREATE_VIEW),
        (''LOGICAL_CREATE_SCHEMA'', LOGICAL_CREATE_SCHEMA),
        (''LOGICAL_CREATE_MACRO'', LOGICAL_CREATE_MACRO),
        (''LOGICAL_DROP'', LOGICAL_DROP),
        (''LOGICAL_PRAGMA'', LOGICAL_PRAGMA),
        (''LOGICAL_TRANSACTION'', LOGICAL_TRANSACTION),
        (''LOGICAL_CREATE_TYPE'', LOGICAL_CREATE_TYPE),
        (''LOGICAL_ATTACH'', LOGICAL_ATTACH),
        (''LOGICAL_DETACH'', LOGICAL_DETACH),
        (''LOGICAL_EXPLAIN'', LOGICAL_EXPLAIN),
        (''LOGICAL_PREPARE'', LOGICAL_PREPARE),
        (''LOGICAL_EXECUTE'', LOGICAL_EXECUTE),
        (''LOGICAL_EXPORT'', LOGICAL_EXPORT),
        (''LOGICAL_VACUUM'', LOGICAL_VACUUM),
        (''LOGICAL_SET'', LOGICAL_SET),
        (''LOGICAL_LOAD'', LOGICAL_LOAD),
        (''LOGICAL_RESET'', LOGICAL_RESET),
        (''LOGICAL_CREATE_SECRET'', LOGICAL_CREATE_SECRET),
        (''LOGICAL_EXTENSION_OPERATOR'', LOGICAL_EXTENSION_OPERATOR)]"

definition FromString :: "string \<Rightarrow> enum_error + LogicalOperatorType" where
  "FromString name = if_equals enum_names name"

lemma if_equals_iff: "distinct (map fst table) \<Longrightarrow> if_equals table name = Inr type \<longleftrightarrow> (name, type) \<in> set table"
  by (induction table name rule: if_equals.induct) (auto simp: rev_image_eqI)

lemma enum_names_distinct: "distinct (map fst enum_names)"
  by code_simp

lemma enum_names_iff: "(name, type) \<in> set enum_names \<longleftrightarrow> ToChars type = Inr name"
  unfolding enum_names_def ToChars_def by (cases type) (simp_all add: eq_commute [of name])

section \<open>Claims\<close>

text \<open>
  C39. The two conversions are inverse to each other: a name that is written for an operator
  type is read back as that type, and a name that is read as a type is the one written for
  it.
\<close>

theorem operator_name_roundtrip:
  "ToChars type = Inr name \<longleftrightarrow> FromString name = Inr type"
  by (simp add: FromString_def if_equals_iff [OF enum_names_distinct] enum_names_iff)


end
