(* ===== verification/Pipelines.thy ===== *)
theory Pipelines
  imports PT_Prelude
begin

text \<open>
  How a physical plan with CREATE_BF and USE_BF operators is cut into pipelines
  (\<open>BuildPipelines\<close> of the operators, parallel/meta_pipeline.cpp, parallel/pipeline.cpp,
  \<open>Executor::CreateChildPipeline\<close>), and how many tasks a pipeline gets. A USE_BF operator
  makes its pipeline wait for the pipelines that build its filters, which may stand
  anywhere else in the plan, so the operators form a graph: an operator is a number, and
  the plan maps numbers to operators.

  Unions, common table expressions, delim joins, positional and inequality joins have
  build methods of their own that are not modelled.
\<close>

section \<open>State\<close>

text \<open>
  Operators by the way they build pipelines: a source without children, an operator with
  one child that streams or is a sink, a join (with the flag \<open>IsSource\<close>), and the two
  operators of predicate transfer.
\<close>

datatype PhysicalKind = KIND_SOURCE | KIND_STREAM | KIND_SINK | KIND_JOIN bool | KIND_CREATE_BF | KIND_USE_BF

record PhysicalOperator =
  phys_kind :: PhysicalKind
  phys_children :: "nat list"
  phys_related :: "nat list"

type_synonym PhysicalPlan = "nat \<Rightarrow> PhysicalOperator option"

record Pipeline =
  source :: "nat option"
  pl_operators :: "nat list"
  sink :: "nat option"
  parents :: "nat list"
  dependencies :: "nat list"

record MetaPipeline =
  meta_sink :: "nat option"
  pipelines :: "nat list"
  meta_children :: "nat list"

text \<open>
  All pipelines and meta pipelines, by number; the dependencies within meta pipelines; and
  the member \<open>this_pipeline\<close> of the CREATE_BF operators.
\<close>

record BuildState =
  pls :: "Pipeline list"
  metas :: "MetaPipeline list"
  meta_dependencies :: "nat \<Rightarrow> nat list"
  this_pipeline :: "nat \<Rightarrow> nat option"

datatype build_error = Not_supported | Out_of_fuel

section \<open>Operations\<close>

definition SetPipelineSource :: "nat \<Rightarrow> nat \<Rightarrow> BuildState \<Rightarrow> BuildState" where
  "SetPipelineSource pipeline op st = st\<lparr>pls := (pls st)[pipeline := (pls st ! pipeline)\<lparr>source := Some op\<rparr>]\<rparr>"

definition AddPipelineOperator :: "nat \<Rightarrow> nat \<Rightarrow> BuildState \<Rightarrow> BuildState" where
  "AddPipelineOperator pipeline op st =
     st\<lparr>pls := (pls st)[pipeline := (pls st ! pipeline)\<lparr>pl_operators := pl_operators (pls st ! pipeline) @ [op]\<rparr>]\<rparr>"

definition AddDependency :: "nat \<Rightarrow> nat \<Rightarrow> BuildState \<Rightarrow> BuildState" where
  "AddDependency this pipeline st =
     (let pls1 = (pls st)[this := (pls st ! this)\<lparr>dependencies := dependencies (pls st ! this) @ [pipeline]\<rparr>]
      in st\<lparr>pls := pls1[pipeline := (pls1 ! pipeline)\<lparr>parents := parents (pls1 ! pipeline) @ [this]\<rparr>]\<rparr>)"

text \<open>
  The constructor of a meta pipeline creates its base pipeline; a child meta pipeline is
  created for a sink, and the current pipeline depends on its base pipeline.
\<close>

definition MetaPipeline_new :: "nat option \<Rightarrow> BuildState \<Rightarrow> BuildState" where
  "MetaPipeline_new s st =
     st\<lparr>pls := pls st @ [\<lparr> source = None, pl_operators = [], sink = s, parents = [], dependencies = [] \<rparr>],
        metas := metas st @ [\<lparr> meta_sink = s, pipelines = [length (pls st)], meta_children = [] \<rparr>]\<rparr>"

definition GetBasePipeline :: "nat \<Rightarrow> BuildState \<Rightarrow> nat" where
  "GetBasePipeline meta st = pipelines (metas st ! meta) ! 0"

definition CreateChildMetaPipeline :: "nat \<Rightarrow> nat \<Rightarrow> nat \<Rightarrow> BuildState \<Rightarrow> nat \<times> BuildState" where
  "CreateChildMetaPipeline meta current op st =
     (let child = length (metas st);
          st1 = MetaPipeline_new (Some op) st;
          st2 = st1\<lparr>metas := (metas st1)[meta := (metas st1 ! meta)\<lparr>meta_children := meta_children (metas st1 ! meta) @ [child]\<rparr>]\<rparr>
      in (child, AddDependency current (GetBasePipeline child st2) st2))"

definition AddDependenciesFrom :: "nat \<Rightarrow> nat \<Rightarrow> nat \<Rightarrow> bool \<Rightarrow> BuildState \<Rightarrow> BuildState" where
  "AddDependenciesFrom meta dependant start including st =
     (let it = dropWhile (\<lambda>p. p \<noteq> start) (pipelines (metas st ! meta));
          it' = (if including then it else tl it);
          created_pipelines = filter (\<lambda>p. p \<noteq> dependant) it'
      in st\<lparr>meta_dependencies := (meta_dependencies st)(dependant := created_pipelines @ meta_dependencies st dependant)\<rparr>)"

text \<open>The pipeline that an executor creates for an operator in the middle of another one.\<close>

definition Executor_CreateChildPipeline :: "Pipeline \<Rightarrow> nat \<Rightarrow> Pipeline" where
  "Executor_CreateChildPipeline current op =
     \<lparr> source = Some op, pl_operators = takeWhile (\<lambda>p. p \<noteq> op) (pl_operators current), sink = sink current,
       parents = [], dependencies = [] \<rparr>"

definition CreateChildPipeline :: "nat \<Rightarrow> nat \<Rightarrow> nat \<Rightarrow> nat \<Rightarrow> BuildState \<Rightarrow> BuildState" where
  "CreateChildPipeline meta current op last_pipeline st =
     (let child = length (pls st);
          st1 = st\<lparr>pls := pls st @ [Executor_CreateChildPipeline (pls st ! current) op],
                   metas := (metas st)[meta := (metas st ! meta)\<lparr>pipelines := pipelines (metas st ! meta) @ [child]\<rparr>],
                   meta_dependencies := (meta_dependencies st)(child := meta_dependencies st child @ [current])\<rparr>
      in AddDependenciesFrom meta child last_pipeline False st1)"

section \<open>Building\<close>

text \<open>
  The build methods of the operators. \<open>from_related\<close> is \<open>BuildPipelinesFromRelated\<close>: it
  does not make the CREATE_BF operator the source of the current pipeline. The fuel bounds
  the depth of the recursion.
\<close>

fun BuildPipelines :: "nat \<Rightarrow> PhysicalPlan \<Rightarrow> nat \<Rightarrow> nat \<Rightarrow> nat \<Rightarrow> BuildState \<Rightarrow> build_error + BuildState"
  and BuildPipelinesFromRelated :: "nat \<Rightarrow> PhysicalPlan \<Rightarrow> nat \<Rightarrow> nat \<Rightarrow> nat \<Rightarrow> BuildState \<Rightarrow> build_error + BuildState" where
  "BuildPipelines 0 plan op current meta st = Inl Out_of_fuel"
| "BuildPipelines (Suc fuel) plan op current meta st =
     (case plan op of
        None \<Rightarrow> Inl Not_supported
      | Some node \<Rightarrow>
          (case (phys_kind node, phys_children node) of
             (KIND_SOURCE, []) \<Rightarrow> Inr (SetPipelineSource current op st)
           | (KIND_STREAM, [c]) \<Rightarrow> BuildPipelines fuel plan c current meta (AddPipelineOperator current op st)
           | (KIND_SINK, [c]) \<Rightarrow>
               (case CreateChildMetaPipeline meta current op (SetPipelineSource current op st) of
                  (child, st1) \<Rightarrow> BuildPipelines fuel plan c (GetBasePipeline child st1) child st1)
           | (KIND_JOIN is_source, [lhs, rhs]) \<Rightarrow>
               (let st0 = AddPipelineOperator current op st;
                    last_pipeline = List.last (pipelines (metas st0 ! meta))
                in case CreateChildMetaPipeline meta current op st0 of
                     (child, st1) \<Rightarrow>
                       (case BuildPipelines fuel plan rhs (GetBasePipeline child st1) child st1 of
                          Inl e \<Rightarrow> Inl e
                        | Inr st2 \<Rightarrow>
                            (case BuildPipelines fuel plan lhs current meta st2 of
                               Inl e \<Rightarrow> Inl e
                             | Inr st3 \<Rightarrow>
                                 Inr (if is_source then CreateChildPipeline meta current op last_pipeline st3 else st3))))
           | (KIND_CREATE_BF, [c]) \<Rightarrow> BuildPipelinesFromRelated (Suc fuel) plan op current meta (SetPipelineSource current op st)
           | (KIND_USE_BF, [c]) \<Rightarrow>
               (case for_res (\<lambda>cell. BuildPipelinesFromRelated fuel plan cell current meta) (phys_related node)
                       (AddPipelineOperator current op st) of
                  Inl e \<Rightarrow> Inl e
                | Inr st1 \<Rightarrow> BuildPipelines fuel plan c current meta st1)
           | _ \<Rightarrow> Inl Not_supported))"
| "BuildPipelinesFromRelated 0 plan op current meta st = Inl Out_of_fuel"
| "BuildPipelinesFromRelated (Suc fuel) plan op current meta st =
     (case plan op of
        None \<Rightarrow> Inl Not_supported
      | Some node \<Rightarrow>
          (case (phys_kind node, phys_children node) of
             (KIND_CREATE_BF, [c]) \<Rightarrow>
               (case this_pipeline st op of
                  None \<Rightarrow>
                    (case CreateChildMetaPipeline meta current op st of
                       (child, st1) \<Rightarrow>
                         BuildPipelines fuel plan c (GetBasePipeline child st1) child
                           (st1\<lparr>this_pipeline := (this_pipeline st1)(op \<mapsto> GetBasePipeline child st1)\<rparr>))
                | Some p \<Rightarrow> Inr (AddDependency current p st))
           | _ \<Rightarrow> Inl Not_supported))"

definition BuildState_new :: BuildState where
  "BuildState_new = \<lparr> pls = [], metas = [], meta_dependencies = (\<lambda>_. []), this_pipeline = (\<lambda>_. None) \<rparr>"

text \<open>The root meta pipeline has no sink.\<close>

definition build_plan :: "nat \<Rightarrow> PhysicalPlan \<Rightarrow> nat \<Rightarrow> build_error + BuildState" where
  "build_plan fuel plan root = BuildPipelines fuel plan root 0 0 (MetaPipeline_new None BuildState_new)"

section \<open>Scheduling\<close>

text \<open>The number of tasks a pipeline is given.\<close>

definition LaunchScanTasks :: "nat \<Rightarrow> nat \<Rightarrow> nat option" where
  "LaunchScanTasks active_threads max_threads =
     (let max_threads' = (if max_threads > active_threads then active_threads else max_threads)
      in if max_threads' \<le> 1 then None else Some max_threads')"

datatype schedule_error = InternalException_batch_index

definition ScheduleParallel :: "bool \<Rightarrow> bool \<Rightarrow> bool list \<Rightarrow> bool \<Rightarrow> bool \<Rightarrow> nat \<Rightarrow> nat \<Rightarrow> schedule_error + nat option" where
  "ScheduleParallel parallel_sink parallel_source parallel_operators requires_batch_index supports_batch_index active_threads max_threads =
     (if \<not> parallel_sink then Inr None
      else if \<not> parallel_source then Inr None
      else if \<not> list_all (\<lambda>parallel_operator. parallel_operator) parallel_operators then Inr None
      else if requires_batch_index \<and> \<not> supports_batch_index then Inl InternalException_batch_index
      else Inr (LaunchScanTasks active_threads max_threads))"

definition ScheduleSequentialTask :: nat where "ScheduleSequentialTask = 1"

definition Pipeline_Schedule :: "bool \<Rightarrow> bool \<Rightarrow> bool list \<Rightarrow> bool \<Rightarrow> bool \<Rightarrow> nat \<Rightarrow> nat \<Rightarrow> schedule_error + nat" where
  "Pipeline_Schedule parallel_sink parallel_source parallel_operators requires_batch_index supports_batch_index active_threads max_threads =
     (case ScheduleParallel parallel_sink parallel_source parallel_operators requires_batch_index supports_batch_index
             active_threads max_threads of
        Inl e \<Rightarrow> Inl e
      | Inr None \<Rightarrow> Inr ScheduleSequentialTask
      | Inr (Some tasks) \<Rightarrow> Inr tasks)"

section \<open>Invariants of the build\<close>

definition edge :: "BuildState \<Rightarrow> nat \<Rightarrow> nat \<Rightarrow> bool" where
  "edge st p q \<longleftrightarrow> p < length (pls st) \<and> (q \<in> set (dependencies (pls st ! p)) \<or> q \<in> set (meta_dependencies st p))"

text \<open>
  The sink of a pipeline ranks below the sinks of the pipelines that wait for it; the
  ranks come from an order of the operators in which operators need only smaller ones.
\<close>

definition level :: "(nat \<Rightarrow> nat) \<Rightarrow> nat \<Rightarrow> BuildState \<Rightarrow> nat \<Rightarrow> nat" where
  "level rank big st p = (case sink (pls st ! p) of None \<Rightarrow> big | Some op \<Rightarrow> rank op)"

definition build_inv :: "(nat \<Rightarrow> nat) \<Rightarrow> nat \<Rightarrow> BuildState \<Rightarrow> bool" where
  "build_inv rank big st \<longleftrightarrow>
     (\<forall>c q. this_pipeline st c = Some q \<longrightarrow> q < length (pls st) \<and> sink (pls st ! q) = Some c) \<and>
     (\<forall>p<length (pls st). \<forall>q\<in>set (dependencies (pls st ! p)). q < length (pls st) \<and> level rank big st q < level rank big st p) \<and>
     (\<forall>p q. q \<in> set (meta_dependencies st p) \<longrightarrow> p < length (pls st) \<and> q < p \<and> sink (pls st ! q) = sink (pls st ! p)) \<and>
     (\<forall>m<length (metas st). \<forall>p\<in>set (pipelines (metas st ! m)). p < length (pls st) \<and> sink (pls st ! p) = meta_sink (metas st ! m))"

text \<open>Every USE_BF operator outside \<open>E\<close> waits for the pipelines that build its filters.\<close>

definition waits :: "PhysicalPlan \<Rightarrow> (nat \<times> nat) set \<Rightarrow> BuildState \<Rightarrow> bool" where
  "waits plan E st \<longleftrightarrow>
     (\<forall>p<length (pls st). \<forall>u\<in>set (pl_operators (pls st ! p)). (p, u) \<notin> E \<longrightarrow>
       (\<forall>node. plan u = Some node \<and> phys_kind node = KIND_USE_BF \<longrightarrow>
         (\<forall>c\<in>set (phys_related node). \<exists>q. (edge st)\<^sup>+\<^sup>+ p q \<and> sink (pls st ! q) = Some c)))"

definition grows :: "BuildState \<Rightarrow> BuildState \<Rightarrow> bool" where
  "grows st st' \<longleftrightarrow>
     length (pls st) \<le> length (pls st') \<and> length (metas st) \<le> length (metas st') \<and>
     (\<forall>p<length (pls st). sink (pls st' ! p) = sink (pls st ! p) \<and>
        set (dependencies (pls st ! p)) \<subseteq> set (dependencies (pls st' ! p)) \<and>
        set (meta_dependencies st p) \<subseteq> set (meta_dependencies st' p)) \<and>
     (\<forall>m<length (metas st). set (pipelines (metas st ! m)) \<subseteq> set (pipelines (metas st' ! m))) \<and>
     (\<forall>c q. this_pipeline st c = Some q \<longrightarrow> this_pipeline st' c = Some q)"

lemma grows_refl: "grows st st"
  by (simp add: grows_def)

lemma growsD:
  assumes "grows st st'"
  shows "length (pls st) \<le> length (pls st')" and "length (metas st) \<le> length (metas st')"
    and "p < length (pls st) \<Longrightarrow> p < length (pls st') \<and> sink (pls st' ! p) = sink (pls st ! p)"
    and "p < length (pls st) \<Longrightarrow> set (dependencies (pls st ! p)) \<subseteq> set (dependencies (pls st' ! p))"
    and "p < length (pls st) \<Longrightarrow> set (meta_dependencies st p) \<subseteq> set (meta_dependencies st' p)"
    and "m < length (metas st) \<Longrightarrow> m < length (metas st') \<and> set (pipelines (metas st ! m)) \<subseteq> set (pipelines (metas st' ! m))"
    and "this_pipeline st c = Some q \<Longrightarrow> this_pipeline st' c = Some q"
  using assms by (auto simp: grows_def)

lemma grows_trans:
  assumes "grows st st1" and "grows st1 st2"
  shows "grows st st2"
proof -
  have "sink (pls st2 ! p) = sink (pls st ! p) \<and> set (dependencies (pls st ! p)) \<subseteq> set (dependencies (pls st2 ! p)) \<and>
      set (meta_dependencies st p) \<subseteq> set (meta_dependencies st2 p)" if "p < length (pls st)" for p
    using growsD(3-5) [OF assms(1) that] growsD(3-5) [OF assms(2), of p] by auto
  moreover have "set (pipelines (metas st ! m)) \<subseteq> set (pipelines (metas st2 ! m))" if "m < length (metas st)" for m
    using growsD(6) [OF assms(1) that] growsD(6) [OF assms(2), of m] by auto
  ultimately show ?thesis
    using growsD(1,2,7) [OF assms(1)] growsD(1,2,7) [OF assms(2)] unfolding grows_def by auto
qed

lemma grows_level: "grows st st' \<Longrightarrow> p < length (pls st) \<Longrightarrow> level rank big st' p = level rank big st p"
  by (simp add: grows_def level_def)

lemma build_invI:
  assumes "\<And>c q. this_pipeline st c = Some q \<Longrightarrow> q < length (pls st) \<and> sink (pls st ! q) = Some c"
    and "\<And>p q. p < length (pls st) \<Longrightarrow> q \<in> set (dependencies (pls st ! p)) \<Longrightarrow>
      q < length (pls st) \<and> level rank big st q < level rank big st p"
    and "\<And>p q. q \<in> set (meta_dependencies st p) \<Longrightarrow> p < length (pls st) \<and> q < p \<and> sink (pls st ! q) = sink (pls st ! p)"
    and "\<And>m p. m < length (metas st) \<Longrightarrow> p \<in> set (pipelines (metas st ! m)) \<Longrightarrow>
      p < length (pls st) \<and> sink (pls st ! p) = meta_sink (metas st ! m)"
  shows "build_inv rank big st"
  using assms unfolding build_inv_def by blast

lemma build_invD:
  assumes "build_inv rank big st"
  shows "this_pipeline st c = Some q \<Longrightarrow> q < length (pls st) \<and> sink (pls st ! q) = Some c"
    and "p < length (pls st) \<Longrightarrow> q \<in> set (dependencies (pls st ! p)) \<Longrightarrow>
      q < length (pls st) \<and> level rank big st q < level rank big st p"
    and "q \<in> set (meta_dependencies st p) \<Longrightarrow> p < length (pls st) \<and> q < p \<and> sink (pls st ! q) = sink (pls st ! p)"
    and "m < length (metas st) \<Longrightarrow> p \<in> set (pipelines (metas st ! m)) \<Longrightarrow>
      p < length (pls st) \<and> sink (pls st ! p) = meta_sink (metas st ! m)"
  using assms unfolding build_inv_def by blast+

lemma edge_grows: "grows st st' \<Longrightarrow> edge st p q \<Longrightarrow> edge st' p q"
  unfolding edge_def grows_def by (meson order.strict_trans2 subsetD)

lemma edge_target: "build_inv rank big st \<Longrightarrow> edge st p q \<Longrightarrow> q < length (pls st)"
  unfolding build_inv_def edge_def by (meson order.strict_trans)

lemma reach_grows:
  assumes "grows st st'" and "build_inv rank big st" and "(edge st)\<^sup>+\<^sup>+ p q"
  shows "(edge st')\<^sup>+\<^sup>+ p q" and "sink (pls st' ! q) = sink (pls st ! q)"
proof -
  show "(edge st')\<^sup>+\<^sup>+ p q" using assms(3) edge_grows [OF assms(1)]
    by (induction rule: tranclp_induct) (auto intro: tranclp.intros)
  have "q < length (pls st)" using assms(3) edge_target [OF assms(2)] by (auto elim: tranclp.cases)
  then show "sink (pls st' ! q) = sink (pls st ! q)" using assms(1) by (simp add: grows_def)
qed

lemma waits_grows:
  assumes "grows st st'" and "build_inv rank big st" and "waits plan E st"
    and "\<And>p u. p < length (pls st') \<Longrightarrow> u \<in> set (pl_operators (pls st' ! p)) \<Longrightarrow> (p, u) \<notin> E' \<Longrightarrow>
      (\<exists>node. plan u = Some node \<and> phys_kind node = KIND_USE_BF) \<Longrightarrow>
      \<exists>p0. (p0 = p \<or> edge st' p p0) \<and> p0 < length (pls st) \<and> u \<in> set (pl_operators (pls st ! p0)) \<and> (p0, u) \<notin> E"
  shows "waits plan E' st'"
  unfolding waits_def
proof (intro allI impI ballI, elim conjE)
  fix p u node c
  assume p: "p < length (pls st')" "u \<in> set (pl_operators (pls st' ! p))" "(p, u) \<notin> E'"
    and u: "plan u = Some node" "phys_kind node = KIND_USE_BF" and c: "c \<in> set (phys_related node)"
  obtain p0 where p0: "p0 = p \<or> edge st' p p0" "p0 < length (pls st)" "u \<in> set (pl_operators (pls st ! p0))" "(p0, u) \<notin> E"
    using assms(4) [OF p] u by blast
  then obtain q where q: "(edge st)\<^sup>+\<^sup>+ p0 q" "sink (pls st ! q) = Some c"
    using assms(3) u c unfolding waits_def by blast
  have "(edge st')\<^sup>+\<^sup>+ p q" using reach_grows(1) [OF assms(1,2) q(1)] p0(1) by (auto intro: tranclp_into_tranclp2)
  then show "\<exists>q. (edge st')\<^sup>+\<^sup>+ p q \<and> sink (pls st' ! q) = Some c"
    using reach_grows(2) [OF assms(1,2) q(1)] q(2) by auto
qed

section \<open>The operations keep the invariants\<close>

text \<open>What a step of the build leaves behind.\<close>

definition advances :: "PhysicalPlan \<Rightarrow> (nat \<Rightarrow> nat) \<Rightarrow> nat \<Rightarrow> (nat \<times> nat) set \<Rightarrow> BuildState \<Rightarrow> BuildState \<Rightarrow> bool" where
  "advances plan rank big E st st' \<longleftrightarrow> build_inv rank big st' \<and> waits plan E st' \<and> grows st st'"

lemma advances_trans: "grows st st1 \<Longrightarrow> advances plan rank big E st1 st2 \<Longrightarrow> advances plan rank big E st st2"
  unfolding advances_def using grows_trans by blast

lemma SetPipelineSource_advances:
  assumes "build_inv rank big st" and "waits plan E st"
  shows "advances plan rank big E st (SetPipelineSource p op st)"
proof -
  let ?st = "SetPipelineSource p op st"
  have same: "sink (pls ?st ! q) = sink (pls st ! q)" "dependencies (pls ?st ! q) = dependencies (pls st ! q)"
    "pl_operators (pls ?st ! q) = pl_operators (pls st ! q)" for q
    by (cases "q = p \<and> q < length (pls st)"; auto simp: SetPipelineSource_def nth_list_update list_update_beyond)+
  have rest: "length (pls ?st) = length (pls st)" "metas ?st = metas st" "meta_dependencies ?st = meta_dependencies st"
    "this_pipeline ?st = this_pipeline st" by (simp_all add: SetPipelineSource_def)
  have g: "grows st ?st" by (simp add: grows_def same rest)
  have "build_inv rank big ?st" using assms(1) by (simp add: build_inv_def level_def same rest)
  moreover have "waits plan E ?st" by (rule waits_grows [OF g assms]) (auto simp: same rest)
  ultimately show ?thesis using g by (simp add: advances_def)
qed

lemma AddPipelineOperator_advances:
  assumes "build_inv rank big st" and "waits plan E st"
    and "(\<exists>node. plan op = Some node \<and> phys_kind node = KIND_USE_BF) \<Longrightarrow> (p, op) \<in> E'" and "E \<subseteq> E'"
  shows "advances plan rank big E' st (AddPipelineOperator p op st)"
proof -
  let ?st = "AddPipelineOperator p op st"
  have same: "sink (pls ?st ! q) = sink (pls st ! q)" "dependencies (pls ?st ! q) = dependencies (pls st ! q)" for q
    by (cases "q = p \<and> q < length (pls st)"; auto simp: AddPipelineOperator_def nth_list_update list_update_beyond)+
  have ops: "set (pl_operators (pls ?st ! q)) \<subseteq> set (pl_operators (pls st ! q)) \<union> (if q = p then {op} else {})" for q
    by (cases "p < length (pls st)") (auto simp: AddPipelineOperator_def nth_list_update list_update_beyond)
  have rest: "length (pls ?st) = length (pls st)" "metas ?st = metas st" "meta_dependencies ?st = meta_dependencies st"
    "this_pipeline ?st = this_pipeline st" by (simp_all add: AddPipelineOperator_def)
  have g: "grows st ?st" by (simp add: grows_def same rest)
  have "build_inv rank big ?st" using assms(1) by (simp add: build_inv_def level_def same rest)
  moreover have "waits plan E' ?st"
  proof (rule waits_grows [OF g assms(1,2)])
    fix q u assume "q < length (pls ?st)" "u \<in> set (pl_operators (pls ?st ! q))" "(q, u) \<notin> E'"
      "\<exists>node. plan u = Some node \<and> phys_kind node = KIND_USE_BF"
    then have "u \<in> set (pl_operators (pls st ! q))" "(q, u) \<notin> E" "q < length (pls st)"
      using ops [of q] assms(3,4) by (auto simp: rest split: if_splits)
    then show "\<exists>p0. (p0 = q \<or> edge ?st q p0) \<and> p0 < length (pls st) \<and> u \<in> set (pl_operators (pls st ! p0)) \<and> (p0, u) \<notin> E" by blast
  qed
  ultimately show ?thesis using g by (simp add: advances_def)
qed

lemma AddDependency_advances:
  assumes "build_inv rank big st" and "waits plan E st" and "p < length (pls st)" and "q < length (pls st)"
    and "level rank big st q < level rank big st p"
  shows "advances plan rank big E st (AddDependency p q st)" and "q \<in> set (dependencies (pls (AddDependency p q st) ! p))"
proof -
  let ?st = "AddDependency p q st"
  have nth: "pls ?st ! r = (pls st ! r)\<lparr>dependencies := dependencies (pls st ! r) @ (if r = p then [q] else []),
      parents := parents (pls st ! r) @ (if r = q then [p] else [])\<rparr>" if "r < length (pls st)" for r
    using that assms(3,4) by (cases "r = p"; cases "r = q") (simp_all add: AddDependency_def Let_def nth_list_update)
  have beyond: "pls ?st ! r = pls st ! r" if "\<not> r < length (pls st)" for r
    using that assms(3,4) by (simp add: AddDependency_def Let_def nth_list_update list_update_beyond)
  have same: "sink (pls ?st ! r) = sink (pls st ! r)" "pl_operators (pls ?st ! r) = pl_operators (pls st ! r)" for r
    by (cases "r < length (pls st)"; simp add: nth beyond)+
  have deps: "dependencies (pls ?st ! r) = dependencies (pls st ! r) @ (if r = p then [q] else [])" if "r < length (pls st)" for r
    by (simp add: nth [OF that])
  have rest: "length (pls ?st) = length (pls st)" "metas ?st = metas st" "meta_dependencies ?st = meta_dependencies st"
    "this_pipeline ?st = this_pipeline st" by (simp_all add: AddDependency_def Let_def)
  have g: "grows st ?st" using deps by (auto simp: grows_def same rest)
  have level: "level rank big ?st r = level rank big st r" for r by (simp add: level_def same)
  have "build_inv rank big ?st"
  proof (rule build_invI)
    fix r t assume "r < length (pls ?st)" "t \<in> set (dependencies (pls ?st ! r))"
    then have "r < length (pls st)" "t \<in> set (dependencies (pls st ! r)) \<or> r = p \<and> t = q"
      using deps [of r] by (auto simp: rest split: if_splits)
    then show "t < length (pls ?st) \<and> level rank big ?st t < level rank big ?st r"
      using build_invD(2) [OF assms(1), of r t] assms(4,5) by (auto simp: rest level)
  qed (use build_invD(1,3,4) [OF assms(1)] in \<open>simp_all add: rest same\<close>)
  moreover have "waits plan E ?st" by (rule waits_grows [OF g assms(1,2)]) (auto simp: same rest)
  ultimately show "advances plan rank big E st ?st" using g by (simp add: advances_def)
  show "q \<in> set (dependencies (pls ?st ! p))" using deps [OF assms(3)] by simp
qed

text \<open>A new pipeline at the end of the list.\<close>

lemma new_pipeline_advances:
  assumes "build_inv rank big st" and "waits plan E st"
    and st': "pls st' = pls st @ [pl]" "dependencies pl = []" "this_pipeline st' = this_pipeline st"
    and deps: "meta_dependencies st' = (meta_dependencies st)(length (pls st) := ds)"
      "\<And>q. q \<in> set ds \<Longrightarrow> q < length (pls st) \<and> sink (pls st ! q) = sink pl"
    and metas: "length (metas st) \<le> length (metas st')"
      "\<And>m. m < length (metas st) \<Longrightarrow> set (pipelines (metas st ! m)) \<subseteq> set (pipelines (metas st' ! m))"
      "\<And>m p. m < length (metas st') \<Longrightarrow> p \<in> set (pipelines (metas st' ! m)) \<Longrightarrow>
         p \<le> length (pls st) \<and> sink (pls st' ! p) = meta_sink (metas st' ! m)"
    and ops: "\<And>u. u \<in> set (pl_operators pl) \<Longrightarrow> \<exists>p0\<in>set ds. u \<in> set (pl_operators (pls st ! p0)) \<and> (p0, u) \<notin> E"
  shows "advances plan rank big E st st'"
proof -
  have old: "meta_dependencies st (length (pls st)) = []"
    using build_invD(3) [OF assms(1), of _ "length (pls st)"] by (cases "meta_dependencies st (length (pls st))") auto
  have g: "grows st st'" using metas(1,2) by (auto simp: grows_def st' deps(1) nth_append)
  have level: "level rank big st' p = level rank big st p" if "p < length (pls st)" for p by (rule grows_level [OF g that])
  have "build_inv rank big st'"
  proof (rule build_invI)
    fix p q assume "p < length (pls st')" "q \<in> set (dependencies (pls st' ! p))"
    then have "p < length (pls st)" "q \<in> set (dependencies (pls st ! p))" by (auto simp: st' nth_append less_Suc_eq split: if_splits)
    then show "q < length (pls st') \<and> level rank big st' q < level rank big st' p"
      using build_invD(2) [OF assms(1), of p q] by (auto simp: level st')
  next
    fix p q assume "q \<in> set (meta_dependencies st' p)"
    then show "p < length (pls st') \<and> q < p \<and> sink (pls st' ! q) = sink (pls st' ! p)"
      using build_invD(3) [OF assms(1), of q p] deps(2) [of q] by (auto simp: deps(1) st' nth_append split: if_splits)
  next
    fix c q assume "this_pipeline st' c = Some q"
    then show "q < length (pls st') \<and> sink (pls st' ! q) = Some c"
      using build_invD(1) [OF assms(1), of c q] by (auto simp: st' nth_append)
  qed (use metas(3) in \<open>auto simp: st' less_Suc_eq_le\<close>)
  moreover have "waits plan E st'"
  proof (rule waits_grows [OF g assms(1,2)])
    fix p u assume p: "p < length (pls st')" "u \<in> set (pl_operators (pls st' ! p))" "(p, u) \<notin> E"
    show "\<exists>p0. (p0 = p \<or> edge st' p p0) \<and> p0 < length (pls st) \<and> u \<in> set (pl_operators (pls st ! p0)) \<and> (p0, u) \<notin> E"
    proof (cases "p < length (pls st)")
      case True
      then show ?thesis using p by (auto simp: st' nth_append)
    next
      case False
      then have new: "p = length (pls st)" "u \<in> set (pl_operators pl)" using p by (auto simp: st' nth_append)
      then obtain p0 where "p0 \<in> set ds" "u \<in> set (pl_operators (pls st ! p0))" "(p0, u) \<notin> E" using ops by blast
      then show ?thesis using deps(2) [of p0] new(1) by (auto simp: edge_def deps(1) st')
    qed
  qed
  ultimately show ?thesis using g by (simp add: advances_def)
qed

lemma CreateChildMetaPipeline_advances:
  assumes "build_inv rank big st" and "waits plan E st" and "current < length (pls st)" and "meta < length (metas st)"
    and "rank op < level rank big st current" and "CreateChildMetaPipeline meta current op st = (child, st')"
  shows "advances plan rank big E st st'" and "child < length (metas st')" and "GetBasePipeline child st' = length (pls st)"
    and "length (pls st') = Suc (length (pls st))" and "sink (pls st' ! length (pls st)) = Some op"
    and "length (pls st) \<in> set (pipelines (metas st' ! child))"
    and "length (pls st) \<in> set (dependencies (pls st' ! current))"
proof -
  let ?n = "length (pls st)"
  define st2 where "st2 = st\<lparr>pls := pls st @ [\<lparr> source = None, pl_operators = [], sink = Some op, parents = [], dependencies = [] \<rparr>],
    metas := (metas st @ [\<lparr> meta_sink = Some op, pipelines = [?n], meta_children = [] \<rparr>])
      [meta := (metas st ! meta)\<lparr>meta_children := meta_children (metas st ! meta) @ [length (metas st)]\<rparr>]\<rparr>"
  have eq: "child = length (metas st)" "st' = AddDependency current ?n st2"
    using assms(4,6) by (auto simp: CreateChildMetaPipeline_def MetaPipeline_new_def GetBasePipeline_def Let_def st2_def nth_append)
  have m: "metas st2 ! m = (if m = meta then (metas st ! meta)\<lparr>meta_children := meta_children (metas st ! meta) @ [length (metas st)]\<rparr>
      else if m < length (metas st) then metas st ! m else \<lparr> meta_sink = Some op, pipelines = [?n], meta_children = [] \<rparr>)"
    if "m < length (metas st2)" for m
    using that assms(4) by (auto simp: st2_def nth_list_update nth_append less_Suc_eq)
  have pls2: "pls st2 = pls st @ [\<lparr> source = None, pl_operators = [], sink = Some op, parents = [], dependencies = [] \<rparr>]"
    and len2: "length (metas st2) = Suc (length (metas st))" by (simp_all add: st2_def)
  have adv: "advances plan rank big E st st2"
  proof (rule new_pipeline_advances [OF assms(1,2), of st2 "\<lparr> source = None, pl_operators = [], sink = Some op, parents = [], dependencies = [] \<rparr>" "[]"])
    show "meta_dependencies st2 = (meta_dependencies st)(?n := [])"
      using build_invD(3) [OF assms(1), of _ ?n] by (cases "meta_dependencies st ?n") (auto simp: st2_def fun_upd_idem)
    fix m assume "m < length (metas st)"
    then show "set (pipelines (metas st ! m)) \<subseteq> set (pipelines (metas st2 ! m))" using m [of m] len2 by simp
  next
    fix m p assume "m < length (metas st2)" "p \<in> set (pipelines (metas st2 ! m))"
    then show "p \<le> ?n \<and> sink (pls st2 ! p) = meta_sink (metas st2 ! m)"
      using m [of m] build_invD(4) [OF assms(1), of m p] assms(4) by (auto simp: pls2 nth_append split: if_splits)
  qed (simp_all add: st2_def)
  then have inv: "build_inv rank big st2" "waits plan E st2" "grows st st2" by (simp_all add: advances_def)
  have len: "length (pls st2) = Suc ?n" "length (metas st2) = Suc (length (metas st))" "sink (pls st2 ! ?n) = Some op"
    by (simp_all add: st2_def)
  have "level rank big st2 ?n < level rank big st2 current"
    using grows_level [OF inv(3) assms(3)] assms(5) by (simp add: level_def len(3))
  note dep = AddDependency_advances [OF inv(1,2) _ _ this]
  have adv': "advances plan rank big E st2 st'" "?n \<in> set (dependencies (pls st' ! current))"
    using dep assms(3) by (simp_all add: eq(2) len)
  show "advances plan rank big E st st'" by (rule advances_trans [OF inv(3) adv'(1)])
  have same: "metas st' = metas st2" "length (pls st') = length (pls st2)" by (simp_all add: eq(2) AddDependency_def Let_def)
  have last: "metas st2 ! length (metas st) = \<lparr> meta_sink = Some op, pipelines = [?n], meta_children = [] \<rparr>"
    using m [of "length (metas st)"] assms(4) by (simp add: len)
  show "child < length (metas st')" "GetBasePipeline child st' = ?n" "length (pls st') = Suc ?n"
    "?n \<in> set (pipelines (metas st' ! child))"
    by (simp_all add: same eq(1) len GetBasePipeline_def last)
  show "sink (pls st' ! ?n) = Some op" using adv'(1) len(1,3) by (simp add: advances_def grows_def)
  show "?n \<in> set (dependencies (pls st' ! current))" by (rule adv'(2))
qed

lemma CreateChildPipeline_advances:
  assumes "build_inv rank big st" and "waits plan E st" and "meta < length (metas st)"
    and cur: "current \<in> set (pipelines (metas st ! meta))" "\<And>u. (current, u) \<notin> E"
  shows "advances plan rank big E st (CreateChildPipeline meta current op last_pipeline st)"
proof -
  let ?n = "length (pls st)" and ?st = "CreateChildPipeline meta current op last_pipeline st"
  let ?pl = "Executor_CreateChildPipeline (pls st ! current) op"
  define created where "created = filter (\<lambda>p. p \<noteq> ?n) (tl (dropWhile (\<lambda>p. p \<noteq> last_pipeline) (pipelines (metas st ! meta) @ [?n])))"
  have n: "meta_dependencies st ?n = []" using build_invD(3) [OF assms(1), of _ ?n] by (cases "meta_dependencies st ?n") auto
  have st: "pls ?st = pls st @ [?pl]" "this_pipeline ?st = this_pipeline st"
    "meta_dependencies ?st = (meta_dependencies st)(?n := created @ [current])"
    "metas ?st = (metas st)[meta := (metas st ! meta)\<lparr>pipelines := pipelines (metas st ! meta) @ [?n]\<rparr>]"
    using assms(3) n by (simp_all add: CreateChildPipeline_def AddDependenciesFrom_def Let_def created_def)
  have "set (tl (dropWhile P xs)) \<subseteq> set xs" for P and xs :: "nat list"
    by (metis list.sel(2) list.set_sel(2) set_dropWhileD subsetI)
  then have "q \<in> set (pipelines (metas st ! meta))" if "q \<in> set (created @ [current])" for q
    using that cur(1) by (fastforce simp: created_def)
  then have ds: "q < ?n \<and> sink (pls st ! q) = sink ?pl" if "q \<in> set (created @ [current])" for q
    using that build_invD(4) [OF assms(1,3), of q] build_invD(4) [OF assms(1,3) cur(1)] by (simp add: Executor_CreateChildPipeline_def)
  show ?thesis
  proof (rule new_pipeline_advances [OF assms(1,2) st(1) _ st(2,3) ds])
    show "dependencies ?pl = []" by (simp add: Executor_CreateChildPipeline_def)
    fix m assume "m < length (metas st)"
    then show "set (pipelines (metas st ! m)) \<subseteq> set (pipelines (metas ?st ! m))" using assms(3) by (auto simp: st(4) nth_list_update)
  next
    fix m p assume "m < length (metas ?st)" "p \<in> set (pipelines (metas ?st ! m))"
    then show "p \<le> ?n \<and> sink (pls ?st ! p) = meta_sink (metas ?st ! m)"
      using build_invD(4) [OF assms(1), of m p] build_invD(4) [OF assms(1,3) cur(1)] assms(3)
      by (auto simp: st nth_list_update nth_append Executor_CreateChildPipeline_def split: if_splits)
  next
    fix u assume "u \<in> set (pl_operators ?pl)"
    then have "u \<in> set (pl_operators (pls st ! current))" by (auto simp: Executor_CreateChildPipeline_def dest: set_takeWhileD)
    then show "\<exists>p0\<in>set (created @ [current]). u \<in> set (pl_operators (pls st ! p0)) \<and> (p0, u) \<notin> E" using cur(2) by auto
  qed (simp_all add: st(4))
qed

section \<open>Plans\<close>

text \<open>
  Plans whose operators can be put in an order such that every operator comes after its
  children and a USE_BF operator after the CREATE_BF operators it is related to.
\<close>

definition shape_ok :: "PhysicalOperator \<Rightarrow> bool" where
  "shape_ok node \<longleftrightarrow>
     (case phys_kind node of
        KIND_SOURCE \<Rightarrow> phys_children node = []
      | KIND_JOIN is_source \<Rightarrow> length (phys_children node) = 2
      | _ \<Rightarrow> length (phys_children node) = 1)"

definition wf_plan :: "PhysicalPlan \<Rightarrow> (nat \<Rightarrow> nat) \<Rightarrow> bool" where
  "wf_plan plan rank \<longleftrightarrow>
     (\<forall>op node. plan op = Some node \<longrightarrow> shape_ok node \<and>
       (\<forall>c\<in>set (phys_children node). plan c \<noteq> None \<and> rank c < rank op) \<and>
       (\<forall>c\<in>set (phys_related node). rank c < rank op \<and> (\<exists>n. plan c = Some n \<and> phys_kind n = KIND_CREATE_BF)))"

text \<open>Where an operator may be built.\<close>

definition place :: "(nat \<times> nat) set \<Rightarrow> (nat \<Rightarrow> nat) \<Rightarrow> nat \<Rightarrow> nat \<Rightarrow> nat \<Rightarrow> nat \<Rightarrow> PhysicalPlan \<Rightarrow> BuildState \<Rightarrow> bool" where
  "place E rank big op current meta plan st \<longleftrightarrow>
     build_inv rank big st \<and> waits plan E st \<and> (\<forall>(p, u)\<in>E. p < length (pls st)) \<and>
     current < length (pls st) \<and> meta < length (metas st) \<and> current \<in> set (pipelines (metas st ! meta)) \<and>
     rank op < level rank big st current"

lemma place_advances:
  assumes "place E rank big op current meta plan st" and "advances plan rank big E' st st'" and "E' \<subseteq> E \<union> {(current, u)}"
    and "rank op' \<le> rank op"
  shows "place E' rank big op' current meta plan st'"
proof -
  have g: "grows st st'" using assms(2) by (simp add: advances_def)
  have "\<forall>(p, u)\<in>E'. p < length (pls st)" using assms(1,3) by (auto simp: place_def)
  then show ?thesis
    using assms growsD(1) [OF g] growsD(3) [OF g, of current] growsD(6) [OF g, of meta] grows_level [OF g, of current rank big]
    by (fastforce simp: place_def advances_def)
qed

lemma place_child:
  assumes "place E rank big op current meta plan st" and "CreateChildMetaPipeline meta current op st = (child, st1)" and "rank c < rank op"
  shows "place E rank big c (GetBasePipeline child st1) child plan st1" and "\<And>u. (GetBasePipeline child st1, u) \<notin> E"
    and "advances plan rank big E st st1"
proof -
  note pl = assms(1) [unfolded place_def]
  note new = CreateChildMetaPipeline_advances [of rank big st plan E current meta op child st1]
  show adv: "advances plan rank big E st st1" using new(1) pl assms(2) by auto
  have base: "GetBasePipeline child st1 = length (pls st)" using new(3) pl assms(2) by auto
  have "\<forall>(p, u)\<in>E. p < length (pls st)" using pl by auto
  then show "\<And>u. (GetBasePipeline child st1, u) \<notin> E" by (auto simp: base)
  have "level rank big st1 (length (pls st)) = rank op" using new(5) pl assms(2) by (simp add: level_def)
  then show "place E rank big c (GetBasePipeline child st1) child plan st1"
    using new(2,4,6) pl assms(2,3) adv by (fastforce simp: place_def base advances_def)
qed

section \<open>The build methods by kind\<close>

lemma BuildPipelines_kinds:
  assumes "plan op = Some node"
  shows "phys_kind node = KIND_SOURCE \<Longrightarrow> phys_children node = [] \<Longrightarrow>
      BuildPipelines (Suc fuel) plan op current meta st = Inr (SetPipelineSource current op st)"
    and "phys_kind node = KIND_STREAM \<Longrightarrow> phys_children node = [c] \<Longrightarrow>
      BuildPipelines (Suc fuel) plan op current meta st = BuildPipelines fuel plan c current meta (AddPipelineOperator current op st)"
    and "phys_kind node = KIND_SINK \<Longrightarrow> phys_children node = [c] \<Longrightarrow>
      CreateChildMetaPipeline meta current op (SetPipelineSource current op st) = (child, st1) \<Longrightarrow>
      BuildPipelines (Suc fuel) plan op current meta st = BuildPipelines fuel plan c (GetBasePipeline child st1) child st1"
    and "phys_kind node = KIND_JOIN is_source \<Longrightarrow> phys_children node = [lhs, rhs] \<Longrightarrow>
      CreateChildMetaPipeline meta current op (AddPipelineOperator current op st) = (child, st1) \<Longrightarrow>
      BuildPipelines fuel plan rhs (GetBasePipeline child st1) child st1 = Inr st2 \<Longrightarrow>
      BuildPipelines fuel plan lhs current meta st2 = Inr st3 \<Longrightarrow>
      BuildPipelines (Suc fuel) plan op current meta st =
        Inr (if is_source then CreateChildPipeline meta current op
               (List.last (pipelines (metas (AddPipelineOperator current op st) ! meta))) st3 else st3)"
    and "phys_kind node = KIND_CREATE_BF \<Longrightarrow> phys_children node = [c] \<Longrightarrow>
      BuildPipelines (Suc fuel) plan op current meta st =
        BuildPipelinesFromRelated (Suc fuel) plan op current meta (SetPipelineSource current op st)"
    and "phys_kind node = KIND_USE_BF \<Longrightarrow> phys_children node = [c] \<Longrightarrow>
      for_res (\<lambda>cell. BuildPipelinesFromRelated fuel plan cell current meta) (phys_related node) (AddPipelineOperator current op st) = Inr st4 \<Longrightarrow>
      BuildPipelines (Suc fuel) plan op current meta st = BuildPipelines fuel plan c current meta st4"
  unfolding BuildPipelines.simps assms option.case by (simp_all only: prod.case PhysicalKind.case list.case Let_def sum.case)

declare BuildPipelines.simps [simp del]

section \<open>Building a plan\<close>

definition build_ok :: "PhysicalPlan \<Rightarrow> (nat \<Rightarrow> nat) \<Rightarrow> nat \<Rightarrow> nat \<Rightarrow> bool" where
  "build_ok plan rank big fuel \<longleftrightarrow>
     (\<forall>op current meta st E. plan op \<noteq> None \<and> rank op < fuel \<and> place E rank big op current meta plan st \<and> (\<forall>u. (current, u) \<notin> E) \<longrightarrow>
       (\<exists>st'. BuildPipelines fuel plan op current meta st = Inr st' \<and> advances plan rank big E st st'))"

text \<open>The pipeline of a CREATE_BF operator exists, and the current pipeline depends on it.\<close>

definition awaited :: "BuildState \<Rightarrow> nat \<Rightarrow> nat \<Rightarrow> bool" where
  "awaited st current c \<longleftrightarrow> (\<exists>q. this_pipeline st c = Some q \<and> q \<in> set (dependencies (pls st ! current)))"

definition related_ok :: "PhysicalPlan \<Rightarrow> (nat \<Rightarrow> nat) \<Rightarrow> nat \<Rightarrow> nat \<Rightarrow> bool" where
  "related_ok plan rank big fuel \<longleftrightarrow>
     (\<forall>op node current meta st E. plan op = Some node \<and> phys_kind node = KIND_CREATE_BF \<and> rank op < fuel \<and>
         place E rank big op current meta plan st \<longrightarrow>
       (\<exists>st'. BuildPipelinesFromRelated fuel plan op current meta st = Inr st' \<and> advances plan rank big E st st' \<and>
         awaited st' current op))"

lemma awaited_grows: "awaited st current c \<Longrightarrow> grows st st' \<Longrightarrow> current < length (pls st) \<Longrightarrow> awaited st' current c"
  unfolding awaited_def using growsD(4,7) by blast

lemma related_step:
  assumes wf: "wf_plan plan rank" and IH: "build_ok plan rank big fuel"
  shows "related_ok plan rank big (Suc fuel)"
  unfolding related_ok_def
proof (intro allI impI, elim conjE)
  fix op node current meta st E
  assume op: "plan op = Some node" "phys_kind node = KIND_CREATE_BF" "rank op < Suc fuel" and pl: "place E rank big op current meta plan st"
  have ch: "shape_ok node" "\<forall>c\<in>set (phys_children node). plan c \<noteq> None \<and> rank c < rank op" using wf op(1) by (auto simp: wf_plan_def)
  then obtain c where c: "phys_children node = [c]" "plan c \<noteq> None" "rank c < rank op"
    using op(2) by (cases "phys_children node") (auto simp: shape_ok_def)
  have cur: "current < length (pls st)" using pl by (simp add: place_def)
  show "\<exists>st'. BuildPipelinesFromRelated (Suc fuel) plan op current meta st = Inr st' \<and> advances plan rank big E st st' \<and>
    awaited st' current op"
  proof (cases "this_pipeline st op")
    case (Some q)
    have inv: "build_inv rank big st" "waits plan E st" using pl by (simp_all add: place_def)
    have q: "q < length (pls st)" "sink (pls st ! q) = Some op" using build_invD(1) [OF inv(1) Some] by auto
    have "level rank big st q < level rank big st current" using pl q(2) by (simp add: place_def level_def)
    from AddDependency_advances [OF inv cur q(1) this] show ?thesis
      using Some by (auto simp: op c(1) awaited_def AddDependency_def Let_def)
  next
    case None
    obtain child st1 where new: "CreateChildMetaPipeline meta current op st = (child, st1)" by fastforce
    let ?base = "GetBasePipeline child st1"
    define st2 where "st2 = st1\<lparr>this_pipeline := (this_pipeline st1)(op \<mapsto> ?base)\<rparr>"
    have child: "place E rank big c ?base child plan st1" "\<And>u. (?base, u) \<notin> E" "advances plan rank big E st st1"
      using place_child [OF pl new c(3)] by auto
    note made = CreateChildMetaPipeline_advances [OF _ _ _ _ _ new, of rank big plan E]
    have base: "?base = length (pls st)" "sink (pls st1 ! ?base) = Some op" "?base < length (pls st1)"
      "?base \<in> set (dependencies (pls st1 ! current))"
      using made(3-5,7) pl by (auto simp: place_def)
    have this1: "this_pipeline st1 = this_pipeline st"
      using new by (auto simp: CreateChildMetaPipeline_def MetaPipeline_new_def AddDependency_def Let_def)
    have same: "pls st2 = pls st1" "metas st2 = metas st1" "meta_dependencies st2 = meta_dependencies st1"
      "this_pipeline st2 = (this_pipeline st1)(op \<mapsto> ?base)" by (simp_all add: st2_def)
    have edge2: "edge st2 = edge st1" by (simp add: edge_def fun_eq_iff same)
    have level2: "level rank big st2 = level rank big st1" by (simp add: level_def fun_eq_iff same)
    have g12: "grows st1 st2" using None this1 by (auto simp: grows_def same)
    have "build_inv rank big st2"
      using child(1) base(2,3) by (auto simp: place_def build_inv_def same level2)
    moreover have "waits plan E st2" using child(1) unfolding place_def waits_def edge2 same by blast
    ultimately have place2: "place E rank big c ?base child plan st2"
      using child(1) by (simp add: place_def same level2)
    have "rank c < fuel" using c(3) op(3) by simp
    then obtain st' where st': "BuildPipelines fuel plan c ?base child st2 = Inr st'" "advances plan rank big E st2 st'"
      using IH c(2) place2 child(2) unfolding build_ok_def by blast
    have "grows st st2" using child(3) g12 grows_trans by (auto simp: advances_def)
    then have "advances plan rank big E st st'" by (rule advances_trans [OF _ st'(2)])
    moreover have "awaited st2 current op" using base(4) by (simp add: awaited_def same)
    then have "awaited st' current op"
      using awaited_grows [of st2 current op st'] st'(2) cur growsD(1) [OF \<open>grows st st2\<close>] by (simp add: advances_def)
    ultimately show ?thesis using None st'(1) by (simp add: op c(1) new st2_def)
  qed
qed

lemma related_loop:
  assumes "related_ok plan rank big fuel" and "place E rank big op current meta plan st"
    and "\<And>c. c \<in> set cs \<Longrightarrow> rank c < rank op \<and> rank c < fuel \<and> (\<exists>n. plan c = Some n \<and> phys_kind n = KIND_CREATE_BF)"
  shows "\<exists>st'. for_res (\<lambda>c. BuildPipelinesFromRelated fuel plan c current meta) cs st = Inr st' \<and>
    advances plan rank big E st st' \<and> (\<forall>c\<in>set cs. awaited st' current c)"
  using assms(2,3)
proof (induction cs arbitrary: st)
  case Nil
  then show ?case by (auto simp: advances_def place_def grows_refl)
next
  case (Cons c cs)
  obtain n where n: "plan c = Some n" "phys_kind n = KIND_CREATE_BF" and r: "rank c < rank op" "rank c < fuel" using Cons.prems(2) by auto
  have "place E rank big c current meta plan st" using Cons.prems(1) r(1) by (auto simp: place_def)
  then obtain st1 where st1: "BuildPipelinesFromRelated fuel plan c current meta st = Inr st1" "advances plan rank big E st st1" "awaited st1 current c"
    using assms(1) n r(2) unfolding related_ok_def by blast
  have place1: "place E rank big op current meta plan st1" by (rule place_advances [OF Cons.prems(1) st1(2)]) auto
  then obtain st2 where st2: "for_res (\<lambda>c. BuildPipelinesFromRelated fuel plan c current meta) cs st1 = Inr st2"
    "advances plan rank big E st1 st2" "\<forall>c\<in>set cs. awaited st2 current c"
    using Cons.IH [OF place1] Cons.prems(2) by auto
  have "grows st st1" "grows st1 st2" "current < length (pls st1)" using st1(2) st2(2) place1 by (simp_all add: advances_def place_def)
  then have "advances plan rank big E st st2" "awaited st2 current c"
    using advances_trans [OF _ st2(2)] awaited_grows [OF st1(3)] by auto
  then show ?case using st1(1) st2 by auto
qed

lemma buildD:
  assumes "build_ok plan rank big fuel" and "wf_plan plan rank" and "plan op = Some node" and "c \<in> set (phys_children node)"
    and "rank op < Suc fuel" and "place E rank big c current meta plan st" and "\<And>u. (current, u) \<notin> E"
  shows "\<exists>st'. BuildPipelines fuel plan c current meta st = Inr st' \<and> advances plan rank big E st st'"
proof -
  have "plan c \<noteq> None" "rank c < rank op" using assms(2-4) by (auto simp: wf_plan_def)
  then show ?thesis using assms(1,5,6,7) unfolding build_ok_def by (metis less_Suc_eq_le order.strict_trans2)
qed

lemma child_rank: "wf_plan plan rank \<Longrightarrow> plan op = Some node \<Longrightarrow> c \<in> set (phys_children node) \<Longrightarrow> rank c < rank op"
  by (auto simp: wf_plan_def)

lemma use_step:
  assumes wf: "wf_plan plan rank" and IH: "build_ok plan rank big fuel" "related_ok plan rank big fuel"
    and op: "plan op = Some node" "phys_kind node = KIND_USE_BF" "phys_children node = [c]" "rank op < Suc fuel"
    and pl: "place E rank big op current meta plan st" and E: "\<And>u. (current, u) \<notin> E"
  shows "\<exists>st'. BuildPipelines (Suc fuel) plan op current meta st = Inr st' \<and> advances plan rank big E st st'"
proof -
  let ?E = "E \<union> {(current, op)}" and ?st = "AddPipelineOperator current op st"
  have inv: "build_inv rank big st" "waits plan E st" using pl by (simp_all add: place_def)
  have adv0: "advances plan rank big ?E st ?st" by (rule AddPipelineOperator_advances [OF inv]) auto
  have pl0: "place ?E rank big op current meta plan ?st" by (rule place_advances [OF pl adv0]) auto
  have "rank c' < rank op \<and> rank c' < fuel \<and> (\<exists>n. plan c' = Some n \<and> phys_kind n = KIND_CREATE_BF)"
    if "c' \<in> set (phys_related node)" for c' using wf op(1,4) that by (fastforce simp: wf_plan_def)
  from related_loop [OF IH(2) pl0 this] obtain st1 where
    st1: "for_res (\<lambda>c. BuildPipelinesFromRelated fuel plan c current meta) (phys_related node) ?st = Inr st1"
    "advances plan rank big ?E ?st st1" "\<forall>c\<in>set (phys_related node). awaited st1 current c" by blast
  have g: "grows st st1" using adv0 st1(2) grows_trans by (auto simp: advances_def)
  have inv1: "build_inv rank big st1" "waits plan ?E st1" using st1(2) by (simp_all add: advances_def)
  have cur: "current < length (pls st1)" using growsD(3) [OF g, of current] pl by (simp add: place_def)
  have own: "\<exists>q. (edge st1)\<^sup>+\<^sup>+ current q \<and> sink (pls st1 ! q) = Some c'" if rel: "c' \<in> set (phys_related node)" for c'
  proof -
    obtain q where q: "this_pipeline st1 c' = Some q" "q \<in> set (dependencies (pls st1 ! current))"
      using st1(3) rel by (auto simp: awaited_def)
    then have "edge st1 current q" using cur by (simp add: edge_def)
    then show ?thesis using build_invD(1) [OF inv1(1) q(1)] by (auto intro: tranclp.r_into_trancl)
  qed
  have "waits plan E st1"
    unfolding waits_def
  proof (intro allI impI ballI, elim conjE)
    fix p u n c' assume u: "p < length (pls st1)" "u \<in> set (pl_operators (pls st1 ! p))" "(p, u) \<notin> E"
      "plan u = Some n" "phys_kind n = KIND_USE_BF" "c' \<in> set (phys_related n)"
    show "\<exists>q. (edge st1)\<^sup>+\<^sup>+ p q \<and> sink (pls st1 ! q) = Some c'"
    proof (cases "(p, u) = (current, op)")
      case True
      then show ?thesis using own u(4,6) op(1) by auto
    next
      case False
      then show ?thesis using inv1(2) u unfolding waits_def by blast
    qed
  qed
  then have adv1: "advances plan rank big E st st1" using inv1(1) g by (simp add: advances_def)
  have "place E rank big c current meta plan st1"
    by (rule place_advances [OF pl adv1]) (use child_rank [OF wf op(1), of c] op(3) in auto)
  from buildD [OF IH(1) wf op(1) _ op(4) this E] op(3) obtain st' where
    "BuildPipelines fuel plan c current meta st1 = Inr st'" "advances plan rank big E st1 st'" by auto
  then show ?thesis using BuildPipelines_kinds(6) [of plan op node, OF op(1-3) st1(1)] advances_trans [OF g] by auto
qed

lemma join_step:
  assumes wf: "wf_plan plan rank" and IH: "build_ok plan rank big fuel"
    and op: "plan op = Some node" "phys_kind node = KIND_JOIN is_source" "phys_children node = [lhs, rhs]" "rank op < Suc fuel"
    and pl: "place E rank big op current meta plan st" and E: "\<And>u. (current, u) \<notin> E"
  shows "\<exists>st'. BuildPipelines (Suc fuel) plan op current meta st = Inr st' \<and> advances plan rank big E st st'"
proof -
  let ?st = "AddPipelineOperator current op st"
  have inv: "build_inv rank big st" "waits plan E st" using pl by (simp_all add: place_def)
  have adv0: "advances plan rank big E st ?st" by (rule AddPipelineOperator_advances [OF inv]) (auto simp: op)
  have pl0: "place E rank big op current meta plan ?st" by (rule place_advances [OF pl adv0]) auto
  obtain child st1 where new: "CreateChildMetaPipeline meta current op ?st = (child, st1)" by fastforce
  note rhs = place_child [OF pl0 new child_rank [OF wf op(1)], of rhs]
  have rhs: "place E rank big rhs (GetBasePipeline child st1) child plan st1" "\<And>u. (GetBasePipeline child st1, u) \<notin> E"
    "advances plan rank big E ?st st1" using rhs op(3) by auto
  obtain st2 where st2: "BuildPipelines fuel plan rhs (GetBasePipeline child st1) child st1 = Inr st2" "advances plan rank big E st1 st2"
    using buildD [OF IH wf op(1) _ op(4) rhs(1,2)] op(3) by auto
  have "grows st ?st" "grows ?st st1" "grows st1 st2" using adv0 rhs(3) st2(2) by (simp_all add: advances_def)
  then have g2: "grows st st2" using grows_trans by blast
  then have adv2: "advances plan rank big E st st2" using st2(2) by (simp add: advances_def)
  have "place E rank big lhs current meta plan st2"
    by (rule place_advances [OF pl adv2]) (use child_rank [OF wf op(1), of lhs] op(3) in auto)
  from buildD [OF IH wf op(1) _ op(4) this E] op(3) obtain st3 where
    st3: "BuildPipelines fuel plan lhs current meta st2 = Inr st3" "advances plan rank big E st2 st3" by auto
  have adv3: "advances plan rank big E st st3" by (rule advances_trans [OF g2 st3(2)])
  have pl3: "place E rank big op current meta plan st3" by (rule place_advances [OF pl adv3]) auto
  have "advances plan rank big E st3 (CreateChildPipeline meta current op last_pipeline st3)" for last_pipeline
    using pl3 E by (intro CreateChildPipeline_advances) (auto simp: place_def)
  then have "advances plan rank big E st (CreateChildPipeline meta current op last_pipeline st3)" for last_pipeline
    by (rule advances_trans [rotated]) (use adv3 in \<open>simp add: advances_def\<close>)
  then show ?thesis using BuildPipelines_kinds(4) [of plan op node, OF op(1-3) new st2(1) st3(1)] adv3 by auto
qed

lemma build_step:
  assumes wf: "wf_plan plan rank" and IH: "build_ok plan rank big fuel" "related_ok plan rank big fuel"
  shows "build_ok plan rank big (Suc fuel)"
  unfolding build_ok_def
proof (intro allI impI, elim conjE)
  fix op current meta st E
  assume "plan op \<noteq> None" and rank: "rank op < Suc fuel" and pl: "place E rank big op current meta plan st"
    and "\<forall>u. (current, u) \<notin> E"
  then obtain node where op: "plan op = Some node" and E: "\<And>u. (current, u) \<notin> E" by auto
  have shape: "shape_ok node" using wf op by (auto simp: wf_plan_def)
  have inv: "build_inv rank big st" "waits plan E st" using pl by (simp_all add: place_def)
  have src: "advances plan rank big E st (SetPipelineSource current op st)" by (rule SetPipelineSource_advances [OF inv])
  have pl_src: "place E rank big op current meta plan (SetPipelineSource current op st)" by (rule place_advances [OF pl src]) auto
  have g_src: "grows st (SetPipelineSource current op st)" using src by (simp add: advances_def)
  show "\<exists>st'. BuildPipelines (Suc fuel) plan op current meta st = Inr st' \<and> advances plan rank big E st st'"
  proof (cases "phys_kind node")
    case KIND_SOURCE
    then show ?thesis using shape src BuildPipelines_kinds(1) [of plan op node, OF op] by (auto simp: shape_ok_def)
  next
    case KIND_STREAM
    then obtain c where c: "phys_children node = [c]" using shape by (cases "phys_children node") (auto simp: shape_ok_def)
    have adv: "advances plan rank big E st (AddPipelineOperator current op st)"
      by (rule AddPipelineOperator_advances [OF inv]) (auto simp: op KIND_STREAM)
    have "place E rank big c current meta plan (AddPipelineOperator current op st)"
      by (rule place_advances [OF pl adv]) (use child_rank [OF wf op, of c] c in auto)
    from buildD [OF IH(1) wf op _ rank this E] c obtain st' where
      "BuildPipelines fuel plan c current meta (AddPipelineOperator current op st) = Inr st'"
      "advances plan rank big E (AddPipelineOperator current op st) st'" by auto
    moreover have "grows st (AddPipelineOperator current op st)" using adv by (simp add: advances_def)
    ultimately show ?thesis using BuildPipelines_kinds(2) [of plan op node, OF op KIND_STREAM c] advances_trans by auto
  next
    case KIND_SINK
    then obtain c where c: "phys_children node = [c]" using shape by (cases "phys_children node") (auto simp: shape_ok_def)
    obtain child st1 where new: "CreateChildMetaPipeline meta current op (SetPipelineSource current op st) = (child, st1)" by fastforce
    have "rank c < rank op" using child_rank [OF wf op] c by simp
    note child = place_child [OF pl_src new this]
    from buildD [OF IH(1) wf op _ rank child(1,2)] c obtain st' where
      "BuildPipelines fuel plan c (GetBasePipeline child st1) child st1 = Inr st'" "advances plan rank big E st1 st'" by auto
    moreover have "grows st st1" using g_src child(3) grows_trans by (auto simp: advances_def)
    ultimately show ?thesis using BuildPipelines_kinds(3) [of plan op node, OF op KIND_SINK c new] advances_trans by auto
  next
    case (KIND_JOIN is_source)
    then obtain lhs rhs where "phys_children node = [lhs, rhs]"
      using shape by (auto simp: shape_ok_def numeral_2_eq_2 length_Suc_conv)
    then show ?thesis using join_step [OF wf IH(1) op KIND_JOIN _ rank pl E] by simp
  next
    case KIND_CREATE_BF
    then obtain c where c: "phys_children node = [c]" using shape by (cases "phys_children node") (auto simp: shape_ok_def)
    obtain st' where "BuildPipelinesFromRelated (Suc fuel) plan op current meta (SetPipelineSource current op st) = Inr st'"
      "advances plan rank big E (SetPipelineSource current op st) st'"
      using related_step [OF wf IH(1)] op KIND_CREATE_BF rank pl_src unfolding related_ok_def by blast
    then show ?thesis
      using BuildPipelines_kinds(5) [of plan op node, OF op KIND_CREATE_BF c] advances_trans [OF g_src] by auto
  next
    case KIND_USE_BF
    then obtain c where c: "phys_children node = [c]" using shape by (cases "phys_children node") (auto simp: shape_ok_def)
    show ?thesis by (rule use_step [OF wf IH op KIND_USE_BF c rank pl E])
  qed
qed

lemma build_all_fuel: "wf_plan plan rank \<Longrightarrow> build_ok plan rank big fuel \<and> related_ok plan rank big fuel"
proof (induction fuel)
  case 0
  then show ?case by (simp add: build_ok_def related_ok_def)
next
  case (Suc fuel)
  then show ?case using build_step related_step by blast
qed

lemma edges_descend:
  assumes "build_inv rank big st"
  shows "{(q, p). edge st p q} \<subseteq> inv_image (less_than <*lex*> less_than) (\<lambda>p. (level rank big st p, p))"
proof
  fix x assume "x \<in> {(q, p). edge st p q}"
  then obtain p q where x: "x = (q, p)" and e: "edge st p q" by auto
  then show "x \<in> inv_image (less_than <*lex*> less_than) (\<lambda>p. (level rank big st p, p))"
    using build_invD(2) [OF assms, of p q] build_invD(3) [OF assms, of q p] by (auto simp: edge_def level_def)
qed

section \<open>Claims\<close>

text \<open>
  C5. Every filter is built before it is used, and no pipeline waits for itself. For a plan
  whose operators can be ordered, building the pipelines returns; a pipeline that has a
  USE_BF operator waits, directly or through other pipelines, for the pipeline that ends
  in each of the CREATE_BF operators the operator is related to; and the dependencies of
  the pipelines have no cycle, so that all of them can run.
\<close>

theorem pipelines_wait_for_filters:
  assumes "wf_plan plan rank" and "plan root \<noteq> None" and "rank root < fuel"
  shows "\<exists>st. build_plan fuel plan root = Inr st \<and> acyclic {(p, q). edge st p q} \<and>
    (\<forall>p u node c. p < length (pls st) \<and> u \<in> set (pl_operators (pls st ! p)) \<and> plan u = Some node \<and>
       phys_kind node = KIND_USE_BF \<and> c \<in> set (phys_related node) \<longrightarrow>
       (\<exists>q. (edge st)\<^sup>+\<^sup>+ p q \<and> sink (pls st ! q) = Some c))"
proof -
  let ?big = "Suc (rank root)" and ?st = "MetaPipeline_new None BuildState_new"
  have "place {} rank ?big root 0 0 plan ?st"
    by (simp add: place_def build_inv_def waits_def level_def MetaPipeline_new_def BuildState_new_def)
  then obtain st where st: "build_plan fuel plan root = Inr st" "advances plan rank ?big {} ?st st"
    using build_all_fuel [OF assms(1), of ?big fuel] assms(2,3) unfolding build_ok_def build_plan_def by blast
  have inv: "build_inv rank ?big st" "waits plan {} st" using st(2) by (simp_all add: advances_def)
  have "wf {(q, p). edge st p q}" by (rule wf_subset [OF _ edges_descend [OF inv(1)]]) (simp add: wf_inv_image wf_lex_prod)
  then have "acyclic ({(q, p). edge st p q}\<inverse>)" by (simp add: wf_acyclic acyclic_converse)
  moreover have "{(q, p). edge st p q}\<inverse> = {(p, q). edge st p q}" by auto
  ultimately show ?thesis using st(1) inv(2) unfolding waits_def by auto
qed

text \<open>A join of a filtered scan with the scan the filter is built from.\<close>

definition sample_physical :: PhysicalPlan where
  "sample_physical op =
     (if op = 0 then Some \<lparr> phys_kind = KIND_JOIN True, phys_children = [1, 3], phys_related = [] \<rparr>
      else if op = 1 then Some \<lparr> phys_kind = KIND_USE_BF, phys_children = [2], phys_related = [3] \<rparr>
      else if op = 2 then Some \<lparr> phys_kind = KIND_SOURCE, phys_children = [], phys_related = [] \<rparr>
      else if op = 3 then Some \<lparr> phys_kind = KIND_CREATE_BF, phys_children = [4], phys_related = [] \<rparr>
      else if op = 4 then Some \<lparr> phys_kind = KIND_SOURCE, phys_children = [], phys_related = [] \<rparr>
      else None)"

lemma sample_physical_wf: "wf_plan sample_physical (\<lambda>op. 4 - op)"
  by (auto simp: wf_plan_def sample_physical_def shape_ok_def split: if_splits)

theorem pipelines_wait_for_filters_witness:
  "\<exists>st. build_plan 5 sample_physical 0 = Inr st \<and> acyclic {(p, q). edge st p q} \<and> 1 \<in> set (pl_operators (pls st ! 0)) \<and>
     (\<exists>q. (edge st)\<^sup>+\<^sup>+ 0 q \<and> sink (pls st ! q) = Some 3)"
proof -
  have "sample_physical 0 \<noteq> None" "(4 :: nat) - 0 < 5" by (simp_all add: sample_physical_def)
  from pipelines_wait_for_filters [OF sample_physical_wf this] obtain st where st: "build_plan 5 sample_physical 0 = Inr st"
    "acyclic {(p, q). edge st p q}"
    and waits: "\<And>p u node c. p < length (pls st) \<Longrightarrow> u \<in> set (pl_operators (pls st ! p)) \<Longrightarrow> sample_physical u = Some node \<Longrightarrow>
       phys_kind node = KIND_USE_BF \<Longrightarrow> c \<in> set (phys_related node) \<Longrightarrow> \<exists>q. (edge st)\<^sup>+\<^sup>+ p q \<and> sink (pls st ! q) = Some c"
    by blast
  have "0 < length (pls st) \<and> 1 \<in> set (pl_operators (pls st ! 0))"
    using st(1) by (auto simp: build_plan_def sample_physical_def numeral_nat BuildPipelines.simps MetaPipeline_new_def BuildState_new_def
        AddPipelineOperator_def CreateChildMetaPipeline_def AddDependency_def GetBasePipeline_def SetPipelineSource_def
        CreateChildPipeline_def AddDependenciesFrom_def Executor_CreateChildPipeline_def Let_def)
  then show ?thesis using st waits [of 0 1 _ 3] by (auto simp: sample_physical_def)
qed


end
