(* ===== verification/Spec2Isabelle.thy ===== *)
theory Spec2Isabelle
  imports PT_Prelude Bloom_Masks Bloom_Filter Bloom_Avx2 Bloom_Batch Partition_Sort Bloom_Builder
    Logical_Plan Nodes_Manager Dag Dag_Manager Dag_Forest Dag_Orient Dag_Build PT_Optimizer PT_Weave PT_Operators PT_Passes PT_Optimize
    Hash_Value Vector_Hash Vector_Values List_Hash Column_Hash Column_Data Data_Collection Physical_UseBF
    Physical_CreateBF Value_Equality Column_Binding_Resolver Operator_Names Pipelines
begin

text \<open>
  Predicate transfer for DuckDB: a verification development.

  The repository is DuckDB extended with \<^emph>\<open>predicate transfer\<close>. Before the join order is
  fixed the optimizer extracts a join graph from the logical plan and orients it; after the
  join order is fixed it inserts operators that build Bloom filters on one side of an edge
  (CREATE_BF) and probe them on the other (USE_BF), first from the leaves to the root and
  then back. At run time CREATE_BF collects its input, builds its filters from the hashes of
  the key columns and hands its rows on; USE_BF drops the rows whose key hash the filter does
  not contain. Paths below are relative to src/src; PT is optimizer/predicate_transfer.

  \<^bold>\<open>Theories and code\<close>

  \<^item> PT_Prelude: machine types, memory as bytes, errors as sum types, loops over fallible
    bodies, and the functions of Apache Arrow the sources call. Arrow is not in the
    repository: it is the record \<open>arrow_lib\<close>, an argument of the model, with its documented
    behaviour as the predicates \<open>arrow_rotl_ok\<close>, \<open>arrow_log2_ok\<close>, \<open>arrow_alloc_ok\<close>,
    \<open>arrow_bits_ok\<close> and \<open>arrow_count_ok\<close>; \<open>arrow_ref\<close> satisfies them.
  \<^item> Bloom_Masks, Bloom_Filter, Bloom_Batch, Bloom_Avx2 (PT/bloom_filter/bloom_filter.cpp,
    bloom_filter_avx2.cpp and their headers): the mask table, \<open>class BlockedBloomFilter\<close> with
    creation and folding, batch insertion and lookup, and the vector kernels. A lookup finds
    every inserted hash, the kernels agree with the scalar code, folding ends and loses no hash.
  \<^item> Partition_Sort, Bloom_Builder (PT/bloom_filter/partition_util.hpp, bloom_filter.cpp):
    the bucket sort, the partition locks, both builders. The locale \<open>bloom_builder\<close> is the
    contract of a builder; it is interpreted for the single threaded builder, the parallel
    one, and the one CREATE_BF uses. Interleavings of atomic updates are a step relation.
  \<^item> Logical_Plan, Nodes_Manager, Dag, Dag_Manager, Dag_Forest, Dag_Orient, Dag_Build
    (PT/nodes_manager.cpp, dag.cpp, dag_manager.cpp): plans as the optimizer reads them,
    the extraction of vertices and joins, the spanning forest, its orientation. The graph is
    an acyclic forest, every vertex is visited once, nothing flows into the preserved side of
    an outer join.
  \<^item> PT_Optimizer, PT_Weave, PT_Operators, PT_Passes, PT_Optimize
    (PT/predicate_transfer_optimizer.cpp): both phases. They return on every well formed plan
    and change it only by adding filter operators, with columns that a join equates, and with
    every used filter created once and earlier.
  \<^item> Hash_Value, Vector_Hash, Vector_Values, List_Hash, Column_Hash
    (common/types/hash.cpp, common/vector_operations/vector_hash.cpp): hashes of values and of
    columns. A column hash depends only on the values in the column, whatever the form of the
    vector, outside the two cases shown to read unwritten memory.
  \<^item> Value_Equality (common/operator/comparison_operators.hpp,
    common/vector_operations/comparison_operators.cpp): values that joins identify hash alike.
  \<^item> Column_Data, Data_Collection (common/types/data_chunk.cpp, common/types/column):
    chunks, and the collection CREATE_BF keeps its input in, which returns the rows appended
    to it. The contract is the locale \<open>row_collection\<close>.
  \<^item> Physical_CreateBF, Physical_UseBF (execution/operator/persistent/physical_create_bf.cpp,
    execution/operator/filter/physical_use_bf.cpp, bloom_filter_use_kernel.cpp): the operators.
  \<^item> Column_Binding_Resolver (execution/column_binding_resolver.cpp): from column bindings
    to the positions the filters use.
  \<^item> Pipelines (parallel/meta_pipeline.cpp, pipeline.cpp, executor.cpp and the
    \<open>BuildPipelines\<close> methods): in a plan whose operators can be ranked, filters are
    built before they are used, without a cycle. That the plans of the optimizer can be
    ranked is suggested by the order in which PT_Optimize shows filters are created; it is not
    proved, since the generation of physical operators lies between.
  \<^item> Operator_Names (common/enums/logical_operator_type.cpp, common/enum_util.cpp).

  This theory joins the resolver and the operators: rows that join are never dropped.

  \<^bold>\<open>Loops, fuel and bounds\<close>

  Loops are structural recursion or \<open>function\<close> with a measure. Where the code may loop for
  ever (random search for a free bit, chains of renamed columns, the growth of the forest)
  the model is a \<open>partial_function\<close> whose value \<open>None\<close> means that it does not return, and
  returning is proved. Two functions have fuel: \<open>read_source\<close>, for which more than the number
  of chunks plus one is enough, and \<open>BuildPipelines\<close>, for which more than the rank of the root
  is enough, in any ranking that decreases from an operator to its children and to the
  CREATE_BF operators it is related to. The number of rows is below 2^60 where sizes are
  computed, so that no size wraps around. Hash tables of the standard library are iterated in
  an arbitrary order, which is an argument.

  \<^bold>\<open>Not modelled\<close>

  \<^item> The hash filter (PT/hash_filter): compiled only with \<open>UseHashFilter\<close>, whose definition is
    commented out; likewise the configuration \<open>External\<close> of CREATE_BF.
  \<^item> Generation of the physical operators (plan_create_bf.cpp, plan_use_bf.cpp), which
    allocates objects: the graph of operators is the input of Pipelines.
  \<^item> Memory behind collections (buffers, pinning, pointer swizzling), the caching of small
    chunks, events, batch indexes, profiling, debug output.
  \<^item> Union, common table expression and other operators with build methods of their own.
  \<^item> The rest of DuckDB (parser, binder, other optimizer passes, join order, other operators,
    storage, transactions, catalog), which predicate transfer does not change.

  That a plan with filters returns what the plan without them returns is not stated as one
  theorem, since the joins above the filters are not modelled: the parts are that filters sit
  on columns a join equates, never on a side an outer join preserves, and that no row is
  dropped that equals a row of the other side in these columns.
\<close>

section \<open>The operators together\<close>

lemma transfer_keeps:
  assumes "arrow_rotl_ok A" and "arrow_log2_ok A" and "arrow_alloc_ok A" and "list_all storable ts"
    and "list_all (\<lambda>f. cols_ok ts (BoundColsBuilt f)) bfs" and "list_all (list_all (sunk ts)) inputs"
    and "length (input_rows inputs) < 2 ^ 60" and "length threads < num_threads"
    and "list_all (\<lambda>f. fst (CreateEmpty A (length (input_rows inputs)) f) = Status_OK) bfs"
    and "i < length bfs" and "keys_ok (BoundColsApplied (bfs ! i)) (chunk_columns chunk)"
    and "chunk_rows chunk = Some rs" and "list_all slice_ok (chunk_columns chunk)"
    and "0 < chunk_size chunk" and "chunk_size chunk \<le> STANDARD_VECTOR_SIZE" and "length sel0 = STANDARD_VECTOR_SIZE"
  shows "\<exists>gstate sink. sink_all ts inputs = Inr gstate \<and> Finalize A num_threads bfs gstate = Inr sink \<and>
    (\<forall>tasks. mset (map snd tasks) = mset (CreateBF_Schedule num_threads verify sink) \<longrightarrow>
      (\<exists>sink' out P. run_tasks A masks threads tasks sink = Inr sink' \<and>
        ExecuteInternal A masks [snd (builders sink' ! i)] sel0 chunk = Inr out \<and>
        chunk_types out = chunk_types chunk \<and> chunk_rows out = Some (filter P rs) \<and>
        (\<forall>r s. s \<in> set (input_rows inputs) \<and> same_key (BoundColsApplied (bfs ! i)) r (BoundColsBuilt (bfs ! i)) s \<longrightarrow> P r)))"
proof -
  let ?rows = "input_rows inputs" and ?f = "bfs ! i"
  let ?built = "with_rows A masks ?rows (snd (CreateEmpty A (length ?rows) ?f))"
  let ?P = "\<lambda>r. Find1 A masks ?built (key_hash (BoundColsApplied ?f) r)"
  have wf: "bf_wf (snd (CreateEmpty A (length ?rows) ?f))"
    using CreateEmpty_OK(1) [OF assms(2,3,7), of ?f] assms(9,10) by (auto simp: list_all_length prod_eq_iff)
  then have wf': "bf_wf ?built" by simp
  have P: "?P r" if "s \<in> set ?rows" "same_key (BoundColsApplied ?f) r (BoundColsBuilt ?f) s" for r s
  proof -
    have "key_hash (BoundColsApplied ?f) r = key_hash (BoundColsBuilt ?f) s"
      using same_key_hash [OF that(2)] assms(11) by (simp add: keys_ok_def)
    then show ?thesis using Find1_with_rows [OF wf that(1), of A masks] by simp
  qed
  have keys: "keys_ok (BoundColsApplied ?built) (chunk_columns chunk)" using assms(11) by simp
  obtain out where out: "ExecuteInternal A masks [?built] sel0 chunk = Inr out" "chunk_types out = chunk_types chunk"
    "chunk_rows out = Some (filter ?P rs)"
    using ExecuteInternal_ok [OF assms(1) wf' keys assms(12-16), of masks "[]"] by auto
  obtain gstate sink where fin: "sink_all ts inputs = Inr gstate" "Finalize A num_threads bfs gstate = Inr sink"
    and run: "\<And>tasks. mset (map snd tasks) = mset (CreateBF_Schedule num_threads verify sink) \<Longrightarrow>
      \<exists>sink'. run_tasks A masks threads tasks sink = Inr sink' \<and>
        map snd (builders sink') = map (\<lambda>f. with_rows A masks ?rows (snd (CreateEmpty A (length ?rows) f))) bfs"
    using build_complete [OF assms(1,4,5,6,8), of verify masks] by blast
  have "snd (bs ! i) = ?built"
    if "map snd bs = map (\<lambda>f. with_rows A masks ?rows (snd (CreateEmpty A (length ?rows) f))) bfs" for bs :: "(BloomFilterBuilder \<times> BlockedBloomFilter) list"
    using arg_cong [OF that, of "\<lambda>xs. xs ! i"] arg_cong [OF that, of length] assms(10) by simp
  then show ?thesis using fin run out P by metis
qed

text \<open>The value of a column in a row, given the bindings of the columns.\<close>

definition column_value :: "ColumnBinding list \<Rightarrow> row \<Rightarrow> ColumnBinding \<Rightarrow> Value" where
  "column_value bindings r c = r ! the (binding_index c bindings 0)"

lemma resolved_columns:
  assumes "resolve_create_bf built_bindings f0 = Inr f1" and "resolve_use_bf applied_bindings f1 = Inr f"
    and "BoundColsBuilt f0 = []" and "BoundColsApplied f0 = []"
    and "set (column_bindings_built f0) \<subseteq> set built_bindings" and "set (column_bindings_applied f0) \<subseteq> set applied_bindings"
  shows "same_key (BoundColsApplied f) r (BoundColsBuilt f) s \<longleftrightarrow>
    list_all2 same_value (map (column_value applied_bindings r) (column_bindings_applied f0))
      (map (column_value built_bindings s) (column_bindings_built f0))"
proof -
  have "filter (\<lambda>c. c \<in> set built_bindings) (column_bindings_built f0) = column_bindings_built f0"
    "filter (\<lambda>c. c \<in> set applied_bindings) (column_bindings_applied f0) = column_bindings_applied f0"
    using assms(5,6) by (auto simp: filter_id_conv)
  then have "BoundColsBuilt f = map (\<lambda>c. the (binding_index c built_bindings 0)) (column_bindings_built f0)"
    "BoundColsApplied f = map (\<lambda>c. the (binding_index c applied_bindings 0)) (column_bindings_applied f0)"
    using assms(1-4) by (auto simp: resolve_create_bf_def resolve_use_bf_def bind_columns_eq Let_def split: if_splits)
  then show ?thesis by (simp add: same_key_def column_value_def [abs_def] comp_def)
qed

text \<open>
  C1. Predicate transfer does not lose join results. A filter is given its columns by the
  binding resolver; rows are sunk into its CREATE_BF operator, whose finalize tasks build
  the filters of the operator, in any order and on any threads; and the USE_BF operator
  applies the filter to a chunk. If the bindings have all columns of the filter and its
  blocks can be allocated, nothing fails, and the operator returns a part of the rows of
  the chunk, in order, that has every row that equals a sunk row in the columns of the
  filter.
\<close>

theorem transfer_keeps_joining_rows:
  assumes "arrow_rotl_ok A" and "arrow_log2_ok A" and "arrow_alloc_ok A" and "list_all storable ts"
    and "list_all (\<lambda>f. cols_ok ts (BoundColsBuilt f)) bfs" and "list_all (list_all (sunk ts)) inputs"
    and "length (input_rows inputs) < 2 ^ 60" and "length threads < num_threads"
    and "list_all (\<lambda>f. fst (CreateEmpty A (length (input_rows inputs)) f) = Status_OK) bfs"
    and "i < length bfs" and "keys_ok (BoundColsApplied (bfs ! i)) (chunk_columns chunk)"
    and "chunk_rows chunk = Some rs" and "list_all slice_ok (chunk_columns chunk)"
    and "0 < chunk_size chunk" and "chunk_size chunk \<le> STANDARD_VECTOR_SIZE" and "length sel0 = STANDARD_VECTOR_SIZE"
    and "resolve_create_bf built_bindings f0 = Inr f1" and "resolve_use_bf applied_bindings f1 = Inr (bfs ! i)"
    and "BoundColsBuilt f0 = []" and "BoundColsApplied f0 = []"
    and "set (column_bindings_built f0) \<subseteq> set built_bindings" and "set (column_bindings_applied f0) \<subseteq> set applied_bindings"
  shows "\<exists>gstate sink. sink_all ts inputs = Inr gstate \<and> Finalize A num_threads bfs gstate = Inr sink \<and>
    (\<forall>tasks. mset (map snd tasks) = mset (CreateBF_Schedule num_threads verify sink) \<longrightarrow>
      (\<exists>sink' out P. run_tasks A masks threads tasks sink = Inr sink' \<and>
        ExecuteInternal A masks [snd (builders sink' ! i)] sel0 chunk = Inr out \<and>
        chunk_types out = chunk_types chunk \<and> chunk_rows out = Some (filter P rs) \<and>
        (\<forall>r s. s \<in> set (input_rows inputs) \<and>
            list_all2 same_value (map (column_value applied_bindings r) (column_bindings_applied f0))
              (map (column_value built_bindings s) (column_bindings_built f0)) \<longrightarrow> P r)))"
  using transfer_keeps [OF assms(1-16), of verify masks] unfolding resolved_columns [OF assms(17-22)] .

definition sample_bindings :: "ColumnBinding list" where
  "sample_bindings = [\<lparr>table_index = 4, column_index = 0\<rparr>, \<lparr>table_index = 4, column_index = 1\<rparr>]"

definition unbound_filter :: BlockedBloomFilter where
  "unbound_filter = BlockedBloomFilter_new\<lparr>column_bindings_applied := rev sample_bindings, column_bindings_built := rev sample_bindings\<rparr>"

definition bound_filter :: BlockedBloomFilter where
  "bound_filter = unbound_filter\<lparr>BoundColsBuilt := [1, 0], BoundColsApplied := [1, 0]\<rparr>"

lemma bound_filter_resolved:
  "resolve_create_bf sample_bindings unbound_filter = Inr (unbound_filter\<lparr>BoundColsBuilt := [1, 0]\<rparr>)"
  "resolve_use_bf sample_bindings (unbound_filter\<lparr>BoundColsBuilt := [1, 0]\<rparr>) = Inr ([bound_filter] ! 0)"
  "BoundColsBuilt unbound_filter = []" "BoundColsApplied unbound_filter = []"
  "set (column_bindings_built unbound_filter) \<subseteq> set sample_bindings" "set (column_bindings_applied unbound_filter) \<subseteq> set sample_bindings"
  by (simp_all add: resolve_create_bf_def resolve_use_bf_def bound_filter_def unbound_filter_def sample_bindings_def
      BlockedBloomFilter_new_def Let_def)

theorem transfer_keeps_joining_rows_witness:
  "\<exists>gstate sink. sink_all [T_INT32, T_VARCHAR] sample_inputs = Inr gstate \<and> Finalize arrow_ref 2 [bound_filter] gstate = Inr sink \<and>
     (\<exists>sink' out P. run_tasks arrow_ref (replicate 136 85) [7 :: nat] (map (\<lambda>t. (7, t)) (rev (CreateBF_Schedule 2 True sink))) sink = Inr sink' \<and>
       ExecuteInternal arrow_ref (replicate 136 85) [snd (builders sink' ! 0)] (replicate 2048 0) sample_chunk = Inr out \<and>
       chunk_rows out = Some (filter P (the (chunk_rows sample_chunk))))"
proof -
  have build: "length (input_rows sample_inputs) < 2 ^ 60" "length [7 :: nat] < 2"
    "list_all (\<lambda>f. fst (CreateEmpty arrow_ref (length (input_rows sample_inputs)) f) = Status_OK) [bound_filter]" "0 < length [bound_filter]"
    by (simp_all add: sample_inputs_ok(2) CreateEmpty_def Let_def arrow_ref_def)
  have bound_cols: "list_all (\<lambda>f. cols_ok [T_INT32, T_VARCHAR] (BoundColsBuilt f)) [bound_filter]"
    by (simp add: cols_ok_def bound_filter_def)
  have keys: "keys_ok (BoundColsApplied ([bound_filter] ! 0)) (chunk_columns sample_chunk)"
    by (simp add: keys_ok_def bound_filter_def unbound_filter_def sample_chunk_def)
  have size: "0 < chunk_size sample_chunk" "chunk_size sample_chunk \<le> STANDARD_VECTOR_SIZE"
    "length (replicate 2048 (0::nat)) = STANDARD_VECTOR_SIZE" by (simp_all add: sample_chunk_def STANDARD_VECTOR_SIZE_def)
  from transfer_keeps_joining_rows [OF arrow_ref_ok(4,1,5) sample_inputs_ok(4) bound_cols sample_inputs_ok(1) build keys sample_chunk_rows keys_ok_sample(2) size
        bound_filter_resolved,
      of True "replicate 136 85"]
  show ?thesis
  proof (elim exE conjE, goal_cases)
    case (1 gstate sink)
    have "mset (map snd (map (\<lambda>t. (7 :: nat, t)) (rev (CreateBF_Schedule 2 True sink)))) = mset (CreateBF_Schedule 2 True sink)"
      by (simp add: comp_def)
    from 1(3) [rule_format, OF this] 1(1,2) show ?case unfolding sample_chunk_rows option.sel by blast
  qed
qed

end
